(* ===== verification/Prelude.thy ===== *)
theory Prelude
  imports Main "HOL-Library.Word" "HOL-Library.Mapping" "HOL-Library.AList_Mapping"
begin

section \<open>Types, outcomes and automation shared by every component\<close>

text \<open>
  Go's \<open>uint64\<close> is a 64-bit word (arithmetic wraps), \<open>byte\<close> an 8-bit word, \<open>[]byte\<close> a list of
  bytes. A Go \<open>map\<close> with \<open>uint64\<close> values is a \<^typ>\<open>('k, 'v) mapping\<close> read with a default of zero,
  a \<open>map[NodeID]bool\<close> that only ever stores \<open>true\<close> is the set of its keys. Node IDs are 64-bit
  words, so all such sets are finite. Go does not fix the order in which \<open>range\<close> walks a map:
  operations that range over a map take the order as an argument, and \<open>map_order\<close> says what the
  language promises about it.

  A call that can fail returns an outcome: \<open>Done s\<close> (a nil error, state \<open>s\<close>), \<open>Failed e s\<close>
  (a non-nil error \<open>e\<close>, with the state the call left behind), or \<open>Panic\<close> (a run-time panic:
  an index out of range or a write to a nil map).
\<close>

type_synonym u64 = "64 word"
type_synonym u32 = "32 word"
type_synonym byte = "8 word"
type_synonym bytes = "byte list"
type_synonym node_id = u64
type_synonym map_range = "node_id set \<Rightarrow> node_id list"

definition ascii :: "string \<Rightarrow> bytes" where
  "ascii s = map of_char s"

definition map_order :: "map_range \<Rightarrow> bool" where
  "map_order it \<longleftrightarrow> (\<forall>S. set (it S) = S \<and> distinct (it S))"

abbreviation sorted_range :: map_range where
  "sorted_range \<equiv> sorted_list_of_set"

subsection \<open>Outcomes\<close>

datatype ('e, 's) outcome = Done 's | Failed 'e 's | Panic

fun and_then :: "('e, 's) outcome \<Rightarrow> ('s \<Rightarrow> ('e, 't) outcome) \<Rightarrow> ('s \<Rightarrow> 't) \<Rightarrow> ('e, 't) outcome" where
  \<comment> \<open>run \<open>k\<close> after a nil error; the third argument embeds the state of a failed call\<close>
  "and_then (Done s) k r = k s"
| "and_then (Failed e s) k r = Failed e (r s)"
| "and_then Panic k r = Panic"

fun ignore_error :: "('e, 's) outcome \<Rightarrow> ('e, 's) outcome" where
  \<comment> \<open>Go's \<open>_ = f()\<close>\<close>
  "ignore_error (Failed e s) = Done s"
| "ignore_error r = r"

fun leaves :: "('s \<Rightarrow> bool) \<Rightarrow> ('e, 's) outcome \<Rightarrow> bool" where
  \<comment> \<open>the call does not panic and the state it leaves, error or not, satisfies \<open>P\<close>\<close>
  "leaves P (Done s) = P s"
| "leaves P (Failed e s) = P s"
| "leaves P Panic = False"

fun left_state :: "('e, 's) outcome \<Rightarrow> 's option" where
  "left_state (Done s) = Some s"
| "left_state (Failed e s) = Some s"
| "left_state Panic = None"

lemma leaves_iff: "leaves P r \<longleftrightarrow> (\<exists>s. left_state r = Some s \<and> P s)"
  by (cases r) auto

lemma leavesD: "leaves P r \<Longrightarrow> left_state r = Some s \<Longrightarrow> P s"
  by (cases r) auto

lemma leaves_mono: "leaves P r \<Longrightarrow> (\<And>s. P s \<Longrightarrow> Q s) \<Longrightarrow> leaves Q r"
  by (cases r) auto

lemma leaves_conj: "leaves P r \<Longrightarrow> leaves Q r \<Longrightarrow> leaves (\<lambda>s. P s \<and> Q s) r"
  by (cases r) auto

lemma leaves_ignore_error [simp]: "leaves P (ignore_error r) = leaves P r"
  by (cases r) auto

lemma left_state_ignore_error [simp]: "left_state (ignore_error r) = left_state r"
  by (cases r) auto

lemma leaves_and_then:
  "leaves P r \<Longrightarrow> (\<And>s. P s \<Longrightarrow> leaves Q (k s)) \<Longrightarrow> (\<And>s. P s \<Longrightarrow> Q (f s)) \<Longrightarrow> leaves Q (and_then r k f)"
  by (cases r) auto

lemma left_state_Done: "r = Done s \<Longrightarrow> left_state r = Some s"
  by simp

lemma left_state_Failed: "r = Failed e s \<Longrightarrow> left_state r = Some s"
  by simp

subsection \<open>Words, maps and lists\<close>

lemma sorted_range_order: "map_order sorted_range"
  by (simp add: map_order_def)

lemma map_orderD: "map_order it \<Longrightarrow> set (it S) = S"
  by (simp add: map_order_def)

lemma map_order_distinct: "map_order it \<Longrightarrow> distinct (it S)"
  by (simp add: map_order_def)

lemma unat_plus_one: "x + 1 \<noteq> (0::'a::len word) \<Longrightarrow> unat (x + 1) = Suc (unat x)"
  by (metis add.commute unatSuc)

lemma unat_plus_one_less: "x < (y::'a::len word) \<Longrightarrow> unat (x + 1) = Suc (unat x)"
  by (rule unat_plus_one) (metis add_eq_0_iff linorder_not_less minus_minus word_order.extremum)

lemma unat_minus_one_word: "x \<noteq> (0::'a::len word) \<Longrightarrow> unat (x - 1) = unat x - 1"
  by (rule unat_minus_one)

lemma word_less_unat: "(a::'a::len word) < b \<longleftrightarrow> unat a < unat b"
  by (simp add: word_less_nat_alt)

lemma word_le_unat: "(a::'a::len word) \<le> b \<longleftrightarrow> unat a \<le> unat b"
  by (simp add: word_le_nat_alt)

lemma word_eq_unat: "(a::'a::len word) = b \<longleftrightarrow> unat a = unat b"
  by (simp add: word_unat_eq_iff)

lemma lookup_default_update [simp]:
  "Mapping.lookup_default d (Mapping.update k v m) k' = (if k' = k then v else Mapping.lookup_default d m k')"
  by (simp add: lookup_default_update')

lemma lookup_default_empty [simp]: "Mapping.lookup_default d Mapping.empty k = d"
  by (simp add: lookup_default_def)

lemma takeWhile_nth_less:
  assumes "\<And>i. i < length xs \<Longrightarrow> P (xs ! i) \<longleftrightarrow> i < k"
  shows "takeWhile P xs = take k xs"
proof -
  have "takeWhile P xs = take (min k (length xs)) xs"
    by (rule takeWhile_eq_take_P_nth) (use assms in auto)
  then show ?thesis by (simp add: min_def)
qed

end
