(* ===== verification/Raft_Types.thy ===== *)
theory Raft_Types
  imports Prelude
begin

section \<open>internal/raft/state.go: roles, entries, hard state, messages, configuration\<close>

text \<open>
  The data that replicas keep and exchange. \<open>MessageType\<close> is a byte in the code and arrives
  from the network, so the model keeps the values outside the six constants
  (\<open>MsgOther\<close>), which \<open>Step\<close> answers with an error.
\<close>

datatype role = Follower | Candidate | Leader

record entry =
  e_index :: u64
  e_term :: u64
  e_data :: bytes

record hard_state =
  hs_term :: u64
  hs_vote :: u64
  hs_commit :: u64

datatype message_type =
  MsgPreVote | MsgPreVoteResp | MsgVote | MsgVoteResp | MsgAppend | MsgAppendResp | MsgOther byte

record message =
  m_type :: message_type
  m_from :: node_id
  m_to :: node_id
  m_term :: u64
  m_index :: u64
  m_log_term :: u64
  m_commit :: u64
  m_reject :: bool
  m_entries :: "entry list"

record config =
  c_id :: node_id
  c_peers :: "node_id list"
  c_learners :: "node_id list"
  c_election_tick :: int
  c_heartbeat_tick :: int

text \<open>Go's zero values, which the composite literals of the code start from.\<close>

definition zero_entry :: entry where
  "zero_entry = \<lparr>e_index = 0, e_term = 0, e_data = []\<rparr>"

definition zero_hard_state :: hard_state where
  "zero_hard_state = \<lparr>hs_term = 0, hs_vote = 0, hs_commit = 0\<rparr>"

definition message_of :: "message_type \<Rightarrow> node_id \<Rightarrow> u64 \<Rightarrow> message" where
  "message_of ty to t = \<lparr>m_type = ty, m_from = 0, m_to = to, m_term = t, m_index = 0,
     m_log_term = 0, m_commit = 0, m_reject = False, m_entries = []\<rparr>"

lemma zero_entry_sel [simp]:
  "e_index zero_entry = 0" "e_term zero_entry = 0" "e_data zero_entry = []"
  by (simp_all add: zero_entry_def)

lemma message_of_sel [simp]:
  "m_type (message_of ty to t) = ty" "m_from (message_of ty to t) = 0"
  "m_to (message_of ty to t) = to" "m_term (message_of ty to t) = t"
  "m_index (message_of ty to t) = 0" "m_log_term (message_of ty to t) = 0"
  "m_commit (message_of ty to t) = 0" "m_reject (message_of ty to t) = False"
  "m_entries (message_of ty to t) = []"
  by (simp_all add: message_of_def)

text \<open>Every error value the package returns.\<close>

datatype raft_error =
  ZeroIndexEntry | NonContiguousAppend
| IDAndPeersRequired | ElectionTickTooSmall | LocalIDAbsent | LearnerNotPeer | NoVoterPeer
| ProposalToNonLeader | WrongDestination | UnknownMessage
| ConfChangeNonLeader | ConfChangeInProgress | EmptyVoterSet | UnknownPeer | VoterIsLearner

end
