(* ===== verification/Raft_Log.thy ===== *)
theory Raft_Log
  imports Raft_Types
begin

section \<open>internal/raft/log.go: the replicated log\<close>

text \<open>
  \<open>raftLog\<close> is a slice of entries whose first element is a placeholder, and two cursors. The
  definitions follow the methods one by one. A slice the code indexes without a check
  (\<open>l.entries[len-1]\<close>, \<open>l.entries[0]\<close>) is non-empty in every state the code reaches: the only
  place that could empty it is the truncation inside \<open>append\<close>, where the next call of \<open>lastIndex\<close>
  panics; that panic is a branch of \<open>log_append\<close>, and \<open>log_append_wf\<close> shows it is never taken.
\<close>

record raft_log =
  entries :: "entry list"
  committed :: u64
  applied :: u64

definition new_log :: raft_log where
  "new_log = \<lparr>entries = [zero_entry], committed = 0, applied = 0\<rparr>"

definition last_index :: "raft_log \<Rightarrow> u64" where
  "last_index l = e_index (last (entries l))"

definition log_term :: "raft_log \<Rightarrow> u64 \<Rightarrow> u64 option" where
  \<comment> \<open>\<open>term\<close>: the pair (term, true) is \<open>Some\<close>, (0, false) is \<open>None\<close>\<close>
  "log_term l i =
     (let base = e_index (hd (entries l))
      in if i < base then None
         else let idx = i - base
              in if unat idx \<ge> length (entries l) then None
                 else let entry = entries l ! unat idx
                      in if e_index entry \<noteq> i then None else Some (e_term entry))"

definition term_or_zero :: "raft_log \<Rightarrow> u64 \<Rightarrow> u64" where
  \<comment> \<open>\<open>t, _ := l.term(i)\<close>\<close>
  "term_or_zero l i = (case log_term l i of None \<Rightarrow> 0 | Some t \<Rightarrow> t)"

definition truncate_before :: "u64 \<Rightarrow> raft_log \<Rightarrow> raft_log" where
  \<comment> \<open>the \<open>keep\<close> loop and \<open>l.entries = l.entries[:keep]\<close>\<close>
  "truncate_before i l = l\<lparr>entries := takeWhile (\<lambda>e. e_index e < i) (entries l)\<rparr>"

fun log_append :: "entry list \<Rightarrow> raft_log \<Rightarrow> (raft_error, raft_log) outcome" where
  "log_append [] l = Done l"
| "log_append (e # es) l =
     (if e_index e = 0 then Failed ZeroIndexEntry l
      else if e_index e \<le> last_index l \<and> log_term l (e_index e) = Some (e_term e)
      then log_append es l
      else let l1 = (if e_index e \<le> last_index l then truncate_before (e_index e) l else l)
           in if entries l1 = [] then Panic
              else if e_index e \<noteq> last_index l1 + 1 then Failed NonContiguousAppend l1
              else log_append es (l1\<lparr>entries := entries l1 @ [e]\<rparr>))"

definition entries_from :: "raft_log \<Rightarrow> u64 \<Rightarrow> entry list" where
  "entries_from l i =
     (if i > last_index l then []
      else let base = e_index (hd (entries l));
               start = (if i > base then unat (i - base) else 0)
           in drop start (entries l))"

subsection \<open>The invariant: a placeholder, then contiguous entries\<close>

definition log_wf :: "raft_log \<Rightarrow> bool" where
  "log_wf l \<longleftrightarrow> entries l \<noteq> [] \<and> hd (entries l) = zero_entry \<and>
     (\<forall>i < length (entries l). unat (e_index (entries l ! i)) = i)"

lemma log_wfD:
  assumes "log_wf l"
  shows "entries l \<noteq> []" "hd (entries l) = zero_entry" "entries l ! 0 = zero_entry"
    "\<And>i. i < length (entries l) \<Longrightarrow> unat (e_index (entries l ! i)) = i"
  using assms by (auto simp: log_wf_def hd_conv_nth)

lemma new_log_wf [simp]: "log_wf new_log"
  by (simp add: log_wf_def new_log_def)

lemma log_wf_cong: "entries l = entries l' \<Longrightarrow> log_wf l = log_wf l'"
  by (simp add: log_wf_def)

lemma log_wf_cursors [simp]:
  "log_wf (l\<lparr>committed := c\<rparr>) = log_wf l" "log_wf (l\<lparr>applied := a\<rparr>) = log_wf l"
  by (simp_all add: log_wf_def)

lemma last_index_cursors [simp]:
  "last_index (l\<lparr>committed := c\<rparr>) = last_index l" "last_index (l\<lparr>applied := a\<rparr>) = last_index l"
  by (simp_all add: last_index_def)

lemma log_term_cursors [simp]:
  "log_term (l\<lparr>committed := c\<rparr>) i = log_term l i" "log_term (l\<lparr>applied := a\<rparr>) i = log_term l i"
  by (simp_all add: log_term_def Let_def)

lemma unat_last_index: "log_wf l \<Longrightarrow> unat (last_index l) = length (entries l) - 1"
  by (simp add: log_wf_def last_index_def last_conv_nth)

lemma length_entries: "log_wf l \<Longrightarrow> length (entries l) = Suc (unat (last_index l))"
  using unat_last_index[of l] by (cases "entries l") (auto simp: log_wf_def)

text \<open>The direct lookup of \<open>term\<close> finds exactly the entry with that index.\<close>

lemma log_term_nth:
  "log_wf l \<Longrightarrow> log_term l i = (if unat i < length (entries l) then Some (e_term (entries l ! unat i)) else None)"
  using log_wfD[of l] by (auto simp: log_term_def Let_def word_eq_unat)

lemma log_term_Some_iff:
  assumes "log_wf l"
  shows "log_term l i = Some t \<longleftrightarrow> (\<exists>e \<in> set (entries l). e_index e = i \<and> e_term e = t)"
proof
  assume "log_term l i = Some t"
  then have "unat i < length (entries l)" "e_term (entries l ! unat i) = t"
    using assms by (auto simp: log_term_nth split: if_splits)
  moreover have "e_index (entries l ! unat i) = i" if "unat i < length (entries l)"
    using log_wfD(4)[OF assms that] by (simp add: word_eq_unat)
  ultimately show "\<exists>e \<in> set (entries l). e_index e = i \<and> e_term e = t"
    by (metis nth_mem)
next
  assume "\<exists>e \<in> set (entries l). e_index e = i \<and> e_term e = t"
  then obtain j where "j < length (entries l)" "e_index (entries l ! j) = i" "e_term (entries l ! j) = t"
    by (metis in_set_conv_nth)
  then show "log_term l i = Some t"
    using assms log_wfD(4)[OF assms, of j] by (auto simp: log_term_nth)
qed

lemma log_term_None_iff: "log_wf l \<Longrightarrow> log_term l i = None \<longleftrightarrow> last_index l < i"
  by (auto simp: log_term_nth length_entries word_less_unat)

lemma term_or_zero_nth:
  "log_wf l \<Longrightarrow> term_or_zero l i = (if unat i < length (entries l) then e_term (entries l ! unat i) else 0)"
  by (simp add: term_or_zero_def log_term_nth)

lemma entries_from_drop: "log_wf l \<Longrightarrow> entries_from l i = drop (unat i) (entries l)"
  by (auto simp: entries_from_def Let_def log_wfD length_entries word_less_unat not_less word_gt_0)

lemma entries_take_drop:
  assumes "log_wf l"
  shows "take (unat i) (entries l) @ entries_from l i = entries l"
  by (simp add: entries_from_drop[OF assms])

lemma truncate_before_take: "log_wf l \<Longrightarrow> entries (truncate_before i l) = take (unat i) (entries l)"
  unfolding truncate_before_def
  by (simp add: takeWhile_nth_less word_less_unat log_wfD)

subsection \<open>append keeps the log well-formed, whatever it is given\<close>

lemma log_wf_take: "log_wf l \<Longrightarrow> 0 < k \<Longrightarrow> log_wf (l\<lparr>entries := take k (entries l)\<rparr>)"
  by (auto simp: log_wf_def)

lemma log_wf_snoc:
  assumes wf: "log_wf l" and e: "e_index e = last_index l + 1" "e_index e \<noteq> 0"
  shows "log_wf (l\<lparr>entries := entries l @ [e]\<rparr>)"
proof -
  have "unat (e_index e) = length (entries l)"
    using e length_entries[OF wf] by (simp add: unat_plus_one)
  then show ?thesis
    using wf by (auto simp: log_wf_def nth_append less_Suc_eq)
qed

lemma truncate_before_eq:
  "log_wf l \<Longrightarrow> truncate_before i l = l\<lparr>entries := take (unat i) (entries l)\<rparr>"
  using truncate_before_take[of l i] by (simp add: truncate_before_def)

lemma log_append_wf: "log_wf l \<Longrightarrow> leaves log_wf (log_append es l)"
proof (induction es arbitrary: l)
  case Nil
  then show ?case by simp
next
  case (Cons e es)
  define l1 where "l1 = (if e_index e \<le> last_index l then truncate_before (e_index e) l else l)"
  have l1: "log_wf l1" if "e_index e \<noteq> 0"
    using Cons.prems that by (simp add: l1_def truncate_before_eq log_wf_take unat_gt_0)
  have "leaves log_wf (log_append es (l1\<lparr>entries := entries l1 @ [e]\<rparr>))"
    if "e_index e \<noteq> 0" "e_index e = last_index l1 + 1"
    using Cons.IH log_wf_snoc[OF l1] that by blast
  with l1 show ?case
    using Cons by (auto simp: l1_def[symmetric] Let_def log_wfD(1))
qed

lemma log_append_cursors:
  "left_state (log_append es l) = Some l' \<Longrightarrow> committed l' = committed l \<and> applied l' = applied l"
proof (induction es arbitrary: l)
  case Nil
  then show ?case by simp
next
  case (Cons e es)
  then show ?case
    by (fastforce simp: Let_def truncate_before_def split: if_splits)
qed

lemma log_append_conflict:
  "e_index e \<noteq> 0 \<Longrightarrow> \<not> (e_index e \<le> last_index l \<and> log_term l (e_index e) = Some (e_term e)) \<Longrightarrow>
   (if e_index e \<le> last_index l then truncate_before (e_index e) l else l) = l1 \<Longrightarrow>
   log_append (e # es) l =
     (if entries l1 = [] then Panic
      else if e_index e \<noteq> last_index l1 + 1 then Failed NonContiguousAppend l1
      else log_append es (l1\<lparr>entries := entries l1 @ [e]\<rparr>))"
  by (simp only: log_append.simps Let_def if_False)

subsection \<open>What append computes: the reference merge\<close>

text \<open>
  \<open>batch_at k es\<close>: the entries of a batch carry the indices \<open>k, k+1, \<dots>\<close>, as the ones a leader
  sends do. \<open>merge_at k es old\<close> is what the protocol asks of a follower: keep its log while the
  batch agrees with it, and at the first entry of another term (or past the end) drop the rest
  and take the rest of the batch.
\<close>

definition batch_at :: "nat \<Rightarrow> entry list \<Rightarrow> bool" where
  "batch_at k es \<longleftrightarrow> (\<forall>j < length es. unat (e_index (es ! j)) = k + j)"

fun merge_at :: "nat \<Rightarrow> entry list \<Rightarrow> entry list \<Rightarrow> entry list" where
  "merge_at k [] old = old"
| "merge_at k (e # es) old =
     (if k < length old \<and> e_term (old ! k) = e_term e then merge_at (Suc k) es old
      else take k old @ e # es)"

lemma batch_at_Nil [simp]: "batch_at k []"
  by (simp add: batch_at_def)

lemma batch_at_Cons [simp]: "batch_at k (e # es) \<longleftrightarrow> unat (e_index e) = k \<and> batch_at (Suc k) es"
  by (auto simp: batch_at_def nth_Cons split: nat.splits)

lemma batch_at_append: "batch_at k (xs @ ys) \<longleftrightarrow> batch_at k xs \<and> batch_at (k + length xs) ys"
  by (induction xs arbitrary: k) auto

lemma batch_at_drop: "log_wf l \<Longrightarrow> batch_at k (drop k (entries l))"
  by (auto simp: batch_at_def log_wfD)

lemma log_append_fresh:
  assumes "log_wf l" "batch_at (length (entries l)) es"
  shows "log_append es l = Done (l\<lparr>entries := entries l @ es\<rparr>)"
  using assms
proof (induction es arbitrary: l)
  case Nil
  then show ?case by simp
next
  case (Cons e es)
  have idx: "unat (e_index e) = length (entries l)" and rest: "batch_at (Suc (length (entries l))) es"
    using Cons.prems by auto
  have beyond: "\<not> e_index e \<le> last_index l"
    using idx length_entries[OF Cons.prems(1)] by (simp add: word_le_unat)
  have pos: "e_index e \<noteq> 0"
    using idx log_wfD(1)[OF Cons.prems(1)] by auto
  have "unat (last_index l) + 1 < 2 ^ 64"
    using idx length_entries[OF Cons.prems(1)] unsigned_less[where ?'a=nat, of "e_index e"] by simp
  then have next_idx: "e_index e = last_index l + 1"
    using idx length_entries[OF Cons.prems(1)] by (simp add: word_eq_unat unat_word_ariths)
  have "log_append es (l\<lparr>entries := entries l @ [e]\<rparr>) = Done (l\<lparr>entries := (entries l @ [e]) @ es\<rparr>)"
    using Cons.IH[OF log_wf_snoc[OF Cons.prems(1) next_idx pos]] rest by simp
  then show ?case
    using pos beyond next_idx log_wfD(1)[OF Cons.prems(1)] by simp
qed

lemma log_append_merge:
  assumes "log_wf l" "batch_at k es" "0 < k" "k \<le> length (entries l)"
  shows "log_append es l = Done (l\<lparr>entries := merge_at k es (entries l)\<rparr>)"
  using assms
proof (induction es arbitrary: k)
  case Nil
  then show ?case by simp
next
  case (Cons e es)
  have idx: "unat (e_index e) = k"
    using Cons.prems by simp
  have le: "e_index e \<le> last_index l \<longleftrightarrow> k < length (entries l)"
    using idx length_entries[OF Cons.prems(1)] by (auto simp: word_le_unat)
  show ?case
  proof (cases "k < length (entries l) \<and> e_term (entries l ! k) = e_term e")
    case True
    then have "log_append (e # es) l = log_append es l"
      using idx le Cons.prems by (simp add: log_term_nth word_eq_unat)
    then show ?thesis
      using Cons.IH[of "Suc k"] Cons.prems True by simp
  next
    case False
    let ?l1 = "l\<lparr>entries := take k (entries l)\<rparr>"
    have wf1: "log_wf ?l1"
      using Cons.prems by (simp add: log_wf_take)
    have len1: "length (entries ?l1) = k"
      using Cons.prems by simp
    have l1: "(if e_index e \<le> last_index l then truncate_before (e_index e) l else l) = ?l1"
      using idx le Cons.prems by (auto simp: truncate_before_eq)
    have nz: "e_index e \<noteq> 0"
      using idx Cons.prems(3) by auto
    have conflict: "\<not> (e_index e \<le> last_index l \<and> log_term l (e_index e) = Some (e_term e))"
      using False idx le Cons.prems(1) by (auto simp: log_term_nth)
    have beyond: "\<not> e_index e \<le> last_index ?l1"
      using idx length_entries[OF wf1] len1 by (simp add: word_le_unat)
    have "log_append (e # es) l = log_append (e # es) ?l1"
      using log_append_conflict[OF nz conflict l1] log_append_conflict[OF nz, of ?l1 ?l1] beyond
      by simp
    also have "\<dots> = Done (?l1\<lparr>entries := entries ?l1 @ e # es\<rparr>)"
      using log_append_fresh[OF wf1, of "e # es"] Cons.prems len1 by simp
    finally show ?thesis
      using False by (auto simp del: log_append.simps)
  qed
qed

text \<open>Facts about the merge that the protocol relies on.\<close>

lemma merge_at_prefix: "k \<le> length old \<Longrightarrow> j \<le> k \<Longrightarrow> take j (merge_at k es old) = take j old"
  by (induction k es old rule: merge_at.induct) (auto simp: min_def)

lemma length_merge_at: "k \<le> length old \<Longrightarrow> k + length es \<le> length (merge_at k es old)"
  by (induction k es old rule: merge_at.induct) auto

lemma merge_at_terms:
  "k \<le> length old \<Longrightarrow> j < length es \<Longrightarrow> e_term (merge_at k es old ! (k + j)) = e_term (es ! j)"
proof (induction k es old arbitrary: j rule: merge_at.induct)
  case (1 k old)
  then show ?case by simp
next
  case (2 k e es old)
  show ?case
  proof (cases "k < length old \<and> e_term (old ! k) = e_term e")
    case True
    have "merge_at (Suc k) es old ! k = old ! k"
      using merge_at_prefix[of "Suc k" old "Suc k" es] True
      by (metis Suc_leI lessI nth_take order_refl)
    then show ?thesis
      using 2 True by (cases j) auto
  next
    case False
    then show ?thesis
      using 2 by (cases j) (auto simp: nth_append min_def)
  qed
qed

lemma merge_at_agrees:
  "k + length es \<le> length old \<Longrightarrow> (\<forall>j < length es. e_term (old ! (k + j)) = e_term (es ! j)) \<Longrightarrow>
   merge_at k es old = old"
proof (induction es arbitrary: k)
  case Nil
  then show ?case by simp
next
  case (Cons e es)
  have "e_term (old ! k) = e_term e" "\<forall>j < length es. e_term (old ! (Suc k + j)) = e_term (es ! j)"
    using Cons.prems(2) by force+
  then show ?case
    using Cons by simp
qed

end
