(* ===== verification/Go_Json.thy ===== *)
theory Go_Json
  imports Prelude
begin

section \<open>encoding/json, as far as the program uses it\<close>

text \<open>
  The program stores configuration changes, hard states and log entries, and sends messages, as
  JSON. This theory models the two directions of Go's \<open>encoding/json\<close>: \<open>print_json\<close> is the
  compact text \<open>Marshal\<close> writes for a value, \<open>parse_json\<close> the scanner of \<open>Unmarshal\<close> (white space,
  escapes, nesting, the number grammar), and \<open>decode_fields\<close> how an object is stored into a struct:
  fields are matched ignoring ASCII case, unknown keys are skipped, later keys overwrite earlier
  ones and \<open>null\<close> leaves a scalar alone. Bytes from 0x80 on are copied unchanged (Go replaces
  ill-formed UTF-8 by U+FFFD). Parsing takes fuel; \<open>parse_print\<close> shows the fuel
  \<open>parse_json\<close> passes is enough to read back every printed value.
\<close>

datatype json =
  JNull | JBool bool | JNum bytes | JStr bytes | JArr "json list" | JObj "(bytes \<times> json) list"

subsection \<open>Printing\<close>

fun show_nat :: "nat \<Rightarrow> bytes" where
  "show_nat n = (if n < 10 then [of_nat (48 + n)]
     else show_nat (n div 10) @ [of_nat (48 + n mod 10)])"

declare show_nat.simps [simp del]

definition hex_digit :: "nat \<Rightarrow> byte" where
  "hex_digit n = (if n < 10 then of_nat (48 + n) else of_nat (87 + n))"

definition escape_byte :: "byte \<Rightarrow> bytes" where
  "escape_byte c =
     (if c = 34 \<or> c = 92 then [92, c]
      else if c = 8 then [92, 98] else if c = 12 then [92, 102] else if c = 10 then [92, 110]
      else if c = 13 then [92, 114] else if c = 9 then [92, 116]
      else if c < 32 \<or> c = 60 \<or> c = 62 \<or> c = 38
      then [92, 117, 48, 48, hex_digit (unat c div 16), hex_digit (unat c mod 16)]
      else [c])"

definition print_string :: "bytes \<Rightarrow> bytes" where
  "print_string s = 34 # concat (map escape_byte s) @ [34]"

fun print_json :: "json \<Rightarrow> bytes" and print_elems :: "json list \<Rightarrow> bytes"
  and print_fields :: "(bytes \<times> json) list \<Rightarrow> bytes" where
  "print_json JNull = ascii ''null''"
| "print_json (JBool b) = (if b then ascii ''true'' else ascii ''false'')"
| "print_json (JNum lit) = lit"
| "print_json (JStr s) = print_string s"
| "print_json (JArr xs) = 91 # print_elems xs @ [93]"
| "print_json (JObj fs) = 123 # print_fields fs @ [125]"
| "print_elems [] = []"
| "print_elems (x # xs) = print_json x @ (if xs = [] then [] else 44 # print_elems xs)"
| "print_fields [] = []"
| "print_fields ((k, v) # fs) =
     print_string k @ 58 # print_json v @ (if fs = [] then [] else 44 # print_fields fs)"

subsection \<open>Scanning\<close>

definition is_space :: "byte \<Rightarrow> bool" where
  "is_space c \<longleftrightarrow> c = 32 \<or> c = 9 \<or> c = 10 \<or> c = 13"

definition skip_ws :: "bytes \<Rightarrow> bytes" where
  "skip_ws bs = dropWhile is_space bs"

definition is_digit :: "byte \<Rightarrow> bool" where
  "is_digit c \<longleftrightarrow> 48 \<le> c \<and> c \<le> 57"

definition is_num_char :: "byte \<Rightarrow> bool" where
  "is_num_char c \<longleftrightarrow> is_digit c \<or> c = 43 \<or> c = 45 \<or> c = 46 \<or> c = 69 \<or> c = 101"

fun valid_int :: "bytes \<Rightarrow> bytes option" where
  \<comment> \<open>the integer part of a number; returns what follows it\<close>
  "valid_int [] = None"
| "valid_int (c # r) =
     (if c = 48 then Some r else if is_digit c then Some (dropWhile is_digit r) else None)"

definition valid_digits :: "bytes \<Rightarrow> bytes option" where
  "valid_digits bs = (if bs \<noteq> [] \<and> is_digit (hd bs) then Some (dropWhile is_digit bs) else None)"

definition valid_frac :: "bytes \<Rightarrow> bytes option" where
  "valid_frac bs = (case bs of c # r \<Rightarrow> if c = 46 then valid_digits r else Some bs | [] \<Rightarrow> Some bs)"

definition valid_exp :: "bytes \<Rightarrow> bytes option" where
  "valid_exp bs = (case bs of
     c # r \<Rightarrow> if c = 69 \<or> c = 101
             then valid_digits (case r of d # r' \<Rightarrow> if d = 43 \<or> d = 45 then r' else r | [] \<Rightarrow> r)
             else Some bs
   | [] \<Rightarrow> Some bs)"

definition valid_number :: "bytes \<Rightarrow> bool" where
  "valid_number lit =
     (case valid_int (case lit of c # r \<Rightarrow> if c = 45 then r else lit | [] \<Rightarrow> lit) of
        None \<Rightarrow> False
      | Some r \<Rightarrow> (case valid_frac r of None \<Rightarrow> False | Some r' \<Rightarrow> valid_exp r' = Some []))"

definition hex_value :: "byte \<Rightarrow> nat option" where
  "hex_value c =
     (if is_digit c then Some (unat c - 48)
      else if 97 \<le> c \<and> c \<le> 102 then Some (unat c - 87)
      else if 65 \<le> c \<and> c \<le> 70 then Some (unat c - 55) else None)"

fun hex4 :: "bytes \<Rightarrow> (nat \<times> bytes) option" where
  "hex4 (a # b # c # d # r) =
     (case (hex_value a, hex_value b, hex_value c, hex_value d) of
        (Some x, Some y, Some z, Some w) \<Rightarrow> Some (((x * 16 + y) * 16 + z) * 16 + w, r)
      | _ \<Rightarrow> None)"
| "hex4 _ = None"

definition utf8 :: "nat \<Rightarrow> bytes" where
  "utf8 n =
     (if n < 128 then [of_nat n]
      else if n < 2048 then [of_nat (192 + n div 64), of_nat (128 + n mod 64)]
      else if n < 65536 then [of_nat (224 + n div 4096), of_nat (128 + n div 64 mod 64), of_nat (128 + n mod 64)]
      else [of_nat (240 + n div 262144), of_nat (128 + n div 4096 mod 64),
            of_nat (128 + n div 64 mod 64), of_nat (128 + n mod 64)])"

definition scan_unicode :: "bytes \<Rightarrow> (bytes \<times> bytes) option" where
  \<comment> \<open>after \<open>\u\<close>: a code unit, a surrogate pair, or U+FFFD for a lone surrogate\<close>
  "scan_unicode bs = (case hex4 bs of
     None \<Rightarrow> None
   | Some (n, r) \<Rightarrow>
       if n < 55296 \<or> 57344 \<le> n then Some (utf8 n, r)
       else (case r of
         b # u # r1 \<Rightarrow>
           (if n < 56320 \<and> b = 92 \<and> u = 117 then
              (case hex4 r1 of
                 Some (n2, r2) \<Rightarrow>
                   if 56320 \<le> n2 \<and> n2 < 57344
                   then Some (utf8 (65536 + (n - 55296) * 1024 + (n2 - 56320)), r2)
                   else Some (utf8 65533, r)
               | None \<Rightarrow> Some (utf8 65533, r))
            else Some (utf8 65533, r))
       | _ \<Rightarrow> Some (utf8 65533, r)))"

definition unescape :: "byte \<Rightarrow> byte option" where
  "unescape c =
     (if c = 34 \<or> c = 92 \<or> c = 47 then Some c
      else if c = 98 then Some 8 else if c = 102 then Some 12 else if c = 110 then Some 10
      else if c = 114 then Some 13 else if c = 116 then Some 9 else None)"

fun scan_string :: "nat \<Rightarrow> bytes \<Rightarrow> (bytes \<times> bytes) option" where
  \<comment> \<open>after the opening quote\<close>
  "scan_string 0 bs = None"
| "scan_string (Suc n) [] = None"
| "scan_string (Suc n) (c # r) =
     (if c = 34 then Some ([], r)
      else if c < 32 then None
      else if c \<noteq> 92 then map_option (map_prod (Cons c) id) (scan_string n r)
      else (case r of
         [] \<Rightarrow> None
       | e # r1 \<Rightarrow>
           if e = 117 then
             (case scan_unicode r1 of None \<Rightarrow> None
              | Some (u, r2) \<Rightarrow> map_option (map_prod (append u) id) (scan_string n r2))
           else
             (case unescape e of None \<Rightarrow> None
              | Some d \<Rightarrow> map_option (map_prod (Cons d) id) (scan_string n r1))))"

definition scan_literal :: "bytes \<Rightarrow> json \<Rightarrow> bytes \<Rightarrow> (json \<times> bytes) option" where
  "scan_literal lit v bs =
     (if take (length lit) bs = lit then Some (v, drop (length lit) bs) else None)"

definition scan_number :: "bytes \<Rightarrow> (json \<times> bytes) option" where
  "scan_number bs =
     (let lit = takeWhile is_num_char bs
      in if valid_number lit then Some (JNum lit, dropWhile is_num_char bs) else None)"

fun parse_value :: "nat \<Rightarrow> bytes \<Rightarrow> (json \<times> bytes) option"
  and parse_elems :: "nat \<Rightarrow> bytes \<Rightarrow> (json list \<times> bytes) option"
  and parse_fields :: "nat \<Rightarrow> bytes \<Rightarrow> ((bytes \<times> json) list \<times> bytes) option" where
  "parse_value 0 bs = None"
| "parse_value (Suc n) bs =
     (case skip_ws bs of
        [] \<Rightarrow> None
      | c # r \<Rightarrow>
          if c = 123 then
            (case skip_ws r of
               d # r' \<Rightarrow> if d = 125 then Some (JObj [], r')
                         else map_option (map_prod JObj id) (parse_fields n (d # r'))
             | [] \<Rightarrow> None)
          else if c = 91 then
            (case skip_ws r of
               d # r' \<Rightarrow> if d = 93 then Some (JArr [], r')
                         else map_option (map_prod JArr id) (parse_elems n (d # r'))
             | [] \<Rightarrow> None)
          else if c = 34 then map_option (map_prod JStr id) (scan_string (Suc (length r)) r)
          else if c = 110 then scan_literal (ascii ''null'') JNull (c # r)
          else if c = 116 then scan_literal (ascii ''true'') (JBool True) (c # r)
          else if c = 102 then scan_literal (ascii ''false'') (JBool False) (c # r)
          else scan_number (c # r))"
| "parse_elems 0 bs = None"
| "parse_elems (Suc n) bs =
     (case parse_value n bs of
        None \<Rightarrow> None
      | Some (v, r) \<Rightarrow>
          (case skip_ws r of
             d # r' \<Rightarrow> if d = 93 then Some ([v], r')
                       else if d = 44 then map_option (map_prod (Cons v) id) (parse_elems n r')
                       else None
           | [] \<Rightarrow> None))"
| "parse_fields 0 bs = None"
| "parse_fields (Suc n) bs =
     (case skip_ws bs of
        [] \<Rightarrow> None
      | q # r0 \<Rightarrow>
          if q \<noteq> 34 then None
          else (case scan_string (Suc (length r0)) r0 of
             None \<Rightarrow> None
           | Some (k, r1) \<Rightarrow>
               (case skip_ws r1 of
                  d # r2 \<Rightarrow>
                    if d \<noteq> 58 then None
                    else (case parse_value n r2 of
                       None \<Rightarrow> None
                     | Some (v, r3) \<Rightarrow>
                         (case skip_ws r3 of
                            e # r4 \<Rightarrow> if e = 125 then Some ([(k, v)], r4)
                                      else if e = 44
                                      then map_option (map_prod (Cons (k, v)) id) (parse_fields n r4)
                                      else None
                          | [] \<Rightarrow> None))
                | [] \<Rightarrow> None)))"

definition parse_json :: "bytes \<Rightarrow> json option" where
  "parse_json bs = (case parse_value (2 * length bs + 2) bs of
     None \<Rightarrow> None
   | Some (v, r) \<Rightarrow> if skip_ws r = [] then Some v else None)"

subsection \<open>Storing values into Go variables\<close>

definition read_nat :: "bytes \<Rightarrow> nat" where
  "read_nat lit = foldl (\<lambda>a d. 10 * a + (unat d - 48)) 0 lit"

fun decode_uint :: "json \<Rightarrow> u64 \<Rightarrow> u64 option" where
  \<comment> \<open>into a \<open>uint64\<close>: \<open>strconv.ParseUint\<close> on the literal\<close>
  "decode_uint JNull old = Some old"
| "decode_uint (JNum lit) old =
     (if list_all is_digit lit \<and> read_nat lit < 2 ^ 64 then Some (of_nat (read_nat lit)) else None)"
| "decode_uint _ old = None"

fun decode_bool :: "json \<Rightarrow> bool \<Rightarrow> bool option" where
  "decode_bool JNull old = Some old"
| "decode_bool (JBool b) old = Some b"
| "decode_bool _ old = None"

fun decode_list :: "(json \<Rightarrow> 'a option) \<Rightarrow> json list \<Rightarrow> 'a list option" where
  "decode_list f [] = Some []"
| "decode_list f (x # xs) =
     (case f x of None \<Rightarrow> None | Some y \<Rightarrow> map_option (Cons y) (decode_list f xs))"

fun decode_slice :: "(json \<Rightarrow> 'a option) \<Rightarrow> json \<Rightarrow> 'a list option option" where
  \<comment> \<open>into a slice: a nil slice is \<open>None\<close> inside\<close>
  "decode_slice f JNull = Some None"
| "decode_slice f (JArr xs) = map_option Some (decode_list f xs)"
| "decode_slice f _ = None"

definition fold_case :: "byte \<Rightarrow> byte" where
  "fold_case c = (if 65 \<le> c \<and> c \<le> 90 then c + 32 else c)"

definition key_is :: "string \<Rightarrow> bytes \<Rightarrow> bool" where
  "key_is name k \<longleftrightarrow> map fold_case k = map fold_case (ascii name)"

fun decode_fields :: "(bytes \<Rightarrow> json \<Rightarrow> 's \<Rightarrow> 's option) \<Rightarrow> (bytes \<times> json) list \<Rightarrow> 's \<Rightarrow> 's option" where
  "decode_fields set_field [] s = Some s"
| "decode_fields set_field ((k, v) # fs) s =
     (case set_field k v s of None \<Rightarrow> None | Some s' \<Rightarrow> decode_fields set_field fs s')"

fun decode_struct :: "(bytes \<Rightarrow> json \<Rightarrow> 's \<Rightarrow> 's option) \<Rightarrow> json \<Rightarrow> 's \<Rightarrow> 's option" where
  "decode_struct set_field JNull s = Some s"
| "decode_struct set_field (JObj fs) s = decode_fields set_field fs s"
| "decode_struct set_field _ s = None"

definition json_uint :: "u64 \<Rightarrow> json" where
  "json_uint n = JNum (show_nat (unat n))"

definition json_slice :: "('a \<Rightarrow> json) \<Rightarrow> 'a list option \<Rightarrow> json" where
  "json_slice f xs = (case xs of None \<Rightarrow> JNull | Some ys \<Rightarrow> JArr (map f ys))"

subsection \<open>Decimal literals\<close>

lemma show_nat_digits: "list_all is_digit (show_nat n)"
proof (induction n rule: show_nat.induct)
  case (1 n)
  have digit: "is_digit (of_nat (48 + m))" if "m < 10" for m
  proof -
    have "m \<in> {0..<10}" using that by simp
    then have "m \<in> set [0, 1, 2, 3, 4, 5, 6, 7, 8, 9]" by auto
    then show ?thesis by (auto simp: is_digit_def)
  qed
  show ?case
    using 1 digit[of n] digit[of "n mod 10"] by (subst show_nat.simps) (auto simp del: of_nat_add)
qed

lemma unat_digit: "m < 10 \<Longrightarrow> unat (of_nat (48 + m) :: byte) = 48 + m"
  by (simp add: unat_of_nat del: of_nat_add)

lemma read_nat_snoc: "read_nat (ds @ [d]) = 10 * read_nat ds + (unat d - 48)"
  by (simp add: read_nat_def)

lemma read_show_nat [simp]: "read_nat (show_nat n) = n"
proof (induction n rule: show_nat.induct)
  case (1 n)
  show ?case
  proof (cases "n < 10")
    case True
    then show ?thesis
      by (subst show_nat.simps) (simp add: read_nat_def unat_digit del: of_nat_add)
  next
    case False
    then have "read_nat (show_nat n) = 10 * (n div 10) + n mod 10"
      using 1 by (subst show_nat.simps) (simp add: read_nat_snoc unat_digit del: of_nat_add)
    then show ?thesis by simp
  qed
qed

lemma show_nat_neq_Nil [simp]: "show_nat n \<noteq> []"
  by (subst show_nat.simps) simp

lemma show_nat_hd: "0 < n \<Longrightarrow> hd (show_nat n) \<noteq> 48"
proof (induction n rule: show_nat.induct)
  case (1 n)
  show ?case
  proof (cases "n < 10")
    case True
    then have "unat (hd (show_nat n)) = 48 + n"
      by (subst show_nat.simps) (simp add: unat_digit del: of_nat_add)
    then show ?thesis using 1 by auto
  next
    case False
    then show ?thesis
      using 1 by (subst show_nat.simps) (simp add: hd_append)
  qed
qed

lemma dropWhile_all: "list_all P xs \<Longrightarrow> dropWhile P xs = []"
  by (induction xs) auto

lemma valid_number_show_nat [simp]: "valid_number (show_nat n)"
proof (cases "n = 0")
  case True
  then show ?thesis
    by (simp add: show_nat.simps valid_number_def valid_frac_def valid_exp_def)
next
  case False
  obtain c r where cr: "show_nat n = c # r"
    by (cases "show_nat n") auto
  then have "c \<noteq> 48" "is_digit c" "list_all is_digit r"
    using show_nat_hd[of n] show_nat_digits[of n] False by auto
  moreover have "c \<noteq> 45"
    using \<open>is_digit c\<close> by (auto simp: is_digit_def)
  ultimately show ?thesis
    using cr by (simp add: valid_number_def valid_frac_def valid_exp_def dropWhile_all)
qed

subsection \<open>Scanning reads back what was printed\<close>

lemma hex_value_digit: "n < 16 \<Longrightarrow> hex_value (hex_digit n) = Some n"
proof -
  assume "n < 16"
  moreover have "list_all (\<lambda>k. hex_value (hex_digit k) = Some k) [0..<16]"
    by code_simp
  ultimately show ?thesis
    by (simp add: list_all_iff)
qed

lemma hex4_byte:
  "hex4 (48 # 48 # hex_digit (unat c div 16) # hex_digit (unat c mod 16) # r) = Some (unat (c :: byte), r)"
proof -
  have "unat c < 256" using unsigned_less[where ?'a=nat, of c] by simp
  moreover have "hex_value 48 = Some 0" by (simp add: hex_value_def is_digit_def)
  ultimately show ?thesis
    by (simp add: hex_value_digit)
qed

declare hex4.simps [simp del]

lemma scan_unicode_byte:
  "unat (c :: byte) < 128 \<Longrightarrow>
   scan_unicode (48 # 48 # hex_digit (unat c div 16) # hex_digit (unat c mod 16) # r) = Some ([c], r)"
  by (simp add: scan_unicode_def hex4_byte utf8_def)

lemma scan_escaped:
  "scan_string (Suc n) (escape_byte c @ r) = map_option (map_prod (Cons c) id) (scan_string n r)"
proof -
  consider "c = 34 \<or> c = 92" | "c = 8 \<or> c = 12 \<or> c = 10 \<or> c = 13 \<or> c = 9"
    | "c \<noteq> 34" "c \<noteq> 92" "c \<notin> {8, 12, 10, 13, 9}" "c < 32 \<or> c = 60 \<or> c = 62 \<or> c = 38"
    | "c \<noteq> 34" "c \<noteq> 92" "c \<notin> {8, 12, 10, 13, 9}" "\<not> (c < 32 \<or> c = 60 \<or> c = 62 \<or> c = 38)"
    by blast
  then show ?thesis
  proof cases
    case 3
    then have "unat c < 128"
      by (auto simp: word_less_unat)
    moreover have "escape_byte c = [92, 117, 48, 48, hex_digit (unat c div 16), hex_digit (unat c mod 16)]"
      using 3 by (simp add: escape_byte_def)
    ultimately show ?thesis
      by (cases "scan_string n r") (auto simp: scan_unicode_byte)
  next
    case 4
    then show ?thesis by (simp add: escape_byte_def)
  qed (auto simp: escape_byte_def unescape_def)
qed

lemma scan_print_string:
  "length s < n \<Longrightarrow> scan_string n (concat (map escape_byte s) @ 34 # r) = Some (s, r)"
proof (induction s arbitrary: n)
  case Nil
  then show ?case by (cases n) auto
next
  case (Cons c s)
  then show ?case by (cases n) (auto simp: scan_escaped)
qed

lemma length_escaped: "length s \<le> length (concat (map escape_byte s))"
proof (induction s)
  case Nil
  then show ?case by simp
next
  case (Cons c s)
  have "1 \<le> length (escape_byte c)" by (simp add: escape_byte_def)
  with Cons show ?case by simp
qed

lemma scan_print_string_fuel:
  "length (concat (map escape_byte s)) < n \<Longrightarrow>
   scan_string n (concat (map escape_byte s) @ 34 # r) = Some (s, r)"
  by (rule scan_print_string) (use length_escaped[of s] in simp)

definition ends_value :: "bytes \<Rightarrow> bool" where
  "ends_value r \<longleftrightarrow> r = [] \<or> \<not> is_num_char (hd r)"

lemma scan_number_print:
  assumes "list_all is_num_char lit" "valid_number lit" "ends_value r"
  shows "scan_number (lit @ r) = Some (JNum lit, r)"
proof -
  have "takeWhile is_num_char (lit @ r) = lit" "dropWhile is_num_char (lit @ r) = r"
    using assms by (cases r; auto simp: ends_value_def list_all_iff takeWhile_append dropWhile_append)+
  then show ?thesis
    using assms(2) by (simp add: scan_number_def)
qed

text \<open>The values the program prints: numbers are literals of the JSON grammar.\<close>

fun json_ok :: "json \<Rightarrow> bool" where
  "json_ok (JNum lit) \<longleftrightarrow> lit \<noteq> [] \<and> list_all is_num_char lit \<and> valid_number lit"
| "json_ok (JArr xs) \<longleftrightarrow> (\<forall>x \<in> set xs. json_ok x)"
| "json_ok (JObj fs) \<longleftrightarrow> (\<forall>x \<in> snd ` set fs. json_ok x)"
| "json_ok _ \<longleftrightarrow> True"

fun cost :: "json \<Rightarrow> nat" and cost_elems :: "json list \<Rightarrow> nat"
  and cost_fields :: "(bytes \<times> json) list \<Rightarrow> nat" where
  "cost (JArr xs) = Suc (cost_elems xs)"
| "cost (JObj fs) = Suc (cost_fields fs)"
| "cost _ = 1"
| "cost_elems [] = 0"
| "cost_elems (x # xs) = Suc (cost x + cost_elems xs)"
| "cost_fields [] = 0"
| "cost_fields ((k, v) # fs) = Suc (cost v + cost_fields fs)"

lemma ends_value_simps [simp]: "ends_value (44 # r)" "ends_value (93 # r)" "ends_value (125 # r)" "ends_value []"
  by (simp_all add: ends_value_def is_num_char_def is_digit_def)

lemma skip_ws_simps [simp]:
  "skip_ws [] = []" "\<not> is_space c \<Longrightarrow> skip_ws (c # r) = c # r"
  by (simp_all add: skip_ws_def)

lemma is_space_simps [simp]:
  "\<not> is_space 34" "\<not> is_space 44" "\<not> is_space 58" "\<not> is_space 91" "\<not> is_space 93" "\<not> is_space 123"
  "\<not> is_space 125" "\<not> is_space 110" "\<not> is_space 116" "\<not> is_space 102"
  by (simp_all add: is_space_def)

text \<open>The first byte of a printed value decides how it is scanned, and is never a bracket's end.\<close>

lemma num_char_cases:
  assumes "is_num_char c"
  shows "\<not> is_space c" "c \<noteq> 123" "c \<noteq> 125" "c \<noteq> 91" "c \<noteq> 93" "c \<noteq> 34" "c \<noteq> 110" "c \<noteq> 116" "c \<noteq> 102"
  using assms by (auto simp: is_num_char_def is_digit_def is_space_def)

lemma print_json_start:
  "json_ok j \<Longrightarrow> \<exists>c r. print_json j = c # r \<and> \<not> is_space c \<and> c \<noteq> 93"
proof (cases j)
  case (JNum lit)
  assume "json_ok j"
  with JNum obtain c r where "lit = c # r" "is_num_char c"
    by (cases lit) auto
  then show ?thesis using JNum num_char_cases[of c] by auto
qed (auto simp: ascii_def print_string_def)

lemma parse_literals:
  "parse_value (Suc n) (ascii ''null'' @ r) = Some (JNull, r)"
  "parse_value (Suc n) (ascii ''true'' @ r) = Some (JBool True, r)"
  "parse_value (Suc n) (ascii ''false'' @ r) = Some (JBool False, r)"
  by (simp_all add: ascii_def scan_literal_def)

lemma parse_number:
  assumes "json_ok (JNum lit)" "ends_value r"
  shows "parse_value (Suc n) (lit @ r) = Some (JNum lit, r)"
proof -
  obtain c lit' where lit: "lit = c # lit'" and c: "is_num_char c"
    using assms(1) by (cases lit) auto
  have "scan_number (c # lit' @ r) = Some (JNum (c # lit'), r)"
    using scan_number_print[of lit r] assms lit by simp
  then show ?thesis
    using lit num_char_cases[OF c] by simp
qed

lemma parse_string: "parse_value (Suc n) (print_string s @ r) = Some (JStr s, r)"
  by (simp add: print_string_def scan_print_string_fuel)

lemma parse_print_all:
  "json_ok j \<Longrightarrow> cost j \<le> n \<Longrightarrow> ends_value r \<Longrightarrow> parse_value n (print_json j @ r) = Some (j, r)"
  "\<forall>x \<in> set xs. json_ok x \<Longrightarrow> xs \<noteq> [] \<Longrightarrow> cost_elems xs \<le> n \<Longrightarrow>
     parse_elems n (print_elems xs @ 93 # r) = Some (xs, r)"
  "\<forall>x \<in> snd ` set fs. json_ok x \<Longrightarrow> fs \<noteq> [] \<Longrightarrow> cost_fields fs \<le> n \<Longrightarrow>
     parse_fields n (print_fields fs @ 125 # r) = Some (fs, r)"
proof (induction j and xs and fs arbitrary: n r and n r and n r
    rule: print_json_print_elems_print_fields.induct)
  case 1
  then show ?case by (cases n) (simp_all only: print_json.simps parse_literals, simp_all)
next
  case (2 b)
  then show ?case by (cases n; cases b) (simp_all only: print_json.simps parse_literals if_True if_False, simp_all)
next
  case (3 lit)
  then obtain m where "n = Suc m" by (cases n) auto
  with 3 show ?case using parse_number[of lit r m] by simp
next
  case (4 s)
  then obtain m where "n = Suc m" by (cases n) auto
  then show ?case using parse_string[of m s r] by simp
next
  case (5 xs)
  then obtain m where n: "n = Suc m" by (cases n) auto
  show ?case
  proof (cases xs)
    case Nil
    then show ?thesis using n by simp
  next
    case (Cons x xs')
    obtain c t where ct: "print_json x = c # t" "\<not> is_space c" "c \<noteq> 93"
      using print_json_start[of x] 5(2) Cons by auto
    have "parse_elems m (print_elems xs @ 93 # r) = Some (xs, r)"
      using 5 n Cons by simp
    then show ?thesis
      using n Cons ct by simp
  qed
next
  case (6 fs)
  then obtain m where n: "n = Suc m" by (cases n) auto
  show ?case
  proof (cases fs)
    case Nil
    then show ?thesis using n by simp
  next
    case (Cons f fs')
    have "parse_fields m (print_fields fs @ 125 # r) = Some (fs, r)"
      using 6 n Cons by simp
    then show ?thesis
      using n Cons by (cases f) (simp add: print_string_def)
  qed
next
  case 7
  then show ?case by simp
next
  case (8 x xs)
  then obtain m where n: "n = Suc m" by (cases n) auto
  have x: "parse_value m (print_json x @ r') = Some (x, r')" if "ends_value r'" for r'
    using 8(1) 8(3) 8(5) n that by simp
  show ?case
    using n 8(2)[of m r] 8(3,5) x[of "93 # r"] x[of "44 # print_elems xs @ 93 # r"]
    by (cases "xs = []") simp_all
next
  case 9
  then show ?case by simp
next
  case (10 k v fs)
  then obtain m where n: "n = Suc m" by (cases n) auto
  have v: "parse_value m (print_json v @ r') = Some (v, r')" if "ends_value r'" for r'
    using 10(1) 10(3) 10(5) n that by simp
  show ?case
    using n 10(2)[of m r] 10(3,5) v[of "125 # r"] v[of "44 # print_fields fs @ 125 # r"]
    by (cases "fs = []") (simp_all add: print_string_def scan_print_string_fuel)
qed

lemma cost_bound:
  "json_ok j \<Longrightarrow> Suc (cost j) \<le> 2 * length (print_json j)"
  "\<forall>x \<in> set xs. json_ok x \<Longrightarrow> cost_elems xs \<le> 2 * length (print_elems xs)"
  "\<forall>x \<in> snd ` set fs. json_ok x \<Longrightarrow> cost_fields fs \<le> 2 * length (print_fields fs)"
proof (induction j and xs and fs rule: print_json_print_elems_print_fields.induct)
  case (3 lit)
  then show ?case by (cases lit) auto
qed (auto simp: ascii_def print_string_def)

lemma parse_print: "json_ok j \<Longrightarrow> parse_json (print_json j) = Some j"
  using parse_print_all(1)[of j "2 * length (print_json j) + 2" "[]"] cost_bound(1)[of j]
  by (simp add: parse_json_def)

subsection \<open>Go values\<close>

lemma json_ok_uint [simp]: "json_ok (json_uint n)"
  using show_nat_digits[of "unat n"] by (auto simp: json_uint_def is_num_char_def list_all_iff)

lemma decode_json_uint [simp]: "decode_uint (json_uint n) old = Some n"
  using unsigned_less[where ?'a=nat, of n] by (simp add: json_uint_def show_nat_digits)

lemma decode_list_map: "(\<And>x. x \<in> set xs \<Longrightarrow> f (g x) = Some x) \<Longrightarrow> decode_list f (map g xs) = Some xs"
  by (induction xs) auto

lemma decode_json_slice:
  "(\<And>x. f (g x) = Some x) \<Longrightarrow> decode_slice f (json_slice g xs) = Some xs"
  by (cases xs) (auto simp: json_slice_def decode_list_map)

lemma json_ok_slice: "(\<And>x. json_ok (g x)) \<Longrightarrow> json_ok (json_slice g xs)"
  by (cases xs) (auto simp: json_slice_def)

subsection \<open>The contract of a codec\<close>

text \<open>
  What the callers of \<open>Marshal\<close> and \<open>Unmarshal\<close> rely on. Every pair of encoder and decoder of the
  program is an interpretation.
\<close>

locale codec =
  fixes encode :: "'a \<Rightarrow> bytes" and decode :: "bytes \<Rightarrow> 'a option"
  assumes decode_encode: "decode (encode x) = Some x"
begin

lemma encode_inj: "encode x = encode y \<Longrightarrow> x = y"
  by (metis decode_encode option.inject)

end

end
