(* ===== verification/Membership.thy ===== *)
theory Membership
  imports Raft_Types
begin

section \<open>internal/raft/membership.go: voters and quorums\<close>

text \<open>
  \<open>Membership\<close> holds the voters that decide elections and commits; while \<open>Joint\<close>, a majority of
  both sets is needed. The contract the protocol relies on is the locale \<open>quorum_system\<close>: a
  larger set of votes is still a quorum and any two quorums share a voter. The interpretations
  below discharge it for \<open>HasQuorum\<close> of every membership, and \<open>quorum_handover\<close> (quorums of
  consecutive configurations share a voter too) for the two steps of a joint-consensus change.
\<close>

record membership =
  ms_old :: "node_id set"
  ms_new :: "node_id set"
  ms_joint :: bool

definition voters :: "membership \<Rightarrow> node_id set" where
  "voters m = ms_old m \<union> (if ms_joint m then ms_new m else {})"

definition majority :: "node_id set \<Rightarrow> node_id set \<Rightarrow> bool" where
  "majority S votes \<longleftrightarrow> card {id \<in> S. id \<in> votes} \<ge> card S div 2 + 1"

definition has_quorum :: "membership \<Rightarrow> node_id set \<Rightarrow> bool" where
  "has_quorum m votes =
     (if \<not> majority (ms_old m) votes then False
      else \<not> ms_joint m \<or> majority (ms_new m) votes)"

subsection \<open>The contract of a quorum rule\<close>

locale quorum_system =
  fixes universe :: "node_id set" and quorum :: "node_id set \<Rightarrow> bool"
  assumes quorum_mono: "quorum V \<Longrightarrow> V \<inter> universe \<subseteq> W \<Longrightarrow> quorum W"
    and quorum_overlap: "quorum V \<Longrightarrow> quorum W \<Longrightarrow> \<exists>v \<in> universe. v \<in> V \<and> v \<in> W"
begin

lemma quorum_nonempty: "quorum V \<Longrightarrow> V \<inter> universe \<noteq> {}"
  using quorum_overlap[of V V] by blast

lemma not_quorum_empty: "\<not> quorum {}"
  using quorum_nonempty[of "{}"] by blast

lemma quorum_universe_only: "quorum V \<longleftrightarrow> quorum (V \<inter> universe)"
  using quorum_mono[of V "V \<inter> universe"] quorum_mono[of "V \<inter> universe" V] by blast

lemma no_disjoint_quorums: "quorum V \<Longrightarrow> V \<inter> W \<inter> universe = {} \<Longrightarrow> \<not> quorum W"
  using quorum_overlap[of V W] by blast

text \<open>If every voter backs at most one candidate, at most one candidate has a quorum.\<close>

lemma single_vote_single_winner:
  assumes "quorum {v. backs v a}" "quorum {v. backs v b}"
    and "\<And>v. v \<in> universe \<Longrightarrow> backs v a \<Longrightarrow> backs v b \<Longrightarrow> a = b"
  shows "a = b"
  using quorum_overlap[OF assms(1,2)] assms(3) by blast

end

locale quorum_handover =
  before: quorum_system U q + after: quorum_system U' q' for U q U' q' +
  assumes handover: "q V \<Longrightarrow> q' W \<Longrightarrow> \<exists>v. v \<in> V \<and> v \<in> W"
begin

lemma handover_blocks: "q V \<Longrightarrow> V \<inter> W = {} \<Longrightarrow> \<not> q' W"
  using handover by blast

end

subsection \<open>Majorities\<close>

lemma finite_ids [simp]: "finite (S :: node_id set)"
  by simp

lemma majority_mono: "majority S V \<Longrightarrow> V \<inter> S \<subseteq> W \<Longrightarrow> majority S W"
proof -
  assume "majority S V" "V \<inter> S \<subseteq> W"
  then have "card {id \<in> S. id \<in> V} \<le> card {id \<in> S. id \<in> W}"
    by (intro card_mono) auto
  with \<open>majority S V\<close> show ?thesis by (simp add: majority_def)
qed

lemma majority_overlap: "majority S V \<Longrightarrow> majority S W \<Longrightarrow> \<exists>v \<in> S. v \<in> V \<and> v \<in> W"
proof (rule ccontr)
  assume maj: "majority S V" "majority S W" and no: "\<not> (\<exists>v \<in> S. v \<in> V \<and> v \<in> W)"
  have "card {id \<in> S. id \<in> V} + card {id \<in> S. id \<in> W} = card ({id \<in> S. id \<in> V} \<union> {id \<in> S. id \<in> W})"
    by (rule card_Un_disjoint[symmetric]) (use no in auto)
  also have "\<dots> \<le> card S"
    by (intro card_mono) auto
  finally show False
    using maj by (simp add: majority_def)
qed

lemma majority_empty [simp]: "\<not> majority {} V"
  by (simp add: majority_def)

lemma has_quorum_eq:
  "has_quorum m V \<longleftrightarrow> majority (ms_old m) V \<and> (ms_joint m \<longrightarrow> majority (ms_new m) V)"
  by (simp add: has_quorum_def)

interpretation quorum: quorum_system "voters m" "has_quorum m" for m
proof unfold_locales
  fix V W :: "node_id set"
  assume "has_quorum m V" "V \<inter> voters m \<subseteq> W"
  moreover have "ms_old m \<subseteq> voters m" "ms_joint m \<Longrightarrow> ms_new m \<subseteq> voters m"
    by (auto simp: voters_def)
  ultimately show "has_quorum m W"
    unfolding has_quorum_eq by (meson Int_mono majority_mono order_refl order_trans)
next
  fix V W :: "node_id set"
  assume "has_quorum m V" "has_quorum m W"
  then show "\<exists>v \<in> voters m. v \<in> V \<and> v \<in> W"
    using majority_overlap[of "ms_old m" V W] by (auto simp: has_quorum_eq voters_def)
qed

definition simple_membership :: "node_id set \<Rightarrow> membership" where
  "simple_membership S = \<lparr>ms_old = S, ms_new = {}, ms_joint = False\<rparr>"

definition joint_membership :: "node_id set \<Rightarrow> node_id set \<Rightarrow> membership" where
  "joint_membership S T = \<lparr>ms_old = S, ms_new = T, ms_joint = True\<rparr>"

lemma simple_membership_simps [simp]:
  "ms_old (simple_membership S) = S" "ms_joint (simple_membership S) = False"
  "voters (simple_membership S) = S" "has_quorum (simple_membership S) V = majority S V"
  by (simp_all add: simple_membership_def voters_def has_quorum_def)

lemma joint_membership_simps [simp]:
  "ms_old (joint_membership S T) = S" "ms_new (joint_membership S T) = T"
  "ms_joint (joint_membership S T)" "voters (joint_membership S T) = S \<union> T"
  "has_quorum (joint_membership S T) V = (majority S V \<and> majority T V)"
  by (simp_all add: joint_membership_def voters_def has_quorum_def)

interpretation enter_joint: quorum_handover
  "voters (simple_membership S)" "has_quorum (simple_membership S)"
  "voters (joint_membership S T)" "has_quorum (joint_membership S T)" for S T
  by unfold_locales (auto dest: majority_overlap)

interpretation leave_joint: quorum_handover
  "voters (joint_membership S T)" "has_quorum (joint_membership S T)"
  "voters (simple_membership T)" "has_quorum (simple_membership T)" for S T
  by unfold_locales (auto dest: majority_overlap)

end
