(* ===== verification/Conf_Change.thy ===== *)
theory Conf_Change
  imports Go_Json Membership
begin

section \<open>internal/raft/confchange.go: configuration changes as log entries\<close>

text \<open>
  The entry format of a membership change: a prefix that no application command starts with,
  then the JSON of \<open>confChangeEntry\<close>. Slices are nil (\<open>None\<close>, printed as \<open>null\<close>) or lists.
  \<open>json.Marshal\<close> cannot fail on this struct, so \<open>marshalConfChange\<close>'s error result is never
  taken and the model returns the bytes. The operations of a replica that use the format
  (\<open>recomputeMembership\<close>, \<open>ProposeConfChange\<close>, \<open>proposeLeaveJoint\<close>) are in \<open>Raft_Node\<close>.
\<close>

record conf_change_entry =
  cc_old :: "node_id list option"
  cc_new :: "node_id list option"
  cc_learners :: "node_id list option"
  cc_joint :: bool

definition zero_conf_change :: conf_change_entry where
  "zero_conf_change = \<lparr>cc_old = None, cc_new = None, cc_learners = None, cc_joint = False\<rparr>"

definition conf_change_prefix :: bytes where
  "conf_change_prefix = 0 # ascii ''raft/confchange'' @ [0]"

definition joint_leader_noop :: bytes where
  "joint_leader_noop = 0 # ascii ''raft/joint-leader-noop/v1'' @ [0]"

definition conf_change_json :: "conf_change_entry \<Rightarrow> json" where
  "conf_change_json c = JObj
     [(ascii ''Old'', json_slice json_uint (cc_old c)),
      (ascii ''New'', json_slice json_uint (cc_new c)),
      (ascii ''Learners'', json_slice json_uint (cc_learners c)),
      (ascii ''Joint'', JBool (cc_joint c))]"

definition marshal_conf_change :: "conf_change_entry \<Rightarrow> bytes" where
  "marshal_conf_change c = conf_change_prefix @ print_json (conf_change_json c)"

definition decode_ids :: "json \<Rightarrow> node_id list option option" where
  "decode_ids v = decode_slice (\<lambda>j. decode_uint j 0) v"

definition set_conf_change_field :: "bytes \<Rightarrow> json \<Rightarrow> conf_change_entry \<Rightarrow> conf_change_entry option" where
  "set_conf_change_field k v c =
     (if key_is ''Old'' k then map_option (\<lambda>ids. c\<lparr>cc_old := ids\<rparr>) (decode_ids v)
      else if key_is ''New'' k then map_option (\<lambda>ids. c\<lparr>cc_new := ids\<rparr>) (decode_ids v)
      else if key_is ''Learners'' k then map_option (\<lambda>ids. c\<lparr>cc_learners := ids\<rparr>) (decode_ids v)
      else if key_is ''Joint'' k then map_option (\<lambda>b. c\<lparr>cc_joint := b\<rparr>) (decode_bool v (cc_joint c))
      else Some c)"

definition has_prefix :: "bytes \<Rightarrow> bytes \<Rightarrow> bool" where
  "has_prefix data p \<longleftrightarrow> take (length p) data = p"

definition decode_conf_change :: "bytes \<Rightarrow> conf_change_entry option" where
  "decode_conf_change data =
     (if \<not> has_prefix data conf_change_prefix then None
      else (case parse_json (drop (length conf_change_prefix) data) of
              None \<Rightarrow> None
            | Some j \<Rightarrow> decode_struct set_conf_change_field j zero_conf_change))"

definition is_raft_internal_data :: "bytes \<Rightarrow> bool" where
  "is_raft_internal_data data \<longleftrightarrow> has_prefix data conf_change_prefix \<or> data = joint_leader_noop"

definition id_set :: "node_id list option \<Rightarrow> node_id set" where
  "id_set ids = (case ids of None \<Rightarrow> {} | Some xs \<Rightarrow> set xs)"

definition id_list :: "map_range \<Rightarrow> node_id set \<Rightarrow> node_id list option" where
  \<comment> \<open>ranges over the map, so the order is Go's choice; the slice is not nil\<close>
  "id_list it S = Some (it S)"

definition append_nil :: "'a list \<Rightarrow> 'a list option" where
  \<comment> \<open>\<open>append([]T(nil), xs...)\<close>: nil when there is nothing to append\<close>
  "append_nil xs = (if xs = [] then None else Some xs)"

definition membership_from_conf_change :: "conf_change_entry \<Rightarrow> membership" where
  "membership_from_conf_change c =
     (if \<not> cc_joint c then \<lparr>ms_old = id_set (cc_new c), ms_new = {}, ms_joint = False\<rparr>
      else \<lparr>ms_old = id_set (cc_old c), ms_new = id_set (cc_new c), ms_joint = True\<rparr>)"

subsection \<open>Round trip of the entry format\<close>

lemma conf_change_keys [simp]:
  "key_is ''Old'' (ascii ''Old'')" "\<not> key_is ''Old'' (ascii ''New'')"
  "\<not> key_is ''Old'' (ascii ''Learners'')" "\<not> key_is ''Old'' (ascii ''Joint'')"
  "key_is ''New'' (ascii ''New'')" "\<not> key_is ''New'' (ascii ''Learners'')"
  "\<not> key_is ''New'' (ascii ''Joint'')" "key_is ''Learners'' (ascii ''Learners'')"
  "\<not> key_is ''Learners'' (ascii ''Joint'')" "key_is ''Joint'' (ascii ''Joint'')"
  by (simp_all add: key_is_def ascii_def fold_case_def)

lemma json_ok_conf_change: "json_ok (conf_change_json c)"
  by (simp add: conf_change_json_def json_ok_slice)

lemma decode_ids_json [simp]: "decode_ids (json_slice json_uint ids) = Some ids"
  by (simp add: decode_ids_def decode_json_slice)

lemma decode_struct_conf_change:
  "decode_struct set_conf_change_field (conf_change_json c) zero_conf_change = Some c"
  by (simp add: conf_change_json_def set_conf_change_field_def zero_conf_change_def)

lemma has_prefix_append [simp]: "has_prefix (p @ xs) p"
  by (simp add: has_prefix_def)

lemma decode_marshal_conf_change: "decode_conf_change (marshal_conf_change c) = Some c"
  by (simp add: decode_conf_change_def marshal_conf_change_def parse_print json_ok_conf_change
      decode_struct_conf_change)

interpretation conf_change: codec marshal_conf_change decode_conf_change
  by unfold_locales (rule decode_marshal_conf_change)

text \<open>A configuration change is never taken for application data, and the other way round.\<close>

lemma decode_conf_change_internal: "decode_conf_change data = Some c \<Longrightarrow> is_raft_internal_data data"
  by (auto simp: decode_conf_change_def is_raft_internal_data_def split: if_splits)

lemma conf_change_prefix_hd: "has_prefix data conf_change_prefix \<Longrightarrow> \<exists>r. data = 0 # r"
  by (cases data) (auto simp: has_prefix_def conf_change_prefix_def)

lemma internal_data_starts_with_zero: "is_raft_internal_data data \<Longrightarrow> \<exists>r. data = 0 # r"
  by (auto simp: is_raft_internal_data_def joint_leader_noop_def dest: conf_change_prefix_hd)

lemma marshal_internal: "is_raft_internal_data (marshal_conf_change c)"
  by (simp add: is_raft_internal_data_def marshal_conf_change_def)

lemma noop_not_conf_change: "decode_conf_change joint_leader_noop = None"
  by (simp add: decode_conf_change_def has_prefix_def joint_leader_noop_def conf_change_prefix_def ascii_def)

lemma decode_conf_change_Nil [simp]: "decode_conf_change [] = None"
  by (simp add: decode_conf_change_def has_prefix_def conf_change_prefix_def)

end
