(* ===== verification/Raft_Node.thy ===== *)
theory Raft_Node
  imports Raft_Log Conf_Change
begin

section \<open>internal/raft/node.go, election.go, confchange.go: one replica\<close>

text \<open>
  \<open>node\<close> is a pure state machine: it is ticked, given messages and proposals, and queues messages,
  entries to save and entries to apply in its own state. Each method is a function from the state
  to an outcome. Methods that range over a Go map take the iteration order \<open>it\<close>.
\<close>

record node =
  nd_id :: node_id
  nd_peers :: "node_id list"
  nd_initial_membership :: membership
  nd_membership :: membership
  nd_membership_index :: u64
  nd_role :: role
  nd_term :: u64
  nd_vote :: u64
  nd_leader :: u64
  nd_log :: raft_log
  nd_election_elapsed :: int
  nd_heartbeat_elapsed :: int
  nd_election_tick :: int
  nd_heartbeat_tick :: int
  nd_votes :: "node_id set option"  \<comment> \<open>a nil map is \<open>None\<close>\<close>
  nd_pre_vote :: bool
  nd_next :: "(node_id, u64) mapping"
  nd_match :: "(node_id, u64) mapping"
  nd_msgs :: "message list"
  nd_unstable :: "entry list"
  nd_last_hard :: hard_state

type_synonym node_outcome = "(raft_error, node) outcome"

record ready_work =
  rd_hard_state :: hard_state
  rd_entries :: "entry list"
  rd_committed_entries :: "entry list"
  rd_messages :: "message list"

subsection \<open>Membership of a replica\<close>

fun latest_membership :: "membership \<Rightarrow> u64 \<Rightarrow> entry list \<Rightarrow> membership \<times> u64" where
  "latest_membership m i [] = (m, i)"
| "latest_membership m i (e # es) =
     (case decode_conf_change (e_data e) of
        Some c \<Rightarrow> latest_membership (membership_from_conf_change c) (e_index e) es
      | None \<Rightarrow> latest_membership m i es)"

definition recompute_membership :: "node \<Rightarrow> node" where
  "recompute_membership n =
     (let (m, i) = latest_membership (nd_initial_membership n) 0 (entries (nd_log n))
      in n\<lparr>nd_membership := m, nd_membership_index := i\<rparr>)"

definition is_voter :: "node \<Rightarrow> node_id \<Rightarrow> bool" where
  "is_voter n i \<longleftrightarrow> i \<in> voters (nd_membership n)"

definition voting_peers :: "map_range \<Rightarrow> node \<Rightarrow> node_id list" where
  "voting_peers it n = filter (\<lambda>i. i \<noteq> nd_id n) (it (voters (nd_membership n)))"

subsection \<open>Sending\<close>

definition send :: "message \<Rightarrow> node \<Rightarrow> node" where
  "send m n = n\<lparr>nd_msgs := nd_msgs n @ [m\<lparr>m_from := nd_id n\<rparr>]\<rparr>"

definition send_append :: "node_id \<Rightarrow> node \<Rightarrow> node" where
  "send_append to n =
     (let nxt = Mapping.lookup_default 0 (nd_next n) to;
          prev = nxt - 1;
          pt = term_or_zero (nd_log n) prev
      in send ((message_of MsgAppend to (nd_term n))
                 \<lparr>m_index := prev, m_log_term := pt, m_commit := committed (nd_log n),
                  m_entries := entries_from (nd_log n) nxt\<rparr>) n)"

definition broadcast_append :: "node \<Rightarrow> node" where
  "broadcast_append n = fold (\<lambda>p n. if p \<noteq> nd_id n then send_append p n else n) (nd_peers n) n"

subsection \<open>Roles and proposals\<close>

definition become_follower :: "u64 \<Rightarrow> node_id \<Rightarrow> node \<Rightarrow> node" where
  "become_follower t leader n =
     n\<lparr>nd_role := Follower, nd_term := t, nd_vote := 0, nd_leader := leader,
       nd_votes := None, nd_pre_vote := False, nd_election_elapsed := 0\<rparr>"

definition propose_internal :: "bytes \<Rightarrow> node \<Rightarrow> node_outcome" where
  "propose_internal data n =
     (let e = \<lparr>e_index = last_index (nd_log n) + 1, e_term = nd_term n, e_data = data\<rparr>
      in case log_append [e] (nd_log n) of
           Panic \<Rightarrow> Panic
         | Failed err l \<Rightarrow> Failed err (n\<lparr>nd_log := l\<rparr>)
         | Done l \<Rightarrow>
             let n1 = n\<lparr>nd_log := l\<rparr>;
                 n2 = (case decode_conf_change data of Some c \<Rightarrow> recompute_membership n1 | None \<Rightarrow> n1);
                 n3 = n2\<lparr>nd_unstable := nd_unstable n2 @ [e]\<rparr>;
                 n4 = n3\<lparr>nd_match := Mapping.update (nd_id n3) (last_index (nd_log n3)) (nd_match n3)\<rparr>
             in Done (broadcast_append n4))"

definition propose :: "bytes \<Rightarrow> node \<Rightarrow> node_outcome" where
  "propose data n =
     (if nd_role n \<noteq> Leader then Failed ProposalToNonLeader n else propose_internal data n)"

definition become_leader :: "node \<Rightarrow> node_outcome" where
  "become_leader n =
     (let n1 = n\<lparr>nd_role := Leader, nd_leader := nd_id n, nd_next := Mapping.empty,
                 nd_match := Mapping.update (nd_id n) (last_index (nd_log n)) Mapping.empty,
                 nd_pre_vote := False\<rparr>;
          n2 = n1\<lparr>nd_next := fold (\<lambda>p. Mapping.update p (last_index (nd_log n1) + 1)) (nd_peers n1) (nd_next n1)\<rparr>
      in if ms_joint (nd_membership n2) then ignore_error (propose_internal joint_leader_noop n2)
         else Done (broadcast_append n2))"

subsection \<open>Elections\<close>

definition last_log :: "node \<Rightarrow> u64 \<times> u64" where
  "last_log n = (last_index (nd_log n), term_or_zero (nd_log n) (last_index (nd_log n)))"

definition log_up_to_date :: "node \<Rightarrow> u64 \<Rightarrow> u64 \<Rightarrow> bool" where
  "log_up_to_date n last_idx last_term =
     (let (index, t) = last_log n
      in last_term > t \<or> last_term = t \<and> last_idx \<ge> index)"

definition start_pre_vote :: "map_range \<Rightarrow> node \<Rightarrow> node" where
  "start_pre_vote it n =
     (let n1 = n\<lparr>nd_votes := Some {nd_id n}, nd_pre_vote := True\<rparr>;
          (last_idx, t) = last_log n1
      in fold (\<lambda>p n. send ((message_of MsgPreVote p (nd_term n + 1))
                             \<lparr>m_index := last_idx, m_log_term := t\<rparr>) n)
           (voting_peers it n1) n1)"

definition handle_pre_vote :: "message \<Rightarrow> node \<Rightarrow> node" where
  "handle_pre_vote m n =
     (if \<not> is_voter n (nd_id n)
      then send ((message_of MsgPreVoteResp (m_from m) (nd_term n))\<lparr>m_reject := True\<rparr>) n
      else let ok = (m_term m \<ge> nd_term n + 1 \<and> log_up_to_date n (m_index m) (m_log_term m))
           in send ((message_of MsgPreVoteResp (m_from m) (nd_term n))\<lparr>m_reject := \<not> ok\<rparr>) n)"

definition start_election :: "map_range \<Rightarrow> node \<Rightarrow> node" where
  "start_election it n =
     (let n1 = n\<lparr>nd_pre_vote := False, nd_role := Candidate, nd_term := nd_term n + 1,
                 nd_vote := nd_id n, nd_votes := Some {nd_id n}\<rparr>;
          (last_idx, t) = last_log n1
      in fold (\<lambda>p n. send ((message_of MsgVote p (nd_term n))
                             \<lparr>m_index := last_idx, m_log_term := t\<rparr>) n)
           (voting_peers it n1) n1)"

definition handle_pre_vote_resp :: "map_range \<Rightarrow> message \<Rightarrow> node \<Rightarrow> node" where
  "handle_pre_vote_resp it m n =
     (if m_reject m \<or> m_term m > nd_term n then n
      else case nd_votes n of
        None \<Rightarrow> n
      | Some vs \<Rightarrow>
          if \<not> nd_pre_vote n then n
          else let n1 = n\<lparr>nd_votes := Some (insert (m_from m) vs)\<rparr>
               in if has_quorum (nd_membership n1) (insert (m_from m) vs)
                  then start_election it n1 else n1)"

definition handle_vote :: "message \<Rightarrow> node \<Rightarrow> node" where
  "handle_vote m n =
     (if \<not> is_voter n (nd_id n)
      then send ((message_of MsgVoteResp (m_from m) (nd_term n))\<lparr>m_reject := True\<rparr>) n
      else let ok = ((nd_vote n = 0 \<or> nd_vote n = m_from m) \<and> log_up_to_date n (m_index m) (m_log_term m));
               n1 = (if ok then n\<lparr>nd_vote := m_from m, nd_election_elapsed := 0\<rparr> else n)
           in send ((message_of MsgVoteResp (m_from m) (nd_term n1))\<lparr>m_reject := \<not> ok\<rparr>) n1)"

definition handle_vote_resp :: "message \<Rightarrow> node \<Rightarrow> node_outcome" where
  "handle_vote_resp m n =
     (if nd_role n \<noteq> Candidate \<or> m_term m \<noteq> nd_term n then Done n
      else if \<not> m_reject m then
        (case nd_votes n of
           None \<Rightarrow> Panic  \<comment> \<open>assignment to an entry of a nil map\<close>
         | Some vs \<Rightarrow>
             let n1 = n\<lparr>nd_votes := Some (insert (m_from m) vs)\<rparr>
             in if has_quorum (nd_membership n1) (insert (m_from m) vs)
                then become_leader n1 else Done n1)
      else Done n)"

subsection \<open>Replication and commitment\<close>

definition append_resp :: "message \<Rightarrow> bool \<Rightarrow> node \<Rightarrow> node" where
  "append_resp m reject n =
     send ((message_of MsgAppendResp (m_from m) (nd_term n))
             \<lparr>m_reject := reject, m_index := last_index (nd_log n)\<rparr>) n"

definition handle_append :: "message \<Rightarrow> node \<Rightarrow> node_outcome" where
  "handle_append m n =
     (if m_term m < nd_term n then Done (append_resp m True n)
      else let n1 = become_follower (m_term m) (m_from m) n
           in if log_term (nd_log n1) (m_index m) \<noteq> Some (m_log_term m)
              then Done (append_resp m True n1)
              else case log_append (m_entries m) (nd_log n1) of
                     Panic \<Rightarrow> Panic
                   | Failed err l \<Rightarrow> Done (n1\<lparr>nd_log := l\<rparr>)
                   | Done l \<Rightarrow>
                       let n2 = n1\<lparr>nd_log := l\<rparr>;
                           n3 = (if m_entries m \<noteq> []
                                 then (recompute_membership n2)\<lparr>nd_unstable := nd_unstable n2 @ m_entries m\<rparr>
                                 else n2);
                           n4 = (if m_commit m > committed (nd_log n3)
                                 then n3\<lparr>nd_log := (nd_log n3)
                                           \<lparr>committed := min (m_commit m) (last_index (nd_log n3))\<rparr>\<rparr>
                                 else n3)
                       in Done (append_resp m False n4))"

definition propose_leave_joint :: "map_range \<Rightarrow> node \<Rightarrow> node_outcome" where
  "propose_leave_joint it n =
     propose_internal (marshal_conf_change
       \<lparr>cc_old = None, cc_new = id_list it (ms_new (nd_membership n)), cc_learners = None, cc_joint = False\<rparr>) n"

definition maybe_leave_joint_or_step_down :: "map_range \<Rightarrow> node \<Rightarrow> node_outcome" where
  "maybe_leave_joint_or_step_down it n =
     (if nd_role n \<noteq> Leader then Done n
      else if ms_joint (nd_membership n) \<and> committed (nd_log n) \<ge> nd_membership_index n
      then ignore_error (propose_leave_joint it n)
      else if \<not> ms_joint (nd_membership n) \<and> \<not> is_voter n (nd_id n)
      then Done (become_follower (nd_term n) 0 n)
      else Done n)"

definition match_values :: "node \<Rightarrow> u64 set" where
  "match_values n = (\<lambda>p. Mapping.lookup_default 0 (nd_match n) p) ` Mapping.keys (nd_match n)"

definition acked_by :: "node \<Rightarrow> u64 \<Rightarrow> node_id set" where
  "acked_by n c = {p \<in> Mapping.keys (nd_match n). Mapping.lookup_default 0 (nd_match n) p \<ge> c}"

lemma acked_by_code [code]:
  "acked_by n c = Set.filter (\<lambda>p. Mapping.lookup_default 0 (nd_match n) p \<ge> c) (Mapping.keys (nd_match n))"
  by (auto simp: acked_by_def)

fun try_commit :: "map_range \<Rightarrow> u64 list \<Rightarrow> node \<Rightarrow> node_outcome" where
  \<comment> \<open>the loop over the candidates, highest first\<close>
  "try_commit it [] n = Done n"
| "try_commit it (c # cs) n =
     (if c \<le> committed (nd_log n) then Done n
      else if term_or_zero (nd_log n) c \<noteq> nd_term n then try_commit it cs n
      else if has_quorum (nd_membership n) (acked_by n c)
      then maybe_leave_joint_or_step_down it
             (broadcast_append (n\<lparr>nd_log := (nd_log n)\<lparr>committed := c\<rparr>\<rparr>))
      else try_commit it cs n)"

definition advance_commit :: "map_range \<Rightarrow> node \<Rightarrow> node_outcome" where
  "advance_commit it n =
     try_commit it (rev (sorted_list_of_set (insert (last_index (nd_log n)) (match_values n)))) n"

definition handle_append_resp :: "map_range \<Rightarrow> message \<Rightarrow> node \<Rightarrow> node_outcome" where
  "handle_append_resp it m n =
     (if nd_role n \<noteq> Leader \<or> m_term m \<noteq> nd_term n then Done n
      else if m_reject m then
        let nxt = Mapping.lookup_default 0 (nd_next n) (m_from m);
            n1 = (if nxt > 1 then n\<lparr>nd_next := Mapping.update (m_from m) (nxt - 1) (nd_next n)\<rparr> else n)
        in Done (send_append (m_from m) n1)
      else
        let n1 = n\<lparr>nd_match := Mapping.update (m_from m) (m_index m) (nd_match n),
                   nd_next := Mapping.update (m_from m) (m_index m + 1) (nd_next n)\<rparr>
        in and_then (advance_commit it n1)
             (\<lambda>n2. Done (if Mapping.lookup_default 0 (nd_next n2) (m_from m) \<le> last_index (nd_log n2)
                         then send_append (m_from m) n2 else n2)) id)"

subsection \<open>The interface of a replica\<close>

definition step :: "map_range \<Rightarrow> message \<Rightarrow> node \<Rightarrow> node_outcome" where
  "step it m n =
     (if m_to m \<noteq> 0 \<and> m_to m \<noteq> nd_id n then Failed WrongDestination n
      else let n1 = (if m_type m \<noteq> MsgPreVote \<and> m_type m \<noteq> MsgPreVoteResp \<and> m_term m > nd_term n
                     then become_follower (m_term m) 0 n else n)
           in case m_type m of
                MsgPreVote \<Rightarrow> Done (handle_pre_vote m n1)
              | MsgPreVoteResp \<Rightarrow> Done (handle_pre_vote_resp it m n1)
              | MsgVote \<Rightarrow> Done (handle_vote m n1)
              | MsgVoteResp \<Rightarrow> handle_vote_resp m n1
              | MsgAppend \<Rightarrow> handle_append m n1
              | MsgAppendResp \<Rightarrow> handle_append_resp it m n1
              | MsgOther b \<Rightarrow> Failed UnknownMessage n1)"

definition tick :: "map_range \<Rightarrow> node \<Rightarrow> node" where
  "tick it n =
     (let n1 = n\<lparr>nd_election_elapsed := nd_election_elapsed n + 1\<rparr>;
          n2 = (if nd_role n1 = Leader then
                  let n' = n1\<lparr>nd_heartbeat_elapsed := nd_heartbeat_elapsed n1 + 1\<rparr>
                  in if nd_heartbeat_elapsed n' \<ge> nd_heartbeat_tick n'
                     then broadcast_append (n'\<lparr>nd_heartbeat_elapsed := 0\<rparr>) else n'
                else n1)
      in if nd_election_elapsed n2 \<ge> nd_election_tick n2 \<and> nd_role n2 \<noteq> Leader \<and> is_voter n2 (nd_id n2)
         then start_pre_vote it (n2\<lparr>nd_election_elapsed := 0\<rparr>)
         else n2)"

definition ready :: "node \<Rightarrow> ready_work" where
  "ready n =
     (let l = nd_log n;
          pending = unat (committed l - applied l);
          ce = entries_from l (applied l + 1)
      in \<lparr>rd_hard_state = \<lparr>hs_term = nd_term n, hs_vote = nd_vote n, hs_commit = committed l\<rparr>,
          rd_entries = nd_unstable n,
          rd_committed_entries =
            (if applied l < committed l
             then (if length ce > pending then take pending ce else ce) else []),
          rd_messages = nd_msgs n\<rparr>)"

definition advance :: "node \<Rightarrow> node" where
  "advance n =
     n\<lparr>nd_unstable := [], nd_msgs := [],
       nd_log := (nd_log n)\<lparr>applied := committed (nd_log n)\<rparr>,
       nd_last_hard := \<lparr>hs_term = nd_term n, hs_vote = nd_vote n, hs_commit = committed (nd_log n)\<rparr>\<rparr>"

definition status :: "node \<Rightarrow> role \<times> u64" where
  "status n = (nd_role n, nd_term n)"

definition add_known_peer :: "node_id \<Rightarrow> node \<Rightarrow> node" where
  "add_known_peer i n =
     (if i \<in> set (nd_peers n) then n
      else let n1 = n\<lparr>nd_peers := nd_peers n @ [i]\<rparr>
           in if nd_role n1 = Leader
              then n1\<lparr>nd_next := Mapping.update i (last_index (nd_log n1) + 1) (nd_next n1)\<rparr>
              else n1)"

definition propose_conf_change :: "map_range \<Rightarrow> node_id list \<Rightarrow> node_id list \<Rightarrow> node \<Rightarrow> node_outcome" where
  "propose_conf_change it new_voters new_learners n =
     (if nd_role n \<noteq> Leader then Failed ConfChangeNonLeader n
      else if ms_joint (nd_membership n) then Failed ConfChangeInProgress n
      else if new_voters = [] then Failed EmptyVoterSet n
      else if \<exists>i \<in> set (new_voters @ new_learners). i \<notin> set (nd_peers n) then Failed UnknownPeer n
      else if \<exists>i \<in> set new_learners. i \<in> set new_voters then Failed VoterIsLearner n
      else propose_internal (marshal_conf_change
             \<lparr>cc_old = id_list it (ms_old (nd_membership n)), cc_new = append_nil new_voters,
              cc_learners = append_nil new_learners, cc_joint = True\<rparr>) n)"

definition new_node :: "config \<Rightarrow> raft_error + node" where
  "new_node c =
     (if c_id c = 0 \<or> c_peers c = [] then Inl IDAndPeersRequired
      else if c_election_tick c \<le> c_heartbeat_tick c \<or> c_heartbeat_tick c \<le> 0 then Inl ElectionTickTooSmall
      else if c_id c \<notin> set (c_peers c) then Inl LocalIDAbsent
      else if \<exists>l \<in> set (c_learners c). l \<notin> set (c_peers c) then Inl LearnerNotPeer
      else if card (set (c_learners c)) \<ge> length (c_peers c) then Inl NoVoterPeer
      else Inr (recompute_membership
        \<lparr>nd_id = c_id c, nd_peers = c_peers c,
         nd_initial_membership = \<lparr>ms_old = set (c_peers c) - set (c_learners c), ms_new = {}, ms_joint = False\<rparr>,
         nd_membership = \<lparr>ms_old = {}, ms_new = {}, ms_joint = False\<rparr>, nd_membership_index = 0,
         nd_role = Follower, nd_term = 0, nd_vote = 0, nd_leader = 0, nd_log = new_log,
         nd_election_elapsed = 0, nd_heartbeat_elapsed = 0,
         nd_election_tick = c_election_tick c, nd_heartbeat_tick = c_heartbeat_tick c,
         nd_votes = None, nd_pre_vote = False, nd_next = Mapping.empty, nd_match = Mapping.empty,
         nd_msgs = [], nd_unstable = [], nd_last_hard = zero_hard_state\<rparr>))"

end
