(* ===== verification/Node_Frame.thy ===== *)
theory Node_Frame
  imports Raft_Node
begin

section \<open>What the helpers of a replica change\<close>

text \<open>
  Sending only appends to the outbox, so every broadcast is a list of messages computed from the
  state before it (\<open>append_message\<close>, \<open>pre_vote_message\<close>, \<open>vote_message\<close>); the other helpers
  have a closed form too. The equations of this theory are the normal forms the invariant proofs
  work with: after them a step is one record update.
\<close>

named_theorems node_nf \<open>closed forms of the operations of a replica\<close>

definition append_message :: "node \<Rightarrow> node_id \<Rightarrow> message" where
  "append_message n p =
     \<lparr>m_type = MsgAppend, m_from = nd_id n, m_to = p, m_term = nd_term n,
      m_index = Mapping.lookup_default 0 (nd_next n) p - 1,
      m_log_term = term_or_zero (nd_log n) (Mapping.lookup_default 0 (nd_next n) p - 1),
      m_commit = committed (nd_log n), m_reject = False,
      m_entries = entries_from (nd_log n) (Mapping.lookup_default 0 (nd_next n) p)\<rparr>"

definition reply_message :: "message_type \<Rightarrow> message \<Rightarrow> u64 \<Rightarrow> bool \<Rightarrow> node \<Rightarrow> message" where
  "reply_message ty m i reject n =
     \<lparr>m_type = ty, m_from = nd_id n, m_to = m_from m, m_term = nd_term n, m_index = i,
      m_log_term = 0, m_commit = 0, m_reject = reject, m_entries = []\<rparr>"

definition request_message :: "message_type \<Rightarrow> u64 \<Rightarrow> node \<Rightarrow> node_id \<Rightarrow> message" where
  "request_message ty t n p =
     \<lparr>m_type = ty, m_from = nd_id n, m_to = p, m_term = t, m_index = last_index (nd_log n),
      m_log_term = term_or_zero (nd_log n) (last_index (nd_log n)), m_commit = 0,
      m_reject = False, m_entries = []\<rparr>"

definition emit :: "message list \<Rightarrow> node \<Rightarrow> node" where
  "emit ms n = n\<lparr>nd_msgs := nd_msgs n @ ms\<rparr>"

lemma emit_sel [simp]:
  "nd_id (emit ms n) = nd_id n" "nd_peers (emit ms n) = nd_peers n"
  "nd_initial_membership (emit ms n) = nd_initial_membership n"
  "nd_membership (emit ms n) = nd_membership n" "nd_membership_index (emit ms n) = nd_membership_index n"
  "nd_role (emit ms n) = nd_role n" "nd_term (emit ms n) = nd_term n" "nd_vote (emit ms n) = nd_vote n"
  "nd_leader (emit ms n) = nd_leader n" "nd_log (emit ms n) = nd_log n"
  "nd_election_elapsed (emit ms n) = nd_election_elapsed n"
  "nd_heartbeat_elapsed (emit ms n) = nd_heartbeat_elapsed n"
  "nd_election_tick (emit ms n) = nd_election_tick n" "nd_heartbeat_tick (emit ms n) = nd_heartbeat_tick n"
  "nd_votes (emit ms n) = nd_votes n" "nd_pre_vote (emit ms n) = nd_pre_vote n"
  "nd_next (emit ms n) = nd_next n" "nd_match (emit ms n) = nd_match n"
  "nd_msgs (emit ms n) = nd_msgs n @ ms" "nd_unstable (emit ms n) = nd_unstable n"
  "nd_last_hard (emit ms n) = nd_last_hard n"
  by (simp_all add: emit_def)

lemma emit_Nil [simp]: "emit [] n = n"
  by (simp add: emit_def)

lemma emit_emit [simp]: "emit ms' (emit ms n) = emit (ms @ ms') n"
  by (simp add: emit_def)

lemma message_of_emit [simp]:
  "append_message (emit ms n) p = append_message n p"
  "reply_message ty m i r (emit ms n) = reply_message ty m i r n"
  "request_message ty t (emit ms n) p = request_message ty t n p"
  by (simp_all add: append_message_def reply_message_def request_message_def)

lemma become_follower_sel [simp]:
  "nd_id (become_follower t l n) = nd_id n" "nd_peers (become_follower t l n) = nd_peers n"
  "nd_initial_membership (become_follower t l n) = nd_initial_membership n"
  "nd_membership (become_follower t l n) = nd_membership n"
  "nd_membership_index (become_follower t l n) = nd_membership_index n"
  "nd_role (become_follower t l n) = Follower" "nd_term (become_follower t l n) = t"
  "nd_vote (become_follower t l n) = 0" "nd_leader (become_follower t l n) = l"
  "nd_log (become_follower t l n) = nd_log n" "nd_votes (become_follower t l n) = None"
  "\<not> nd_pre_vote (become_follower t l n)" "nd_msgs (become_follower t l n) = nd_msgs n"
  "nd_unstable (become_follower t l n) = nd_unstable n"
  by (simp_all add: become_follower_def)

subsection \<open>Sending\<close>

lemma send_append_eq [node_nf]: "send_append p n = emit [append_message n p] n"
  by (simp add: send_append_def Let_def send_def emit_def append_message_def message_of_def)

lemma fold_emit:
  assumes "\<And>ms p. f p (emit ms n) = emit (ms @ g p) n"
  shows "fold f ps (emit ms n) = emit (ms @ concat (map g ps)) n"
  by (induction ps arbitrary: ms) (simp_all add: assms)

lemma concat_map_filter: "concat (map (\<lambda>p. if P p then [f p] else []) ps) = map f (filter P ps)"
  by (induction ps) auto

lemma broadcast_append_eq [node_nf]:
  "broadcast_append n = emit (map (append_message n) (filter (\<lambda>p. p \<noteq> nd_id n) (nd_peers n))) n"
proof -
  have "fold (\<lambda>p n. if p \<noteq> nd_id n then send_append p n else n) (nd_peers n) (emit [] n) =
    emit ([] @ concat (map (\<lambda>p. if p \<noteq> nd_id n then [append_message n p] else []) (nd_peers n))) n"
    by (rule fold_emit) (simp add: send_append_eq)
  then show ?thesis
    by (simp add: broadcast_append_def concat_map_filter)
qed

lemma concat_map_singleton: "concat (map (\<lambda>p. [f p]) ps) = map f ps"
  by (induction ps) auto

lemma fold_send_request:
  "fold (\<lambda>p n. send ((message_of ty p (t n))\<lparr>m_index := li, m_log_term := lt\<rparr>) n) ps n =
     emit (map (request_message ty (t n) n) ps) n"
  if "\<And>ms. t (emit ms n) = t n" "li = last_index (nd_log n)" "lt = term_or_zero (nd_log n) li"
proof -
  have "fold (\<lambda>p n. send ((message_of ty p (t n))\<lparr>m_index := li, m_log_term := lt\<rparr>) n) ps (emit [] n) =
    emit ([] @ concat (map (\<lambda>p. [request_message ty (t n) n p]) ps)) n"
    by (rule fold_emit)
      (simp add: send_def that(1) emit_def[of "_ @ _"] request_message_def message_of_def that(2,3))
  then show ?thesis by (simp add: concat_map_singleton)
qed

subsection \<open>Elections\<close>

lemma start_pre_vote_eq [node_nf]:
  "start_pre_vote it n =
     (let n1 = n\<lparr>nd_votes := Some {nd_id n}, nd_pre_vote := True\<rparr>
      in emit (map (request_message MsgPreVote (nd_term n + 1) n1) (voting_peers it n1)) n1)"
  unfolding start_pre_vote_def Let_def last_log_def split_def
  by (subst fold_send_request) auto

definition campaigning :: "node \<Rightarrow> node" where
  "campaigning n = n\<lparr>nd_pre_vote := False, nd_role := Candidate, nd_term := nd_term n + 1,
                      nd_vote := nd_id n, nd_votes := Some {nd_id n}\<rparr>"

lemma start_election_eq [node_nf]:
  "start_election it n =
     emit (map (request_message MsgVote (nd_term n + 1) (campaigning n)) (voting_peers it n)) (campaigning n)"
proof -
  have "voting_peers it (campaigning n) = voting_peers it n"
    by (simp add: voting_peers_def campaigning_def)
  then show ?thesis
    unfolding start_election_def Let_def last_log_def split_def campaigning_def[symmetric]
    by (subst fold_send_request) (auto simp: campaigning_def)
qed

lemma handle_pre_vote_eq [node_nf]:
  "handle_pre_vote m n =
     emit [reply_message MsgPreVoteResp m 0
       (\<not> (is_voter n (nd_id n) \<and> m_term m \<ge> nd_term n + 1 \<and> log_up_to_date n (m_index m) (m_log_term m))) n] n"
  by (auto simp: handle_pre_vote_def Let_def send_def emit_def reply_message_def message_of_def)

definition grants :: "message \<Rightarrow> node \<Rightarrow> bool" where
  "grants m n \<longleftrightarrow> is_voter n (nd_id n) \<and> (nd_vote n = 0 \<or> nd_vote n = m_from m) \<and>
     log_up_to_date n (m_index m) (m_log_term m)"

lemma handle_vote_eq [node_nf]:
  "handle_vote m n =
     emit [reply_message MsgVoteResp m 0 (\<not> grants m n) n]
       (if grants m n then n\<lparr>nd_vote := m_from m, nd_election_elapsed := 0\<rparr> else n)"
  by (auto simp: handle_vote_def grants_def Let_def send_def emit_def reply_message_def message_of_def)

subsection \<open>Appending\<close>

lemma append_resp_eq [node_nf]:
  "append_resp m r n = emit [reply_message MsgAppendResp m (last_index (nd_log n)) r n] n"
  by (simp add: append_resp_def send_def emit_def reply_message_def message_of_def)

lemma recompute_membership_eq [node_nf]:
  "recompute_membership n =
     n\<lparr>nd_membership := fst (latest_membership (nd_initial_membership n) 0 (entries (nd_log n))),
       nd_membership_index := snd (latest_membership (nd_initial_membership n) 0 (entries (nd_log n)))\<rparr>"
  by (simp add: recompute_membership_def split_def Let_def)

lemma latest_membership_snoc:
  "latest_membership m i (es @ [e]) =
     (case decode_conf_change (e_data e) of
        Some c \<Rightarrow> (membership_from_conf_change c, e_index e) | None \<Rightarrow> latest_membership m i es)"
  by (induction m i es rule: latest_membership.induct) (auto split: option.splits)

definition proposed_entry :: "bytes \<Rightarrow> node \<Rightarrow> entry" where
  "proposed_entry data n = \<lparr>e_index = last_index (nd_log n) + 1, e_term = nd_term n, e_data = data\<rparr>"

definition appended :: "bytes \<Rightarrow> node \<Rightarrow> node" where
  \<comment> \<open>the leader's state once its own entry is in the log\<close>
  "appended data n =
     (let e = proposed_entry data n;
          n1 = n\<lparr>nd_log := (nd_log n)\<lparr>entries := entries (nd_log n) @ [e]\<rparr>\<rparr>;
          n2 = (case decode_conf_change data of Some c \<Rightarrow> recompute_membership n1 | None \<Rightarrow> n1)
      in n2\<lparr>nd_unstable := nd_unstable n @ [e], nd_match := Mapping.update (nd_id n) (last_index (nd_log n) + 1) (nd_match n)\<rparr>)"

lemma appended_sel [simp]:
  "nd_id (appended d n) = nd_id n" "nd_peers (appended d n) = nd_peers n"
  "nd_initial_membership (appended d n) = nd_initial_membership n"
  "nd_role (appended d n) = nd_role n" "nd_term (appended d n) = nd_term n" "nd_vote (appended d n) = nd_vote n"
  "nd_leader (appended d n) = nd_leader n" "nd_votes (appended d n) = nd_votes n"
  "nd_pre_vote (appended d n) = nd_pre_vote n" "nd_next (appended d n) = nd_next n"
  "nd_msgs (appended d n) = nd_msgs n" "nd_unstable (appended d n) = nd_unstable n @ [proposed_entry d n]"
  "entries (nd_log (appended d n)) = entries (nd_log n) @ [proposed_entry d n]"
  "committed (nd_log (appended d n)) = committed (nd_log n)"
  "applied (nd_log (appended d n)) = applied (nd_log n)"
  "nd_match (appended d n) = Mapping.update (nd_id n) (last_index (nd_log n) + 1) (nd_match n)"
  "last_index (nd_log (appended d n)) = last_index (nd_log n) + 1"
  "nd_election_elapsed (appended d n) = nd_election_elapsed n"
  "nd_heartbeat_elapsed (appended d n) = nd_heartbeat_elapsed n"
  "nd_election_tick (appended d n) = nd_election_tick n" "nd_heartbeat_tick (appended d n) = nd_heartbeat_tick n"
  "nd_last_hard (appended d n) = nd_last_hard n"
  by (simp_all add: appended_def Let_def recompute_membership_eq proposed_entry_def last_index_def split: option.splits)

lemma log_wf_appended:
  "log_wf (nd_log n) \<Longrightarrow> last_index (nd_log n) + 1 \<noteq> 0 \<Longrightarrow> log_wf (nd_log (appended d n))"
  using log_wf_snoc[of "nd_log n" "proposed_entry d n"] 
    log_wf_cong[of "nd_log (appended d n)" "(nd_log n)\<lparr>entries := entries (nd_log n) @ [proposed_entry d n]\<rparr>"]
  by (simp add: proposed_entry_def)

lemma propose_internal_eq:
  assumes "log_wf (nd_log n)"
  shows "propose_internal data n =
     (if last_index (nd_log n) + 1 = 0 then Failed ZeroIndexEntry n
      else Done (broadcast_append (appended data n)))"
proof (cases "last_index (nd_log n) + 1 = 0")
  case True
  then show ?thesis by (simp add: propose_internal_def)
next
  case False
  have "log_append [proposed_entry data n] (nd_log n) =
    Done ((nd_log n)\<lparr>entries := entries (nd_log n) @ [proposed_entry data n]\<rparr>)"
    by (rule log_append_fresh[OF assms])
      (use False length_entries[OF assms] in \<open>simp add: proposed_entry_def unat_plus_one\<close>)
  then show ?thesis
    using False unfolding propose_internal_def Let_def proposed_entry_def[symmetric]
    by (cases "decode_conf_change data")
      (simp_all add: appended_def Let_def recompute_membership_eq last_index_def proposed_entry_def
        del: log_append.simps)
qed

end
