(* ===== verification/Node_Steps.thy ===== *)
theory Node_Steps
  imports Node_Frame
begin

section \<open>Every operation is a sequence of atomic transitions\<close>

text \<open>
  \<open>micro w r n n'\<close>: one atomic state change of a replica while it handles \<open>r\<close> (a received message,
  or \<open>None\<close> for a tick, a proposal and the rest), with the guards under which the code makes it.
  The theorems at the end show that every operation, from a well-formed state, is a sequence of
  such changes; the invariants of the later theories are rule inductions over them.
\<close>

definition node_wf :: "node \<Rightarrow> bool" where
  "node_wf n \<longleftrightarrow> log_wf (nd_log n) \<and> (nd_role n = Candidate \<or> nd_pre_vote n \<longrightarrow> nd_votes n \<noteq> None)"

definition leading :: "node \<Rightarrow> node" where
  \<comment> \<open>the first assignments of \<open>becomeLeader\<close>\<close>
  "leading n = n\<lparr>nd_role := Leader, nd_leader := nd_id n,
     nd_match := Mapping.update (nd_id n) (last_index (nd_log n)) Mapping.empty, nd_pre_vote := False,
     nd_next := fold (\<lambda>p. Mapping.update p (last_index (nd_log n) + 1)) (nd_peers n) Mapping.empty\<rparr>"

definition store_batch :: "message \<Rightarrow> raft_log \<Rightarrow> node \<Rightarrow> node" where
  \<comment> \<open>a follower's state after \<open>append\<close> left its log as \<open>l\<close> without an error\<close>
  "store_batch m l n =
     (let n2 = n\<lparr>nd_log := l\<rparr>;
          n3 = (if m_entries m \<noteq> []
                then (recompute_membership n2)\<lparr>nd_unstable := nd_unstable n @ m_entries m\<rparr> else n2)
      in n3\<lparr>nd_log := l\<lparr>committed := if m_commit m > committed l then min (m_commit m) (last_index l) else committed l\<rparr>\<rparr>)"

inductive micro :: "bool \<Rightarrow> message option \<Rightarrow> node \<Rightarrow> node \<Rightarrow> bool" for w :: bool and r :: "message option" where
  send_entries: "micro w r n (emit [append_message n p] n)"
| send_request: "ty = MsgVote \<and> t = nd_term n \<and> nd_role n = Candidate \<or> ty = MsgPreVote \<and> t = nd_term n + 1 \<Longrightarrow>
    micro w r n (emit [request_message ty t n p] n)"
| send_reply: "r = Some m \<Longrightarrow> ty \<in> {MsgPreVoteResp, MsgAppendResp} \<or> ty = MsgVoteResp \<and> rej \<Longrightarrow>
    micro w r n (emit [reply_message ty m i rej n] n)"
| grant_vote: "r = Some m \<Longrightarrow> m_type m = MsgVote \<Longrightarrow> m_term m \<le> nd_term n \<Longrightarrow> grants m n \<Longrightarrow>
    micro w r n (emit [reply_message MsgVoteResp m 0 False n] (n\<lparr>nd_vote := m_from m, nd_election_elapsed := 0\<rparr>))"
| step_down: "r = Some m \<Longrightarrow> m_type m \<notin> {MsgPreVote, MsgPreVoteResp} \<Longrightarrow>
      nd_term n < m_term m \<or> m_type m = MsgAppend \<and> nd_term n = m_term m \<Longrightarrow>
    micro w r n (become_follower (m_term m) l n)"
| resign: "r = Some m \<Longrightarrow> m_type m = MsgAppendResp \<Longrightarrow> nd_role n = Leader \<Longrightarrow> \<not> is_voter n (nd_id n) \<Longrightarrow>
    micro w r n (become_follower (nd_term n) 0 n)"
| clocks: "micro w r n (n\<lparr>nd_election_elapsed := a, nd_heartbeat_elapsed := b\<rparr>)"
| ask_pre_votes: "r = None \<Longrightarrow> nd_role n \<noteq> Leader \<Longrightarrow> is_voter n (nd_id n) \<Longrightarrow>
    micro w r n (n\<lparr>nd_votes := Some {nd_id n}, nd_pre_vote := True\<rparr>)"
| count_pre_vote: "r = Some m \<Longrightarrow> m_type m = MsgPreVoteResp \<Longrightarrow> \<not> m_reject m \<Longrightarrow> nd_pre_vote n \<Longrightarrow>
    nd_votes n = Some vs \<Longrightarrow> micro w r n (n\<lparr>nd_votes := Some (insert (m_from m) vs)\<rparr>)"
| count_vote: "r = Some m \<Longrightarrow> m_type m = MsgVoteResp \<Longrightarrow> \<not> m_reject m \<Longrightarrow> nd_role n = Candidate \<Longrightarrow>
    m_term m = nd_term n \<Longrightarrow> nd_votes n = Some vs \<Longrightarrow>
    micro w r n (n\<lparr>nd_votes := Some (insert (m_from m) vs)\<rparr>)"
| campaign: "r = Some m \<Longrightarrow> m_type m = MsgPreVoteResp \<Longrightarrow> w \<or> nd_term n + 1 \<noteq> 0 \<Longrightarrow> nd_pre_vote n \<Longrightarrow> nd_votes n = Some vs \<Longrightarrow> has_quorum (nd_membership n) vs \<Longrightarrow> micro w r n (campaigning n)"
| lead: "r = Some m \<Longrightarrow> m_type m = MsgVoteResp \<Longrightarrow> m_term m = nd_term n \<Longrightarrow> nd_role n = Candidate \<Longrightarrow> nd_votes n = Some vs \<Longrightarrow> has_quorum (nd_membership n) vs \<Longrightarrow> micro w r n (leading n)"
| append_own: "nd_role n = Leader \<Longrightarrow> last_index (nd_log n) + 1 \<noteq> 0 \<Longrightarrow> micro w r n (appended d n)"
| append_failed: "r = Some m \<Longrightarrow> m_type m = MsgAppend \<Longrightarrow> nd_role n = Follower \<Longrightarrow> m_term m = nd_term n \<Longrightarrow>
    log_term (nd_log n) (m_index m) = Some (m_log_term m) \<Longrightarrow>
    log_append (m_entries m) (nd_log n) = Failed err l \<Longrightarrow> micro w r n (n\<lparr>nd_log := l\<rparr>)"
| append_batch: "r = Some m \<Longrightarrow> m_type m = MsgAppend \<Longrightarrow> nd_role n = Follower \<Longrightarrow> m_term m = nd_term n \<Longrightarrow>
    log_term (nd_log n) (m_index m) = Some (m_log_term m) \<Longrightarrow>
    log_append (m_entries m) (nd_log n) = Done l \<Longrightarrow> micro w r n (store_batch m l n)"
| progress: "nd_role n = Leader \<Longrightarrow> micro w r n (n\<lparr>nd_next := x, nd_match := y\<rparr>)"
| commit: "nd_role n = Leader \<Longrightarrow> committed (nd_log n) < c \<Longrightarrow> term_or_zero (nd_log n) c = nd_term n \<Longrightarrow>
    has_quorum (nd_membership n) (acked_by n c) \<Longrightarrow> micro w r n (n\<lparr>nd_log := (nd_log n)\<lparr>committed := c\<rparr>\<rparr>)"
| learn_peer: "micro w r n (n\<lparr>nd_peers := ps, nd_next := x\<rparr>)"

abbreviation micros :: "bool \<Rightarrow> message option \<Rightarrow> node \<Rightarrow> node \<Rightarrow> bool" where
  "micros w r \<equiv> (micro w r)\<^sup>*\<^sup>*"

lemmas micros_trans = rtranclp_trans[of "micro w r" for w r]

subsection \<open>Atomic transitions keep the state well-formed\<close>

lemma node_wf_emit [simp]: "node_wf (emit ms n) = node_wf n"
  by (simp add: node_wf_def)

lemma store_batch_sel [simp]:
  "nd_id (store_batch m l n) = nd_id n" "nd_peers (store_batch m l n) = nd_peers n"
  "nd_initial_membership (store_batch m l n) = nd_initial_membership n"
  "nd_role (store_batch m l n) = nd_role n" "nd_term (store_batch m l n) = nd_term n"
  "nd_vote (store_batch m l n) = nd_vote n" "nd_votes (store_batch m l n) = nd_votes n"
  "nd_pre_vote (store_batch m l n) = nd_pre_vote n" "nd_msgs (store_batch m l n) = nd_msgs n"
  "entries (nd_log (store_batch m l n)) = entries l" "applied (nd_log (store_batch m l n)) = applied l"
  "committed (nd_log (store_batch m l n)) =
     (if m_commit m > committed l then min (m_commit m) (last_index l) else committed l)"
  "nd_last_hard (store_batch m l n) = nd_last_hard n" "nd_leader (store_batch m l n) = nd_leader n"
  by (simp_all add: store_batch_def Let_def recompute_membership_eq)

lemma log_wf_store_batch [simp]: "log_wf (nd_log (store_batch m l n)) = log_wf l"
  by (rule log_wf_cong) simp

lemma micro_wf: "micro w r n n' \<Longrightarrow> node_wf n \<Longrightarrow> node_wf n'"
proof (induction rule: micro.induct)
  case (append_failed m n err l)
  then show ?case
    using log_append_wf[of "nd_log n" "m_entries m"] by (simp add: node_wf_def)
next
  case (append_batch m n l)
  then show ?case
    using log_append_wf[of "nd_log n" "m_entries m"] by (simp add: node_wf_def)
qed (auto simp: node_wf_def become_follower_def campaigning_def leading_def log_wf_appended)

lemma micros_wf: "micros w r n n' \<Longrightarrow> node_wf n \<Longrightarrow> node_wf n'"
  by (induction rule: rtranclp_induct) (auto intro: micro_wf)

lemma micro_id: "micro w r n n' \<Longrightarrow> nd_id n' = nd_id n"
  by (induction rule: micro.induct) (auto simp: become_follower_def campaigning_def leading_def)

lemma micros_id: "micros w r n n' \<Longrightarrow> nd_id n' = nd_id n"
  by (induction rule: rtranclp_induct) (auto dest: micro_id)

subsection \<open>The helpers as sequences of transitions\<close>

lemma micros_emit:
  "(\<And>x ms. x \<in> set xs \<Longrightarrow> micro w r (emit ms n) (emit [f x] (emit ms n))) \<Longrightarrow> micros w r n (emit (map f xs) n)"
proof (induction xs rule: rev_induct)
  case Nil
  then show ?case by simp
next
  case (snoc x xs)
  have "micros w r n (emit (map f xs) n)"
    using snoc by simp
  moreover have "micro w r (emit (map f xs) n) (emit [f x] (emit (map f xs) n))"
    using snoc.prems by simp
  ultimately show ?case by simp
qed

lemma micros_broadcast: "micros w r n (broadcast_append n)"
  unfolding broadcast_append_eq
  by (rule micros_emit) (metis micro.send_entries message_of_emit(1))

lemma micro_send_append: "micro w r n (send_append p n)"
  unfolding send_append_eq by (rule micro.send_entries)

lemma micros_propose_internal:
  assumes "node_wf n" "nd_role n = Leader"
  shows "\<exists>n'. left_state (propose_internal d n) = Some n' \<and> micros w r n n'"
proof (cases "last_index (nd_log n) + 1 = 0")
  case True
  then show ?thesis using assms by (simp add: propose_internal_eq node_wf_def)
next
  case False
  have "micros w r n (broadcast_append (appended d n))"
    by (rule converse_rtranclp_into_rtranclp[OF _ micros_broadcast])
      (rule micro.append_own[OF assms(2) False])
  then show ?thesis using False assms by (simp add: propose_internal_eq node_wf_def)
qed

lemma become_leader_eq [node_nf]:
  "become_leader n =
     (if ms_joint (nd_membership n) then ignore_error (propose_internal joint_leader_noop (leading n))
      else Done (broadcast_append (leading n)))"
  by (simp add: become_leader_def leading_def Let_def)

lemma micros_become_leader:
  assumes "node_wf n" "nd_role n = Candidate" "nd_votes n = Some vs" "has_quorum (nd_membership n) vs"
    and r: "r = Some m" "m_type m = MsgVoteResp" "m_term m = nd_term n"
  shows "\<exists>n'. left_state (become_leader n) = Some n' \<and> micros w r n n'"
proof -
  have lead: "micro w r n (leading n)"
    using r assms(2-4) by (rule micro.lead)
  have wf: "node_wf (leading n)" and role: "nd_role (leading n) = Leader"
    using micro_wf[OF lead assms(1)] by (simp_all add: leading_def)
  show ?thesis
  proof (cases "ms_joint (nd_membership n)")
    case True
    obtain n' where "left_state (propose_internal joint_leader_noop (leading n)) = Some n'"
        "micros w r (leading n) n'"
      using micros_propose_internal[OF wf role] by blast
    then show ?thesis
      using True lead by (auto simp: become_leader_eq intro: converse_rtranclp_into_rtranclp)
  next
    case False
    then show ?thesis
      using lead micros_broadcast
      by (auto simp: become_leader_eq intro: converse_rtranclp_into_rtranclp)
  qed
qed

lemma micros_start_election:
  assumes "r = Some m" "m_type m = MsgPreVoteResp" "w \<or> nd_term n + 1 \<noteq> 0" "nd_pre_vote n" "nd_votes n = Some vs" "has_quorum (nd_membership n) vs"
  shows "micros w r n (start_election it n)"
proof -
  have "micros w r (campaigning n) (start_election it n)"
    unfolding start_election_eq
    by (rule micros_emit, subst message_of_emit(3)[symmetric], rule micro.send_request)
      (simp add: campaigning_def)
  then show ?thesis
    using micro.campaign[OF assms] by (meson converse_rtranclp_into_rtranclp)
qed

subsection \<open>Handlers and the interface of a replica\<close>

definition decomposes :: "bool \<Rightarrow> message option \<Rightarrow> node \<Rightarrow> node_outcome \<Rightarrow> bool" where
  "decomposes w r n out \<longleftrightarrow> (\<exists>n'. left_state out = Some n' \<and> micros w r n n')"

lemma decomposes_Done [simp]: "decomposes w r n (Done n') = micros w r n n'"
  by (simp add: decomposes_def)

lemma decomposes_Failed [simp]: "decomposes w r n (Failed err n') = micros w r n n'"
  by (simp add: decomposes_def)

lemma decomposes_ignore_error [simp]: "decomposes w r n (ignore_error out) = decomposes w r n out"
  by (simp add: decomposes_def)

lemma decomposes_trans: "micros w r n n1 \<Longrightarrow> decomposes w r n1 out \<Longrightarrow> decomposes w r n out"
  by (auto simp: decomposes_def)

lemma decomposes_step: "micro w r n n1 \<Longrightarrow> decomposes w r n1 out \<Longrightarrow> decomposes w r n out"
  by (auto simp: decomposes_def intro: converse_rtranclp_into_rtranclp)

lemma decomposes_and_then:
  "decomposes w r n out \<Longrightarrow> (\<And>n1. micros w r n n1 \<Longrightarrow> decomposes w r n1 (k n1)) \<Longrightarrow> decomposes w r n (and_then out k id)"
  by (cases out) (auto simp: decomposes_def intro: rtranclp_trans)

lemma decomposes_propose_internal:
  "node_wf n \<Longrightarrow> nd_role n = Leader \<Longrightarrow> decomposes w r n (propose_internal d n)"
  using micros_propose_internal by (simp add: decomposes_def)

lemma decomposes_propose: "node_wf n \<Longrightarrow> decomposes w r n (propose d n)"
  by (simp add: propose_def decomposes_propose_internal)

lemma decomposes_propose_conf_change: "node_wf n \<Longrightarrow> decomposes w r n (propose_conf_change it vs ls n)"
  by (simp add: propose_conf_change_def decomposes_propose_internal)

lemma decomposes_maybe_leave:
  "node_wf n \<Longrightarrow> r = Some m \<Longrightarrow> m_type m = MsgAppendResp \<Longrightarrow> decomposes w r n (maybe_leave_joint_or_step_down it n)"
  by (auto simp: maybe_leave_joint_or_step_down_def propose_leave_joint_def decomposes_propose_internal
      intro: r_into_rtranclp micro.resign)

lemma decomposes_try_commit:
  "r = Some m \<Longrightarrow> m_type m = MsgAppendResp \<Longrightarrow> node_wf n \<Longrightarrow> nd_role n = Leader \<Longrightarrow> decomposes w r n (try_commit it cs n)"
proof (induction cs)
  case Nil
  then show ?case by simp
next
  case (Cons c cs)
  let ?n1 = "n\<lparr>nd_log := (nd_log n)\<lparr>committed := c\<rparr>\<rparr>"
  have "decomposes w r n (maybe_leave_joint_or_step_down it (broadcast_append ?n1))"
    if "committed (nd_log n) < c" "term_or_zero (nd_log n) c = nd_term n"
      "has_quorum (nd_membership n) (acked_by n c)"
  proof -
    have commit: "micro w r n ?n1"
      using Cons.prems(4) that by (rule micro.commit)
    have path: "micros w r n (broadcast_append ?n1)"
      by (rule converse_rtranclp_into_rtranclp[OF commit micros_broadcast])
    show ?thesis
      by (rule decomposes_trans[OF path decomposes_maybe_leave[OF _ Cons.prems(1,2)]])
        (rule micros_wf[OF path Cons.prems(3)])
  qed
  then show ?case
    using Cons by (auto simp: not_le)
qed

lemma decomposes_handle_append_resp:
  assumes wf: "node_wf n" and r: "r = Some m" "m_type m = MsgAppendResp"
  shows "decomposes w r n (handle_append_resp it m n)"
proof -
  let ?n1 = "n\<lparr>nd_match := Mapping.update (m_from m) (m_index m) (nd_match n),
               nd_next := Mapping.update (m_from m) (m_index m + 1) (nd_next n)\<rparr>"
  have "decomposes w r n (and_then (advance_commit it ?n1)
          (\<lambda>n2. Done (if Mapping.lookup_default 0 (nd_next n2) (m_from m) \<le> last_index (nd_log n2)
                      then send_append (m_from m) n2 else n2)) id)"
    if "nd_role n = Leader"
  proof -
    have n1: "micro w r n ?n1"
    proof -
      have "?n1 = n\<lparr>nd_next := Mapping.update (m_from m) (m_index m + 1) (nd_next n),
                    nd_match := Mapping.update (m_from m) (m_index m) (nd_match n)\<rparr>"
        by simp
      then show ?thesis using micro.progress[OF that] by metis
    qed
    have "decomposes w r n (advance_commit it ?n1)"
      unfolding advance_commit_def
      by (rule decomposes_step[OF n1 decomposes_try_commit[OF r]]) (use wf that in \<open>simp_all add: node_wf_def\<close>)
    then show ?thesis
      by (rule decomposes_and_then) (auto intro: micro_send_append)
  qed
  moreover have "micros w r n (send_append p (n\<lparr>nd_next := x\<rparr>))" if "nd_role n = Leader" for p x
    using micro.progress[OF that, where r = r and w = w and x = x and y = "nd_match n"]
      micro_send_append[of w r "n\<lparr>nd_next := x\<rparr>" p]
    by simp
  ultimately show ?thesis
    using micro_send_append[of w r n] by (auto simp: handle_append_resp_def Let_def)
qed

lemma micro_reply:
  "r = Some m \<Longrightarrow> ty \<in> {MsgPreVoteResp, MsgAppendResp} \<or> ty = MsgVoteResp \<and> rej \<Longrightarrow>
   n' = emit [reply_message ty m i rej n] n \<Longrightarrow> micros w r n n'"
  using micro.send_reply by blast

lemma store_batch_eq:
  "store_batch m l n =
     (let n2 = n\<lparr>nd_log := l\<rparr>;
          n3 = (if m_entries m \<noteq> []
                then (recompute_membership n2)\<lparr>nd_unstable := nd_unstable n2 @ m_entries m\<rparr> else n2)
      in (if m_commit m > committed (nd_log n3)
          then n3\<lparr>nd_log := (nd_log n3)\<lparr>committed := min (m_commit m) (last_index (nd_log n3))\<rparr>\<rparr>
          else n3))"
  by (simp add: store_batch_def recompute_membership_eq Let_def)

lemma decomposes_handle_append:
  assumes "node_wf n" "m_type m = MsgAppend" "m_term m \<le> nd_term n"
  shows "decomposes w (Some m) n (handle_append m n)"
proof (cases "m_term m < nd_term n")
  case True
  then show ?thesis
    by (auto simp: handle_append_def append_resp_eq intro: micro_reply)
next
  case False
  define n1 where "n1 = become_follower (m_term m) (m_from m) n"
  have down: "micro w (Some m) n n1"
    unfolding n1_def by (rule micro.step_down) (use False assms in auto)
  have n1: "nd_role n1 = Follower" "m_term m = nd_term n1" "node_wf n1"
    using micro_wf[OF down assms(1)] by (simp_all add: n1_def become_follower_def)
  have reply: "micros w (Some m) n' (append_resp m rej n')" for rej n'
    by (auto simp: append_resp_eq intro: micro_reply)
  show ?thesis
  proof (cases "log_term (nd_log n1) (m_index m) = Some (m_log_term m)")
    case prev: True
    show ?thesis
    proof (cases "log_append (m_entries m) (nd_log n1)")
      case (Done l)
      have "micro w (Some m) n1 (store_batch m l n1)"
        by (rule micro.append_batch[OF refl assms(2) n1(1,2) prev Done])
      then have "micros w (Some m) n (append_resp m False (store_batch m l n1))"
        using down reply by (meson converse_rtranclp_into_rtranclp)
      then show ?thesis
        using False prev Done by (simp add: handle_append_def n1_def[symmetric] store_batch_eq Let_def)
    next
      case (Failed err l)
      have "micro w (Some m) n1 (n1\<lparr>nd_log := l\<rparr>)"
        by (rule micro.append_failed[OF refl assms(2) n1(1,2) prev Failed])
      then have "micros w (Some m) n (n1\<lparr>nd_log := l\<rparr>)"
        using down by (meson converse_rtranclp_into_rtranclp r_into_rtranclp)
      then show ?thesis
        using False prev Failed by (simp add: handle_append_def n1_def[symmetric])
    next
      case Panic
      then show ?thesis
        using log_append_wf[of "nd_log n1" "m_entries m"] n1(3) by (simp add: node_wf_def)
    qed
  next
    case False
    then show ?thesis
      using \<open>\<not> m_term m < nd_term n\<close> down reply
      by (auto simp: handle_append_def n1_def[symmetric] intro: converse_rtranclp_into_rtranclp)
  qed
qed

lemma micros_handle_vote:
  assumes "m_type m = MsgVote" "m_term m \<le> nd_term n"
  shows "micros w (Some m) n (handle_vote m n)"
proof (cases "grants m n")
  case True
  then show ?thesis
    using micro.grant_vote[OF refl assms(1,2) True]
    by (simp add: handle_vote_eq reply_message_def emit_def r_into_rtranclp)
next
  case False
  then show ?thesis
    by (auto simp: handle_vote_eq intro: micro_reply)
qed

lemma decomposes_handle_vote_resp:
  assumes "node_wf n" "m_type m = MsgVoteResp"
  shows "decomposes w (Some m) n (handle_vote_resp m n)"
proof (cases "nd_role n = Candidate \<and> m_term m = nd_term n \<and> \<not> m_reject m")
  case True
  then obtain vs where vs: "nd_votes n = Some vs"
    using assms(1) by (auto simp: node_wf_def)
  let ?n1 = "n\<lparr>nd_votes := Some (insert (m_from m) vs)\<rparr>"
  have count: "micro w (Some m) n ?n1"
    by (rule micro.count_vote[OF refl assms(2)]) (use True vs in auto)
  have "decomposes w (Some m) ?n1 (become_leader ?n1)"
    if "has_quorum (nd_membership n) (insert (m_from m) vs)"
    using micros_become_leader[OF micro_wf[OF count assms(1)], of "insert (m_from m) vs" "Some m" m w] assms(2) True that
    by (simp add: decomposes_def)
  then show ?thesis
    using True vs count by (auto simp: handle_vote_resp_def Let_def intro: decomposes_step)
next
  case False
  then show ?thesis by (auto simp: handle_vote_resp_def)
qed

lemma micros_handle_pre_vote_resp:
  assumes "m_type m = MsgPreVoteResp" "w \<or> nd_term n + 1 \<noteq> 0"
  shows "micros w (Some m) n (handle_pre_vote_resp it m n)"
proof (cases "m_reject m \<or> m_term m > nd_term n \<or> nd_votes n = None \<or> \<not> nd_pre_vote n")
  case True
  then show ?thesis by (auto simp: handle_pre_vote_resp_def split: option.splits)
next
  case False
  then obtain vs where vs: "nd_votes n = Some vs" by auto
  let ?n1 = "n\<lparr>nd_votes := Some (insert (m_from m) vs)\<rparr>"
  have count: "micro w (Some m) n ?n1"
    by (rule micro.count_pre_vote[OF refl assms(1)]) (use False vs in auto)
  have "micros w (Some m) ?n1 (start_election it ?n1)"
    if "has_quorum (nd_membership n) (insert (m_from m) vs)"
    by (rule micros_start_election[OF refl assms(1)]) (use that False assms(2) in auto)
  then show ?thesis
    using False vs count
    by (auto simp: handle_pre_vote_resp_def Let_def intro: converse_rtranclp_into_rtranclp)
qed

theorem decomposes_step_message:
  assumes wf: "node_wf n" and room: "w \<or> nd_term n + 1 \<noteq> 0"
  shows "decomposes w (Some m) n (step it m n)"
proof (cases "m_to m \<noteq> 0 \<and> m_to m \<noteq> nd_id n")
  case True
  then show ?thesis by (simp add: step_def)
next
  case False
  define n1 where "n1 = (if m_type m \<noteq> MsgPreVote \<and> m_type m \<noteq> MsgPreVoteResp \<and> m_term m > nd_term n
     then become_follower (m_term m) 0 n else n)"
  have n1: "micros w (Some m) n n1"
    unfolding n1_def by (auto intro!: r_into_rtranclp micro.step_down)
  have wf1: "node_wf n1"
    using micros_wf[OF n1 wf] .
  have term1: "m_type m \<in> {MsgAppend, MsgVote} \<Longrightarrow> m_term m \<le> nd_term n1"
    by (auto simp: n1_def become_follower_def)
  have room1: "m_type m = MsgPreVoteResp \<Longrightarrow> w \<or> nd_term n1 + 1 \<noteq> 0"
    using room by (auto simp: n1_def)
  have "decomposes w (Some m) n1 (case m_type m of
                MsgPreVote \<Rightarrow> Done (handle_pre_vote m n1)
              | MsgPreVoteResp \<Rightarrow> Done (handle_pre_vote_resp it m n1)
              | MsgVote \<Rightarrow> Done (handle_vote m n1)
              | MsgVoteResp \<Rightarrow> handle_vote_resp m n1
              | MsgAppend \<Rightarrow> handle_append m n1
              | MsgAppendResp \<Rightarrow> handle_append_resp it m n1
              | MsgOther b \<Rightarrow> Failed UnknownMessage n1)"
    using wf1 term1 room1
    by (cases "m_type m")
      (auto simp: handle_pre_vote_eq micros_handle_pre_vote_resp micros_handle_vote
        decomposes_handle_vote_resp decomposes_handle_append decomposes_handle_append_resp intro: micro_reply)
  then show ?thesis
    using False decomposes_trans[OF n1] by (auto simp: step_def n1_def[symmetric] Let_def)
qed

lemma micros_start_pre_vote:
  assumes "r = None" "nd_role n \<noteq> Leader" "is_voter n (nd_id n)"
  shows "micros w r n (start_pre_vote it n)"
proof -
  let ?n1 = "n\<lparr>nd_votes := Some {nd_id n}, nd_pre_vote := True\<rparr>"
  have "micros w r ?n1 (emit (map (request_message MsgPreVote (nd_term n + 1) ?n1) (voting_peers it ?n1)) ?n1)"
    by (rule micros_emit, subst message_of_emit(3)[symmetric], rule micro.send_request) simp
  then show ?thesis
    using micro.ask_pre_votes[OF assms] by (auto simp: start_pre_vote_eq Let_def intro: converse_rtranclp_into_rtranclp)
qed

theorem micros_tick:
  assumes r: "r = None"
  shows "micros w r n (tick it n)"
proof -
  let ?n1 = "n\<lparr>nd_election_elapsed := nd_election_elapsed n + 1\<rparr>"
  define n2 where "n2 = (if nd_role ?n1 = Leader then
                  let n' = ?n1\<lparr>nd_heartbeat_elapsed := nd_heartbeat_elapsed ?n1 + 1\<rparr>
                  in if nd_heartbeat_elapsed n' \<ge> nd_heartbeat_tick n'
                     then broadcast_append (n'\<lparr>nd_heartbeat_elapsed := 0\<rparr>) else n'
                else ?n1)"
  have clock: "micro w r n (n\<lparr>nd_election_elapsed := a, nd_heartbeat_elapsed := b\<rparr>)"
      "micros w r n (n\<lparr>nd_election_elapsed := a, nd_heartbeat_elapsed := b\<rparr>)" for a b
    by (auto intro: micro.clocks)
  have clock1: "micro w r n' (n'\<lparr>nd_election_elapsed := a\<rparr>)" for n' a
    using micro.clocks[where n = n' and r = r and w = w and a = a and b = "nd_heartbeat_elapsed n'"] by simp
  have n2: "micros w r n n2"
    unfolding n2_def Let_def
    using clock1[of n "nd_election_elapsed n + 1"]
      converse_rtranclp_into_rtranclp[OF clock(1) micros_broadcast] clock(2)
    by (simp add: r_into_rtranclp)
  have "micros w r n2 (start_pre_vote it (n2\<lparr>nd_election_elapsed := 0\<rparr>))"
    if "nd_role n2 \<noteq> Leader" "is_voter n2 (nd_id n2)"
    by (rule converse_rtranclp_into_rtranclp[OF clock1 micros_start_pre_vote[OF r]])
      (use that in \<open>simp_all add: is_voter_def\<close>)
  moreover have "tick it n =
      (if nd_election_elapsed n2 \<ge> nd_election_tick n2 \<and> nd_role n2 \<noteq> Leader \<and> is_voter n2 (nd_id n2)
       then start_pre_vote it (n2\<lparr>nd_election_elapsed := 0\<rparr>) else n2)"
    unfolding tick_def n2_def Let_def ..
  ultimately show ?thesis
    using n2 by auto
qed

lemma micros_add_known_peer: "micros w r n (add_known_peer p n)"
proof -
  have "micro w r n (n\<lparr>nd_peers := nd_peers n @ [p]\<rparr>)"
    using micro.learn_peer[where n = n and r = r and w = w and ps = "nd_peers n @ [p]" and x = "nd_next n"] by simp
  then show ?thesis
    using micro.learn_peer[where n = n and r = r and w = w and ps = "nd_peers n @ [p]"]
    by (auto simp: add_known_peer_def Let_def)
qed

subsection \<open>The contract of an operation: no panic, and the state stays well-formed\<close>

locale node_operation =
  fixes op :: "node \<Rightarrow> node_outcome" and r :: "message option"
  assumes decomposes: "node_wf n \<Longrightarrow> w \<or> nd_term n + 1 \<noteq> 0 \<Longrightarrow> decomposes w r n (op n)"
begin

lemma path: "node_wf n \<Longrightarrow> w \<or> nd_term n + 1 \<noteq> 0 \<Longrightarrow> left_state (op n) = Some n' \<Longrightarrow> micros w r n n'"
  using decomposes[of n w] by (auto simp: decomposes_def)

lemma keeps_wf: "node_wf n \<Longrightarrow> leaves node_wf (op n)"
  using decomposes[of n True] micros_wf by (fastforce simp: leaves_iff decomposes_def)

lemma no_panic: "node_wf n \<Longrightarrow> op n \<noteq> Panic"
  using keeps_wf by force

lemma keeps_id: "node_wf n \<Longrightarrow> left_state (op n) = Some n' \<Longrightarrow> nd_id n' = nd_id n"
  using path[of n True] micros_id by blast

lemma keeps: "node_wf n \<Longrightarrow> \<exists>n'. left_state (op n) = Some n' \<and> node_wf n' \<and> nd_id n' = nd_id n"
  using keeps_wf[of n] keeps_id[of n] unfolding leaves_iff by blast

end

interpretation receive: node_operation "step it m" "Some m" for it m
  by unfold_locales (rule decomposes_step_message)

interpretation clock: node_operation "\<lambda>n. Done (tick it n)" None for it
  by unfold_locales (simp add: micros_tick)

interpretation client: node_operation "propose data" None for data
  by unfold_locales (rule decomposes_propose)

interpretation reconfigure: node_operation "propose_conf_change it vs ls" None for it vs ls
  by unfold_locales (rule decomposes_propose_conf_change)

interpretation meet: node_operation "\<lambda>n. Done (add_known_peer p n)" None for p
  by unfold_locales (simp add: micros_add_known_peer)

lemma node_wf_advance [simp]: "node_wf (advance n) = node_wf n"
  by (simp add: node_wf_def advance_def)

lemma node_wf_recompute [simp]: "node_wf (recompute_membership n) = node_wf n"
  by (simp add: node_wf_def recompute_membership_eq)

lemma new_node_wf: "new_node c = Inr n \<Longrightarrow> node_wf n"
  by (auto simp: new_node_def split: if_splits) (simp add: node_wf_def)

end
