(* ===== verification/Node_Props.thy ===== *)
theory Node_Props
  imports Node_Steps "HOL-Library.Sublist"
begin

section \<open>What one replica guarantees, whatever messages it is given\<close>

subsection \<open>The order on log positions\<close>

text \<open>
  A vote compares (last term, last index) of two logs. That comparison is the lexicographic order,
  here the \<open>linorder\<close> of a type of its own, so votes inherit transitivity and totality.
\<close>

datatype log_position = LogPosition (lp_term: u64) (lp_index: u64)

instantiation log_position :: linorder
begin

definition less_eq_log_position :: "log_position \<Rightarrow> log_position \<Rightarrow> bool" where
  "p \<le> q \<longleftrightarrow> lp_term p < lp_term q \<or> lp_term p = lp_term q \<and> lp_index p \<le> lp_index q"

definition less_log_position :: "log_position \<Rightarrow> log_position \<Rightarrow> bool" where
  "p < q \<longleftrightarrow> lp_term p < lp_term q \<or> lp_term p = lp_term q \<and> lp_index p < lp_index q"

instance
  by standard
    (auto simp: less_eq_log_position_def less_log_position_def log_position.expand)

end

definition last_position :: "node \<Rightarrow> log_position" where
  "last_position n = LogPosition (snd (last_log n)) (fst (last_log n))"

lemma log_up_to_date_iff: "log_up_to_date n i t \<longleftrightarrow> last_position n \<le> LogPosition t i"
  by (auto simp: log_up_to_date_def last_position_def less_eq_log_position_def split_def Let_def)

subsection \<open>Terms\<close>

lemma micro_term: "micro False r n n' \<Longrightarrow> nd_term n \<le> nd_term n'"
proof (induction rule: micro.induct)
  case (campaign m n vs)
  then show ?case
    by (simp add: campaigning_def word_le_unat unat_plus_one)
qed (auto simp: become_follower_def leading_def)

lemma micros_term: "micros False r n n' \<Longrightarrow> nd_term n \<le> nd_term n'"
  by (induction rule: rtranclp_induct) (auto dest: micro_term)

subsection \<open>A leader only appends to its log\<close>

definition extends_while_leading :: "node \<Rightarrow> node \<Rightarrow> bool" where
  "extends_while_leading n n' \<longleftrightarrow> nd_term n < nd_term n' \<or> nd_term n' = nd_term n \<and>
     (nd_role n' = Leader \<and> prefix (entries (nd_log n)) (entries (nd_log n')) \<or> nd_role n' = Follower)"

lemma micro_extends:
  assumes "micro False r n1 n2" "extends_while_leading n n1"
  shows "extends_while_leading n n2"
proof -
  have "nd_term n1 < nd_term n2 \<or> nd_term n2 = nd_term n1 \<and>
      (nd_role n1 = Leader \<and> (nd_role n2 = Leader \<and> prefix (entries (nd_log n1)) (entries (nd_log n2)) \<or> nd_role n2 = Follower)
       \<or> nd_role n1 = Follower \<and> nd_role n2 = Follower)"
    if "nd_role n1 = Leader \<or> nd_role n1 = Follower"
    using assms(1) that
  proof (induction rule: micro.induct)
    case (campaign m n vs)
    then show ?case
      by (simp add: campaigning_def word_less_unat unat_plus_one)
  next
    case (step_down m n l)
    then show ?case
      by (auto simp: become_follower_def)
  qed (auto simp: leading_def become_follower_def)
  then show ?thesis
    using assms(2) micro_term[OF assms(1)] unfolding extends_while_leading_def
    by (auto intro: prefix_order.trans)
qed

lemma micros_extends: "micros False r n n' \<Longrightarrow> nd_role n = Leader \<Longrightarrow> extends_while_leading n n'"
proof (induction rule: rtranclp_induct)
  case base
  then show ?case by (simp add: extends_while_leading_def)
next
  case (step n1 n2)
  then show ?case by (blast intro: micro_extends)
qed

subsection \<open>What survives until the end of an operation\<close>

text \<open>
  A replica that becomes leader while it handles a vote answer is still leader, in the same term,
  when the handler returns; a vote given, or the vote for itself in a campaign, is still recorded.
\<close>

lemma micro_keeps_leading:
  assumes "micro w r n n'" "r = Some m" "m_type m = MsgVoteResp" "m_term m = nd_term n" "nd_role n = Leader"
  shows "nd_role n' = Leader \<and> nd_term n' = nd_term n"
  using assms by (cases rule: micro.cases) auto

lemma micros_keep_leading:
  assumes "micros w r n n'" "r = Some m" "m_type m = MsgVoteResp" "m_term m = nd_term n" "nd_role n = Leader"
  shows "nd_role n' = Leader \<and> nd_term n' = nd_term n"
  using assms(1)
proof (induction rule: rtranclp_induct)
  case base
  then show ?case using assms by simp
next
  case (step n1 n2)
  then show ?case using micro_keeps_leading[of w r n1 n2 m] assms by simp
qed

lemma micro_keeps_vote:
  assumes "micro w r n n'" "r = Some m" "m_type m = MsgVote" "m_term m \<le> nd_term n" "nd_vote n = m_from m"
  shows "nd_vote n' = m_from m \<and> nd_term n' = nd_term n"
  using assms by (cases rule: micro.cases) auto

lemma micros_keep_vote:
  assumes "micros w r n n'" "r = Some m" "m_type m = MsgVote" "m_term m \<le> nd_term n" "nd_vote n = m_from m"
  shows "nd_vote n' = m_from m \<and> nd_term n' = nd_term n"
  using assms(1)
proof (induction rule: rtranclp_induct)
  case base
  then show ?case using assms by simp
next
  case (step n1 n2)
  then show ?case using micro_keeps_vote[of w r n1 n2 m] assms by simp
qed

lemma micro_keeps_campaign:
  assumes "micro w r n n'" "r = Some m" "m_type m = MsgPreVoteResp" "nd_vote n = v" "\<not> nd_pre_vote n"
  shows "nd_vote n' = v \<and> nd_term n' = nd_term n \<and> \<not> nd_pre_vote n'"
  using assms by (cases rule: micro.cases) auto

lemma micros_keep_campaign:
  assumes "micros w r n n'" "r = Some m" "m_type m = MsgPreVoteResp" "nd_vote n = v" "\<not> nd_pre_vote n"
  shows "nd_vote n' = v \<and> nd_term n' = nd_term n \<and> \<not> nd_pre_vote n'"
  using assms(1)
proof (induction rule: rtranclp_induct)
  case base
  then show ?case using assms by simp
next
  case (step n1 n2)
  then show ?case using micro_keeps_campaign[of w r n1 n2 m v] assms by simp
qed

end
