(* ===== verification/Commit_Rule.thy ===== *)
theory Commit_Rule
  imports Node_Props
begin

section \<open>advanceCommit finds the highest committable index\<close>

text \<open>
  The abstract rule: an index beyond the commit index may be committed when its entry is of the
  leader's own term and a quorum has acknowledged it. \<open>advanceCommit\<close> tries only the acknowledged
  indices and the last one, highest first; \<open>advance_commit_max\<close> shows that this finds the maximum
  over all indices.
\<close>

definition committable :: "node \<Rightarrow> u64 \<Rightarrow> bool" where
  "committable n c \<longleftrightarrow> committed (nd_log n) < c \<and> c \<le> last_index (nd_log n) \<and>
     term_or_zero (nd_log n) c = nd_term n \<and> has_quorum (nd_membership n) (acked_by n c)"

definition commit_at :: "map_range \<Rightarrow> u64 \<Rightarrow> node \<Rightarrow> node_outcome" where
  "commit_at it c n = maybe_leave_joint_or_step_down it
     (broadcast_append (n\<lparr>nd_log := (nd_log n)\<lparr>committed := c\<rparr>\<rparr>))"

definition terms_sorted :: "entry list \<Rightarrow> bool" where
  "terms_sorted es \<longleftrightarrow> sorted (map e_term es)"

definition log_terms_ok :: "node \<Rightarrow> bool" where
  "log_terms_ok n \<longleftrightarrow> log_wf (nd_log n) \<and> terms_sorted (entries (nd_log n)) \<and>
     (\<forall>e \<in> set (entries (nd_log n)). e_term e \<le> nd_term n)"

lemma try_commit_find:
  "sorted_wrt (\<lambda>a b. b \<le> a) cs \<Longrightarrow>
   try_commit it cs n =
     (case find (\<lambda>c. committed (nd_log n) < c \<and> term_or_zero (nd_log n) c = nd_term n \<and>
                     has_quorum (nd_membership n) (acked_by n c)) cs of
        None \<Rightarrow> Done n | Some c \<Rightarrow> commit_at it c n)"
proof (induction cs)
  case Nil
  then show ?case by simp
next
  case (Cons c cs)
  show ?case
  proof (cases "c \<le> committed (nd_log n)")
    case True
    then have "find (\<lambda>c. committed (nd_log n) < c \<and> term_or_zero (nd_log n) c = nd_term n \<and>
                     has_quorum (nd_membership n) (acked_by n c)) cs = None"
      using Cons.prems by (auto simp: find_None_iff)
    then show ?thesis using True by (auto simp: not_less)
  next
    case False
    then have "try_commit it (c # cs) n =
        (if term_or_zero (nd_log n) c = nd_term n \<and> has_quorum (nd_membership n) (acked_by n c)
         then commit_at it c n else try_commit it cs n)"
      by (simp add: commit_at_def)
    moreover have "committed (nd_log n) < c" using False by simp
    ultimately show ?thesis using Cons by (simp del: try_commit.simps)
  qed
qed

lemma find_descending:
  fixes S :: "u64 set"
  shows "find P (rev (sorted_list_of_set S)) =
    (if \<exists>c \<in> S. P c then Some (Max {c \<in> S. P c}) else None)"
proof (cases "\<exists>c \<in> S. P c")
  case False
  then show ?thesis by (auto simp: find_None_iff)
next
  case True
  then obtain c where c: "find P (rev (sorted_list_of_set S)) = Some c"
    by (cases "find P (rev (sorted_list_of_set S))") (auto simp: find_None_iff)
  then obtain i where i: "i < length (rev (sorted_list_of_set S))" "P c" "c = rev (sorted_list_of_set S) ! i"
      "\<And>j. j < i \<Longrightarrow> \<not> P (rev (sorted_list_of_set S) ! j)"
    by (auto simp: find_Some_iff)
  have desc: "sorted_wrt (\<lambda>a b. b \<le> a) (rev (sorted_list_of_set S))"
    by (simp add: sorted_wrt_rev)
  have "Max {c \<in> S. P c} = c"
  proof (rule Max_eqI)
    fix d assume "d \<in> {c \<in> S. P c}"
    then obtain j where "j < length (rev (sorted_list_of_set S))" "d = rev (sorted_list_of_set S) ! j" "P d"
      by (metis (no_types, lifting) finite_ids in_set_conv_nth mem_Collect_eq set_rev set_sorted_list_of_set)
    then show "d \<le> c"
      using i desc by (metis linorder_less_linear order_refl sorted_wrt_nth_less)
  next
    have "c \<in> set (rev (sorted_list_of_set S))"
      using i by (metis nth_mem)
    then show "c \<in> {c \<in> S. P c}"
      using i(2) by simp
  qed simp
  then show ?thesis using c True by simp
qed

lemma term_or_zero_mono:
  assumes "log_terms_ok n" "c \<le> d" "d \<le> last_index (nd_log n)"
  shows "term_or_zero (nd_log n) c \<le> term_or_zero (nd_log n) d" "term_or_zero (nd_log n) d \<le> nd_term n"
proof -
  have wf: "log_wf (nd_log n)" and le: "unat c \<le> unat d" "unat d < length (entries (nd_log n))"
    using assms length_entries[of "nd_log n"] by (auto simp: log_terms_ok_def word_le_unat)
  then show "term_or_zero (nd_log n) c \<le> term_or_zero (nd_log n) d"
    using assms(1) sorted_nth_mono[of "map e_term (entries (nd_log n))" "unat c" "unat d"]
    by (simp add: term_or_zero_nth log_terms_ok_def terms_sorted_def)
  show "term_or_zero (nd_log n) d \<le> nd_term n"
    using assms(1) le wf by (simp add: term_or_zero_nth log_terms_ok_def)
qed

lemma candidate_above:
  assumes ok: "log_terms_ok n" and c: "committable n c"
  shows "\<exists>d \<in> insert (last_index (nd_log n)) (match_values n). c \<le> d \<and> committable n d"
proof -
  let ?A = "insert (last_index (nd_log n)) {v \<in> match_values n. c \<le> v}"
  define d where "d = Min ?A"
  have "d \<in> ?A" unfolding d_def by (rule Min_in) auto
  have least: "\<And>v. v \<in> ?A \<Longrightarrow> d \<le> v" unfolding d_def by (rule Min_le) auto
  have cd: "c \<le> d" and dl: "d \<le> last_index (nd_log n)"
    using \<open>d \<in> ?A\<close> c least by (auto simp: committable_def)
  have "acked_by n d = acked_by n c"
    using cd least by (auto simp: acked_by_def match_values_def intro: order_trans)
  moreover have "term_or_zero (nd_log n) d = nd_term n"
    using term_or_zero_mono[OF ok cd dl] c by (simp add: committable_def)
  ultimately have "committable n d"
    using c cd dl by (auto simp: committable_def)
  then show ?thesis using \<open>d \<in> ?A\<close> cd by auto
qed

lemma advance_commit_eq:
  assumes ok: "log_terms_ok n" and leader_term: "nd_term n \<noteq> 0"
  shows "advance_commit it n =
    (if \<exists>c. committable n c then commit_at it (Max {c. committable n c}) n else Done n)"
proof -
  let ?C = "insert (last_index (nd_log n)) (match_values n)"
  let ?P = "\<lambda>c. committed (nd_log n) < c \<and> term_or_zero (nd_log n) c = nd_term n \<and>
                has_quorum (nd_membership n) (acked_by n c)"
  have wf: "log_wf (nd_log n)" using ok by (simp add: log_terms_ok_def)
  have P: "?P c \<longleftrightarrow> committable n c" for c
    using leader_term log_term_None_iff[OF wf, of c]
    by (auto simp: committable_def term_or_zero_def split: option.splits)
  have max: "Max {c \<in> ?C. committable n c} = Max {c. committable n c}" if "committable n c0" for c0
  proof (rule antisym)
    show "Max {c \<in> ?C. committable n c} \<le> Max {c. committable n c}"
      using candidate_above[OF ok that] by (intro Max_mono) auto
    have "Max {c. committable n c} \<in> {c. committable n c}"
      using that by (intro Max_in) auto
    then obtain d where d: "d \<in> ?C" "Max {c. committable n c} \<le> d" "committable n d"
      using candidate_above[OF ok] by blast
    have "d \<le> Max {c \<in> ?C. committable n c}"
      using d(1,3) by (intro Max_ge) auto
    with d(2) show "Max {c. committable n c} \<le> Max {c \<in> ?C. committable n c}"
      by (rule order_trans)
  qed
  have Pc: "?P = committable n"
    by (rule ext) (rule P)
  have "advance_commit it n = (case find (committable n) (rev (sorted_list_of_set ?C)) of
          None \<Rightarrow> Done n | Some c \<Rightarrow> commit_at it c n)"
    unfolding advance_commit_def Pc[symmetric]
    by (rule try_commit_find) (simp only: sorted_wrt_rev sorted_sorted_list_of_set)
  also have "\<dots> = (if \<exists>c. committable n c then commit_at it (Max {c. committable n c}) n else Done n)"
  proof (cases "\<exists>c. committable n c")
    case True
    then obtain c0 where c0: "committable n c0" by blast
    have "\<exists>c \<in> ?C. committable n c"
      using candidate_above[OF ok c0] by blast
    then have "find (committable n) (rev (sorted_list_of_set ?C)) = Some (Max {c. committable n c})"
      by (simp only: find_descending if_True max[OF c0])
    then show ?thesis using True by simp
  next
    case False
    then have "\<not> (\<exists>c \<in> ?C. committable n c)" by blast
    then have "find (committable n) (rev (sorted_list_of_set ?C)) = None"
      by (simp only: find_descending if_False)
    then show ?thesis using False by simp
  qed
  finally show ?thesis .
qed

end
