(* ===== verification/Reconfiguration.thy ===== *)
theory Reconfiguration
  imports Commit_Rule
begin

section \<open>Joint-consensus membership changes on one replica\<close>

text \<open>
  A leader enters the joint configuration when it appends the joint entry, leaves it by itself
  once that entry commits (which takes a majority of the old and of the new voters), and steps
  down if the final configuration does not contain it.
\<close>

definition membership_current :: "node \<Rightarrow> bool" where
  \<comment> \<open>the voters in effect come from the newest configuration entry of the log\<close>
  "membership_current n \<longleftrightarrow>
     (nd_membership n, nd_membership_index n) =
       latest_membership (nd_initial_membership n) 0 (entries (nd_log n))"

lemma membership_current_emit [simp]: "membership_current (emit ms n) = membership_current n"
  by (simp add: membership_current_def)

lemma membership_current_recompute [simp]: "membership_current (recompute_membership n)"
  by (simp add: membership_current_def recompute_membership_eq)

lemma membership_current_appended: "membership_current n \<Longrightarrow> membership_current (appended d n)"
  by (auto simp: membership_current_def appended_def Let_def recompute_membership_eq latest_membership_snoc
      proposed_entry_def split: option.splits)

lemma membership_current_store_batch:
  "membership_current n \<Longrightarrow> log_append (m_entries m) (nd_log n) = Done l \<Longrightarrow> membership_current (store_batch m l n)"
  by (auto simp: membership_current_def store_batch_def Let_def recompute_membership_eq)

lemma micro_membership_current:
  assumes "micro w r n n'" "membership_current n"
    and "\<And>m err l. r = Some m \<Longrightarrow> log_append (m_entries m) (nd_log n) = Failed err l \<Longrightarrow> entries l = entries (nd_log n)"
  shows "membership_current n'"
  using assms(1)
proof (cases rule: micro.cases)
  case (append_own d)
  then show ?thesis using assms(2) by (simp add: membership_current_appended)
next
  case (append_batch m l)
  then show ?thesis using assms(2) by (simp add: membership_current_store_batch)
next
  case (append_failed m err l)
  then show ?thesis using assms(2) assms(3)[of m err l] by (simp add: membership_current_def)
qed (use assms(2) in \<open>auto simp: membership_current_def become_follower_def campaigning_def leading_def\<close>)

subsection \<open>Entering the joint configuration\<close>

lemma id_set_list [simp]: "map_order it \<Longrightarrow> id_set (id_list it S) = S"
  by (simp add: id_set_def id_list_def map_orderD)

lemma id_set_append_nil [simp]: "id_set (append_nil xs) = set xs"
  by (simp add: id_set_def append_nil_def)

lemma appended_conf_change:
  "nd_membership (appended (marshal_conf_change c) n) = membership_from_conf_change c"
  "nd_membership_index (appended (marshal_conf_change c) n) = last_index (nd_log n) + 1"
  by (simp_all add: appended_def Let_def recompute_membership_eq latest_membership_snoc
      decode_marshal_conf_change proposed_entry_def)

lemma propose_conf_change_joint:
  assumes "node_wf n" "map_order it" "nd_role n = Leader" "\<not> ms_joint (nd_membership n)" "vs \<noteq> []"
    and "set (vs @ ls) \<subseteq> set (nd_peers n)" "set vs \<inter> set ls = {}" "last_index (nd_log n) + 1 \<noteq> 0"
  shows "\<exists>n' e. propose_conf_change it vs ls n = Done n' \<and>
     nd_membership n' = joint_membership (ms_old (nd_membership n)) (set vs) \<and>
     nd_membership_index n' = last_index (nd_log n) + 1 \<and>
     entries (nd_log n') = entries (nd_log n) @ [e] \<and> e_index e = last_index (nd_log n) + 1 \<and>
     e_term e = nd_term n \<and> is_raft_internal_data (e_data e) \<and>
     committed (nd_log n') = committed (nd_log n)"
proof -
  let ?c = "\<lparr>cc_old = id_list it (ms_old (nd_membership n)), cc_new = append_nil vs,
             cc_learners = append_nil ls, cc_joint = True\<rparr>"
  let ?n' = "broadcast_append (appended (marshal_conf_change ?c) n)"
  have "propose_conf_change it vs ls n = Done ?n'"
    using assms by (auto simp: propose_conf_change_def propose_internal_eq node_wf_def)
  moreover have "nd_membership ?n' = joint_membership (ms_old (nd_membership n)) (set vs)"
    using assms(2)
    by (simp add: broadcast_append_eq appended_conf_change membership_from_conf_change_def joint_membership_def)
  moreover have "nd_membership_index ?n' = last_index (nd_log n) + 1"
    by (simp add: broadcast_append_eq appended_conf_change)
  ultimately show ?thesis
    by (simp add: broadcast_append_eq proposed_entry_def marshal_internal)
qed

subsection \<open>Leaving it\<close>

lemma leave_joint:
  assumes "node_wf n" "map_order it" "nd_role n = Leader" "ms_joint (nd_membership n)"
    and "nd_membership_index n \<le> committed (nd_log n)" "last_index (nd_log n) + 1 \<noteq> 0"
  shows "\<exists>n' e. maybe_leave_joint_or_step_down it n = Done n' \<and>
     nd_membership n' = simple_membership (ms_new (nd_membership n)) \<and>
     nd_membership_index n' = last_index (nd_log n) + 1 \<and> nd_role n' = Leader \<and>
     entries (nd_log n') = entries (nd_log n) @ [e] \<and> is_raft_internal_data (e_data e)"
proof -
  let ?c = "\<lparr>cc_old = None, cc_new = id_list it (ms_new (nd_membership n)), cc_learners = None, cc_joint = False\<rparr>"
  let ?n' = "broadcast_append (appended (marshal_conf_change ?c) n)"
  have "maybe_leave_joint_or_step_down it n = Done ?n'"
    using assms
    by (simp add: maybe_leave_joint_or_step_down_def propose_leave_joint_def propose_internal_eq node_wf_def)
  moreover have "nd_membership ?n' = simple_membership (ms_new (nd_membership n))"
    using assms(2)
    by (simp add: broadcast_append_eq appended_conf_change membership_from_conf_change_def simple_membership_def)
  ultimately show ?thesis
    using assms(3) by (simp add: broadcast_append_eq appended_conf_change proposed_entry_def marshal_internal)
qed

lemma commit_at_joint:
  assumes "node_wf n" "map_order it" "nd_role n = Leader" "ms_joint (nd_membership n)"
    and "nd_membership_index n \<le> c" "last_index (nd_log n) + 1 \<noteq> 0"
  shows "\<exists>n'. commit_at it c n = Done n' \<and> committed (nd_log n') = c \<and>
    nd_membership n' = simple_membership (ms_new (nd_membership n))"
proof -
  let ?n1 = "broadcast_append (n\<lparr>nd_log := (nd_log n)\<lparr>committed := c\<rparr>\<rparr>)"
  have n1: "node_wf ?n1" "nd_role ?n1 = Leader" "ms_joint (nd_membership ?n1)"
    "nd_membership_index ?n1 \<le> committed (nd_log ?n1)" "last_index (nd_log ?n1) + 1 \<noteq> 0"
    "committed (nd_log ?n1) = c" "nd_membership ?n1 = nd_membership n"
    using assms by (simp_all add: broadcast_append_eq node_wf_def)
  have "committed (nd_log n') = c" if "maybe_leave_joint_or_step_down it ?n1 = Done n'" for n'
    using that n1
    by (auto simp: maybe_leave_joint_or_step_down_def propose_leave_joint_def propose_internal_eq
        node_wf_def broadcast_append_eq)
  then show ?thesis
    using leave_joint[OF n1(1) assms(2) n1(2,3,4,5)] n1(7) unfolding commit_at_def by auto
qed

lemma removed_leader_steps_down:
  assumes "nd_role n = Leader" "\<not> ms_joint (nd_membership n)" "nd_id n \<notin> voters (nd_membership n)"
  shows "\<exists>n'. commit_at it c n = Done n' \<and> nd_role n' = Follower \<and> nd_term n' = nd_term n \<and>
     nd_leader n' = 0 \<and> committed (nd_log n') = c"
  using assms
  by (simp add: commit_at_def maybe_leave_joint_or_step_down_def broadcast_append_eq is_voter_def
      become_follower_def)

text \<open>Committing anything in the joint phase takes a majority of both voter sets.\<close>

lemma joint_commit_needs_both:
  "committable n c \<Longrightarrow> ms_joint (nd_membership n) \<Longrightarrow>
   majority (ms_old (nd_membership n)) (acked_by n c) \<and> majority (ms_new (nd_membership n)) (acked_by n c)"
  by (simp add: committable_def has_quorum_eq)

end
