(* ===== verification/Network.thy ===== *)
theory Network
  imports Reconfiguration
begin

section \<open>A group of replicas on an asynchronous network\<close>

text \<open>
  Replicas run the operations of \<open>Raft_Node\<close>; the wire keeps every message ever sent, so a message
  can be delivered late, more than once, out of order or never, as over the short-lived TCP
  connections of tcp.go. \<open>drive\<close> is the caller's duty after an operation (\<open>driveLocked\<close> in host.go,
  \<open>DeliverFiltered\<close> in cluster.go): take the ready work, hand the messages to the transport, apply
  the committed entries that are not Raft's own, advance. Disk and crashes are in the storage
  theories.
\<close>

record net =
  net_node :: "node_id \<Rightarrow> node option"
  net_wire :: "message list"
  net_applied :: "node_id \<Rightarrow> entry list"

definition put_node :: "node_id \<Rightarrow> node \<Rightarrow> net \<Rightarrow> net" where
  "put_node i n s = s\<lparr>net_node := (net_node s)(i \<mapsto> n)\<rparr>"

definition drive :: "node_id \<Rightarrow> node \<Rightarrow> net \<Rightarrow> net" where
  "drive i n s =
     (let r = ready n
      in (put_node i (advance n) s)
           \<lparr>net_wire := net_wire s @ rd_messages r,
            net_applied := (net_applied s)(i := net_applied s i @
              filter (\<lambda>e. \<not> is_raft_internal_data (e_data e)) (rd_committed_entries r))\<rparr>)"

text \<open>The start: replicas fresh from \<open>NewNode\<close>, each under its own ID, and an empty wire.\<close>

definition net_start :: "net \<Rightarrow> bool" where
  "net_start s \<longleftrightarrow> net_wire s = [] \<and> (\<forall>i. net_applied s i = []) \<and>
     (\<forall>i n. net_node s i = Some n \<longrightarrow> (\<exists>c. new_node c = Inr n \<and> c_id c = i))"

inductive net_step :: "net \<Rightarrow> net \<Rightarrow> bool" where
  ticked: "net_node s i = Some n \<Longrightarrow> map_order it \<Longrightarrow> net_step s (put_node i (tick it n) s)"
| delivered: "m \<in> set (net_wire s) \<Longrightarrow> net_node s (m_to m) = Some n \<Longrightarrow> map_order it \<Longrightarrow>
    left_state (step it m n) = Some n' \<Longrightarrow> net_step s (put_node (m_to m) n' s)"
| proposed: "net_node s i = Some n \<Longrightarrow> left_state (propose data n) = Some n' \<Longrightarrow> net_step s (put_node i n' s)"
| reconfigured: "net_node s i = Some n \<Longrightarrow> map_order it \<Longrightarrow>
    left_state (propose_conf_change it vs ls n) = Some n' \<Longrightarrow> net_step s (put_node i n' s)"
| introduced: "net_node s i = Some n \<Longrightarrow> net_step s (put_node i (add_known_peer j n) s)"
| driven: "net_node s i = Some n \<Longrightarrow> net_step s (drive i n s)"

subsection \<open>Runs\<close>

text \<open>
  \<open>run L V s\<close>: the group reaches \<open>s\<close> through steps before which no term has reached the largest
  64-bit value; along the way every leader is recorded in \<open>L\<close> (term, leader) and every vote in \<open>V\<close>
  (term, voter, candidate). With \<open>L\<close> and \<open>V\<close> unrestricted this is reachability; a claim about
  runs "with at most one leader per term" restricts \<open>L\<close>.
\<close>

definition term_room :: "net \<Rightarrow> bool" where
  "term_room s \<longleftrightarrow> (\<forall>i n. net_node s i = Some n \<longrightarrow> nd_term n + 1 \<noteq> 0)"

definition node_recorded :: "(u64 \<times> node_id) set \<Rightarrow> (u64 \<times> node_id \<times> node_id) set \<Rightarrow> node_id \<Rightarrow> node \<Rightarrow> bool" where
  "node_recorded L V i n \<longleftrightarrow>
     (nd_role n = Leader \<longrightarrow> (nd_term n, i) \<in> L) \<and> (nd_vote n \<noteq> 0 \<longrightarrow> (nd_term n, i, nd_vote n) \<in> V)"

definition recorded :: "(u64 \<times> node_id) set \<Rightarrow> (u64 \<times> node_id \<times> node_id) set \<Rightarrow> net \<Rightarrow> bool" where
  "recorded L V s \<longleftrightarrow> (\<forall>i n. net_node s i = Some n \<longrightarrow> node_recorded L V i n)"

inductive run :: "(u64 \<times> node_id) set \<Rightarrow> (u64 \<times> node_id \<times> node_id) set \<Rightarrow> net \<Rightarrow> bool" for L V where
  start: "net_start s \<Longrightarrow> run L V s"
| step: "run L V s \<Longrightarrow> term_room s \<Longrightarrow> net_step s s' \<Longrightarrow> recorded L V s' \<Longrightarrow> run L V s'"

definition reachable :: "net \<Rightarrow> bool" where
  "reachable s \<longleftrightarrow> run UNIV UNIV s"

lemma run_reachable: "run L V s \<Longrightarrow> reachable s"
  unfolding reachable_def
  by (induction rule: run.induct) (auto intro: run.intros simp: recorded_def node_recorded_def)

lemma net_node_put [simp]: "net_node (put_node i n s) j = (if j = i then Some n else net_node s j)"
  by (simp add: put_node_def)

lemma net_wire_put [simp]: "net_wire (put_node i n s) = net_wire s" "net_applied (put_node i n s) = net_applied s"
  by (simp_all add: put_node_def)

lemma put_node_put [simp]: "put_node i n' (put_node i n s) = put_node i n' s"
  by (simp add: put_node_def)

lemma put_node_same: "net_node s i = Some n \<Longrightarrow> put_node i n s = s"
  by (cases s) (auto simp: put_node_def fun_eq_iff)

lemma drive_simps [simp]:
  "net_node (drive i n s) = net_node (put_node i (advance n) s)"
  "net_wire (drive i n s) = net_wire s @ nd_msgs n"
  by (auto simp: drive_def Let_def ready_def)

subsection \<open>Every step is a replica's sequence of atomic transitions, or a drive\<close>

definition wf_net :: "net \<Rightarrow> bool" where
  "wf_net s \<longleftrightarrow> (\<forall>i n. net_node s i = Some n \<longrightarrow> node_wf n \<and> nd_id n = i)"

definition receivable :: "message option \<Rightarrow> node_id \<Rightarrow> net \<Rightarrow> bool" where
  "receivable r i s \<longleftrightarrow> (\<forall>m. r = Some m \<longrightarrow> m \<in> set (net_wire s) \<and> m_to m = i)"

lemma net_step_cases:
  assumes "net_step s s'" "wf_net s" "term_room s"
  obtains i n n' r where "net_node s i = Some n" "s' = put_node i n' s" "micros False r n n'" "receivable r i s"
  | i n where "net_node s i = Some n" "s' = drive i n s"
  using assms(1)
proof (cases rule: net_step.cases)
  case (ticked i n it)
  then show ?thesis
    using that(1)[of i n "tick it n" None] by (simp add: micros_tick receivable_def)
next
  case (delivered m n it n')
  then have "micros False (Some m) n n'"
    using assms(2,3) receive.path[of n False it m n'] by (auto simp: wf_net_def term_room_def)
  then show ?thesis
    using that(1)[of "m_to m" n n' "Some m"] delivered by (simp add: receivable_def)
next
  case (proposed i n data n')
  then have "micros False None n n'"
    using assms(2,3) client.path[of n False data n'] by (auto simp: wf_net_def term_room_def)
  then show ?thesis
    using that(1)[of i n n' None] proposed by (simp add: receivable_def)
next
  case (reconfigured i n it vs ls n')
  then have "micros False None n n'"
    using assms(2,3) reconfigure.path[of n False it vs ls n'] by (auto simp: wf_net_def term_room_def)
  then show ?thesis
    using that(1)[of i n n' None] reconfigured by (simp add: receivable_def)
next
  case (introduced i n j)
  then show ?thesis
    using that(1)[of i n "add_known_peer j n" None] by (simp add: micros_add_known_peer receivable_def)
next
  case (driven i n)
  then show ?thesis using that(2) by blast
qed

lemma net_start_wf: "net_start s \<Longrightarrow> wf_net s"
proof -
  have "nd_id n = c_id c" if "new_node c = Inr n" for c n
    using that by (auto simp: new_node_def recompute_membership_eq split: if_splits)
  then show "net_start s \<Longrightarrow> wf_net s"
    unfolding net_start_def wf_net_def by (metis new_node_wf)
qed

lemma wf_net_step: "net_step s s' \<Longrightarrow> wf_net s \<Longrightarrow> term_room s \<Longrightarrow> wf_net s'"
proof (erule net_step_cases)
  fix i n n' r
  assume "wf_net s" "net_node s i = Some n" "s' = put_node i n' s" "micros False r n n'"
  then show "wf_net s'"
    using micros_wf[of False r n n'] micros_id[of False r n n'] by (auto simp: wf_net_def)
next
  fix i n
  assume "wf_net s" "net_node s i = Some n" "s' = drive i n s"
  then show "wf_net s'"
    by (auto simp: wf_net_def advance_def node_wf_def)
qed

lemma run_wf: "run L V s \<Longrightarrow> wf_net s"
  by (induction rule: run.induct) (auto intro: net_start_wf wf_net_step)

subsection \<open>The contract of an invariant of runs\<close>

text \<open>
  To hold in every run it is enough that a property holds at the start and survives one atomic
  transition of one replica (on its way to the state in which its operation ends) and one drive.
\<close>

locale run_invariant =
  fixes L :: "(u64 \<times> node_id) set" and V :: "(u64 \<times> node_id \<times> node_id) set" and I :: "net \<Rightarrow> bool"
  assumes at_start: "net_start s \<Longrightarrow> I s"
    and at_micro: "run L V s0 \<Longrightarrow> wf_net s \<Longrightarrow> I s \<Longrightarrow> net_node s i = Some n \<Longrightarrow> receivable r i s \<Longrightarrow>
      micro False r n n1 \<Longrightarrow> micros False r n1 n2 \<Longrightarrow> node_recorded L V i n2 \<Longrightarrow> I (put_node i n1 s)"
    and at_drive: "wf_net s \<Longrightarrow> I s \<Longrightarrow> net_node s i = Some n \<Longrightarrow> I (drive i n s)"
begin

lemma along_micros:
  assumes "micros False r n n2" "run L V s0" "receivable r i s" "node_recorded L V i n2"
  shows "wf_net s \<Longrightarrow> I s \<Longrightarrow> net_node s i = Some n \<Longrightarrow> I (put_node i n2 s)"
  using assms(1,3)
proof (induction arbitrary: s rule: converse_rtranclp_induct)
  case base
  then show ?case by (simp add: put_node_same)
next
  case (step n n1)
  let ?s1 = "put_node i n1 s"
  have "wf_net ?s1"
    using step.prems step.hyps(1) micro_wf[OF step.hyps(1)] micro_id[OF step.hyps(1)]
    by (auto simp: wf_net_def)
  moreover have "I ?s1"
    by (rule at_micro[OF assms(2) step.prems(1,2,3,4) step.hyps(1,2) assms(4)])
  moreover have "receivable r i ?s1"
    using step.prems by (simp add: receivable_def)
  ultimately have "I (put_node i n2 ?s1)"
    by (intro step.IH) simp_all
  then show ?case by simp
qed

lemma in_run: "run L V s \<Longrightarrow> I s"
proof (induction rule: run.induct)
  case (start s)
  then show ?case by (rule at_start)
next
  case (step s s')
  note wf = run_wf[OF step.hyps(1)]
  from step.hyps(3) wf step.hyps(2) show ?case
  proof (cases rule: net_step_cases)
    case (1 i n n' r)
    then have "node_recorded L V i n'"
      using step.hyps(4) by (auto simp: recorded_def)
    then show ?thesis
      using along_micros[OF 1(3) step.hyps(1) 1(4) _ wf step.IH 1(1)] 1(2) by simp
  next
    case (2 i n)
    then show ?thesis using at_drive[OF wf step.IH] by simp
  qed
qed

end

end
