(* ===== verification/Net_Logs.thy ===== *)
theory Net_Logs
  imports Network
begin

section \<open>What the logs and messages of a group look like in every run\<close>

text \<open>
  No assumption on elections is needed here: in every run each log is contiguous with terms that
  never decrease and never exceed the replica's term, each replica uses the newest configuration
  entry of its log, and each replication message carries a contiguous batch that fits its previous
  position. In particular every batch a replica accepts is appended without an error.
\<close>

definition append_ok :: "message \<Rightarrow> bool" where
  "append_ok m \<longleftrightarrow> (m_type m = MsgAppend \<longrightarrow> m_entries m = [] \<or> e_index (hd (m_entries m)) = 0 \<or>
     batch_at (Suc (unat (m_index m))) (m_entries m) \<and>
     sorted (m_log_term m # map e_term (m_entries m)) \<and>
     (\<forall>e \<in> set (m_entries m). e_term e \<le> m_term m \<and> e_term e \<noteq> 0))"

definition node_logs_ok :: "node \<Rightarrow> bool" where
  "node_logs_ok n \<longleftrightarrow> terms_sorted (entries (nd_log n)) \<and>
     (\<forall>e \<in> set (entries (nd_log n)). e_term e \<le> nd_term n) \<and>
     (\<forall>e \<in> set (tl (entries (nd_log n))). e_term e \<noteq> 0) \<and>
     (nd_role n \<noteq> Follower \<longrightarrow> nd_term n \<noteq> 0) \<and> membership_current n \<and>
     (\<forall>m \<in> set (nd_msgs n). append_ok m)"

definition logs_ok :: "net \<Rightarrow> bool" where
  "logs_ok s \<longleftrightarrow> (\<forall>i n. net_node s i = Some n \<longrightarrow> node_logs_ok n) \<and> (\<forall>m \<in> set (net_wire s). append_ok m)"

subsection \<open>The batch of a replication message\<close>

lemma tl_drop_subset: "0 < k \<Longrightarrow> set (drop k xs) \<subseteq> set (tl xs)"
  by (cases xs; cases k) (auto dest: in_set_dropD)

lemma append_message_ok:
  assumes "node_wf n" "node_logs_ok n"
  shows "append_ok (append_message n p)"
proof -
  define x where "x = Mapping.lookup_default 0 (nd_next n) p"
  have wf: "log_wf (nd_log n)" and ok: "sorted (map e_term (entries (nd_log n)))"
    using assms by (auto simp: node_wf_def node_logs_ok_def terms_sorted_def)
  have es: "m_entries (append_message n p) = drop (unat x) (entries (nd_log n))"
    by (simp add: append_message_def x_def entries_from_drop[OF wf])
  show ?thesis
  proof (cases "x = 0 \<or> length (entries (nd_log n)) \<le> unat x")
    case True
    then show ?thesis
      using es log_wfD(2)[OF wf] by (auto simp: append_ok_def)
  next
    case False
    let ?k = "unat x"
    have k: "0 < ?k" "?k < length (entries (nd_log n))" "unat (x - 1) = ?k - 1"
      "?k - 1 < length (entries (nd_log n))"
      using False by (auto simp: unat_gt_0 unat_minus_one)
    have "m_log_term (append_message n p) = e_term (entries (nd_log n) ! (?k - 1))"
      using k by (simp add: append_message_def x_def[symmetric] term_or_zero_nth[OF wf])
    moreover have "sorted (map e_term (drop (?k - 1) (entries (nd_log n))))"
      using ok by (simp add: drop_map[symmetric])
    moreover have "drop (?k - 1) (entries (nd_log n)) = entries (nd_log n) ! (?k - 1) # drop ?k (entries (nd_log n))"
      using k by (metis Cons_nth_drop_Suc Suc_diff_1 Suc_lessD)
    ultimately have "sorted (m_log_term (append_message n p) # map e_term (m_entries (append_message n p)))"
      using es by simp
    moreover have "batch_at (Suc (unat (m_index (append_message n p)))) (m_entries (append_message n p))"
      using k es batch_at_drop[OF wf, of ?k] by (simp add: append_message_def x_def[symmetric])
    moreover have "\<forall>e \<in> set (m_entries (append_message n p)). e_term e \<le> m_term (append_message n p) \<and> e_term e \<noteq> 0"
      using assms(2) es tl_drop_subset[OF k(1), of "entries (nd_log n)"]
      by (auto simp: node_logs_ok_def append_message_def dest: in_set_dropD)
    ultimately show ?thesis by (simp add: append_ok_def)
  qed
qed

subsection \<open>Accepting it\<close>

lemma set_tl_merge_at: "0 < k \<Longrightarrow> set (tl (merge_at k es old)) \<subseteq> set (tl old) \<union> set es"
proof (induction k es old rule: merge_at.induct)
  case (1 k old)
  then show ?case by simp
next
  case (2 k e es old)
  have "set (tl (take k old @ e # es)) \<subseteq> set (tl old) \<union> set (e # es)"
    using 2(2) by (cases old; cases k) (auto dest: in_set_takeD)
  with 2 show ?case by auto
qed

lemma set_merge_at: "set (merge_at k es old) \<subseteq> set old \<union> set es"
  by (induction k es old rule: merge_at.induct) (auto dest: in_set_takeD)

lemma sorted_take_append:
  assumes "sorted (map e_term old)" "0 < k" "k \<le> length old"
    and "e_term (old ! (k - 1)) \<le> t" "sorted (t # ts)"
  shows "sorted (map e_term (take k old) @ t # ts)"
proof -
  have "e_term x \<le> t" if x: "x \<in> set (take k old)" for x
  proof -
    obtain j where "j < k" "j < length old" "x = old ! j"
      using x assms(3) by (auto simp: in_set_conv_nth)
    then have "e_term x \<le> e_term (old ! (k - 1))"
      using sorted_nth_mono[OF assms(1), of j "k - 1"] assms(2,3) by simp
    then show ?thesis using assms(4) by simp
  qed
  moreover have "sorted (map e_term (take k old))"
    using assms(1) by (simp add: take_map[symmetric] sorted_wrt_take)
  ultimately show ?thesis
    using assms(5) by (fastforce simp: sorted_append intro: order_trans)
qed

lemma sorted_merge_at:
  "sorted (map e_term old) \<Longrightarrow> sorted (e_term (old ! (k - 1)) # map e_term es) \<Longrightarrow> 0 < k \<Longrightarrow> k \<le> length old \<Longrightarrow>
   sorted (map e_term (merge_at k es old))"
proof (induction k es old rule: merge_at.induct)
  case (1 k old)
  then show ?case by simp
next
  case (2 k e es old)
  show ?case
  proof (cases "k < length old \<and> e_term (old ! k) = e_term e")
    case True
    then show ?thesis using 2 by simp
  next
    case False
    then show ?thesis
      using sorted_take_append[OF 2(2) 2(4,5), of "e_term e" "map e_term es"] 2(3) by auto
  qed
qed

lemma accepted_batch:
  assumes "log_wf l" "append_ok m" "m_type m = MsgAppend" "log_term l (m_index m) = Some (m_log_term m)"
  obtains "log_append (m_entries m) l = Failed ZeroIndexEntry l"
  | "log_append (m_entries m) l = Done (l\<lparr>entries := merge_at (Suc (unat (m_index m))) (m_entries m) (entries l)\<rparr>)"
    "unat (m_index m) < length (entries l)" "e_term (entries l ! unat (m_index m)) = m_log_term m"
    "m_entries m = [] \<or> sorted (m_log_term m # map e_term (m_entries m)) \<and>
       (\<forall>e \<in> set (m_entries m). e_term e \<le> m_term m \<and> e_term e \<noteq> 0)"
proof -
  have prev: "unat (m_index m) < length (entries l)" "e_term (entries l ! unat (m_index m)) = m_log_term m"
    using assms(1,4) by (auto simp: log_term_nth split: if_splits)
  consider "m_entries m = []" | "m_entries m \<noteq> []" "e_index (hd (m_entries m)) = 0"
    | "batch_at (Suc (unat (m_index m))) (m_entries m)"
      "sorted (m_log_term m # map e_term (m_entries m)) \<and>
       (\<forall>e \<in> set (m_entries m). e_term e \<le> m_term m \<and> e_term e \<noteq> 0)"
    using assms(2,3) unfolding append_ok_def by blast
  then show ?thesis
  proof cases
    case 1
    then show ?thesis using that(2) prev by simp
  next
    case 2
    then show ?thesis using that(1) by (cases "m_entries m") auto
  next
    case 3
    then show ?thesis using that(2) prev log_append_merge[OF assms(1) 3(1)] by simp
  qed
qed

lemma node_logs_ok_emit:
  "node_logs_ok n \<Longrightarrow> (\<forall>m \<in> set ms. append_ok m) \<Longrightarrow> node_logs_ok (emit ms n)"
  by (auto simp: node_logs_ok_def)

lemma not_append_ok [simp]:
  "ty \<noteq> MsgAppend \<Longrightarrow> append_ok (reply_message ty m i rej n)"
  "ty \<noteq> MsgAppend \<Longrightarrow> append_ok (request_message ty t n p)"
  by (simp_all add: append_ok_def reply_message_def request_message_def)

lemma store_batch_logs_ok:
  assumes "node_wf n" "node_logs_ok n" "append_ok m" "m_type m = MsgAppend" "m_term m = nd_term n"
    "log_term (nd_log n) (m_index m) = Some (m_log_term m)" "log_append (m_entries m) (nd_log n) = Done l"
    "nd_role n = Follower"
  shows "node_logs_ok (store_batch m l n)"
proof -
  let ?es = "entries (nd_log n)" and ?k = "Suc (unat (m_index m))"
  have wf: "log_wf (nd_log n)" using assms(1) by (simp add: node_wf_def)
  from accepted_batch[OF wf assms(3,4,6)] show ?thesis
  proof cases
    case 1
    then show ?thesis using assms(7) by simp
  next
    case 2
    have l: "entries l = merge_at ?k (m_entries m) ?es"
      using 2(1) assms(7) by simp
    have "sorted (map e_term (merge_at ?k (m_entries m) ?es))"
      using 2 assms(2) sorted_merge_at[of ?es ?k "m_entries m"]
      by (cases "m_entries m = []") (auto simp: node_logs_ok_def terms_sorted_def)
    moreover have "\<forall>e \<in> set (entries l). e_term e \<le> nd_term n"
      using 2(4) l assms(2,5) set_merge_at[of ?k "m_entries m" ?es] by (auto simp: node_logs_ok_def)
    moreover have "\<forall>e \<in> set (tl (entries l)). e_term e \<noteq> 0"
      using 2(4) l assms(2) set_tl_merge_at[of ?k "m_entries m" ?es] by (auto simp: node_logs_ok_def)
    ultimately show ?thesis
      using l assms(2,7,8) membership_current_store_batch[of n m l]
      by (simp add: node_logs_ok_def terms_sorted_def)
  qed
qed

subsection \<open>Every run keeps the logs in shape\<close>

lemma micro_logs_ok:
  assumes "micro False r n n'" "node_wf n" "node_logs_ok n" "\<And>m. r = Some m \<Longrightarrow> append_ok m"
  shows "node_logs_ok n'"
  using assms(1)
proof (cases rule: micro.cases)
  case (send_entries p)
  then show ?thesis
    using assms(2,3) by (simp add: node_logs_ok_emit append_message_ok)
next
  case (append_own d)
  have "node_logs_ok n" "membership_current (appended d n)"
    using assms(3) membership_current_appended by (auto simp: node_logs_ok_def)
  then show ?thesis
    using append_own assms(2)
    by (auto simp: node_logs_ok_def terms_sorted_def sorted_append proposed_entry_def node_wf_def log_wf_def)
next
  case (append_failed m err l)
  have "log_wf (nd_log n)" using assms(2) by (simp add: node_wf_def)
  from accepted_batch[OF this assms(4)[OF append_failed(2)] append_failed(3,6)] show ?thesis
    using append_failed assms(3) by cases auto
next
  case (append_batch m l)
  then show ?thesis
    using store_batch_logs_ok[OF assms(2,3) assms(4)] by simp
next
  case (step_down m l)
  then show ?thesis
    using assms(3) by (auto simp: node_logs_ok_def membership_current_def intro: order_trans)
next
  case (campaign m vs)
  then show ?thesis
    using assms(3)
    by (auto simp: node_logs_ok_def membership_current_def campaigning_def word_le_unat unat_plus_one
        intro: le_SucI)
next
  case (grant_vote m)
  then show ?thesis
    using assms(3) by (auto simp: node_logs_ok_def membership_current_def)
qed (use assms(3) in \<open>auto simp: node_logs_ok_emit\<close>,
    auto simp: node_logs_ok_def membership_current_def leading_def)

lemma start_node:
  assumes "net_start s" "net_node s i = Some n"
  shows "nd_role n = Follower" "nd_term n = 0" "nd_vote n = 0" "entries (nd_log n) = [zero_entry]"
    "nd_msgs n = []" "membership_current n" "nd_votes n = None" "\<not> nd_pre_vote n" "nd_log n = new_log"
    "nd_unstable n = []"
  using assms
  by (force simp: net_start_def new_node_def new_log_def recompute_membership_eq membership_current_def
      split: if_splits)+

lemma start_logs_ok: "net_start s \<Longrightarrow> logs_ok s"
  using start_node by (fastforce simp: logs_ok_def node_logs_ok_def terms_sorted_def net_start_def)

lemma drive_logs_ok:
  assumes "logs_ok s" "net_node s i = Some n"
  shows "logs_ok (drive i n s)"
proof -
  have "node_logs_ok (advance n)" "\<forall>m \<in> set (nd_msgs n). append_ok m"
    using assms by (auto simp: logs_ok_def node_logs_ok_def advance_def membership_current_def)
  then show ?thesis using assms by (auto simp: logs_ok_def)
qed

interpretation logs_in_shape: run_invariant L V logs_ok for L V
proof unfold_locales
  fix s0 s i n r n1 n2
  assume "wf_net s" "logs_ok s" "net_node s i = Some n" "receivable r i s" "micro False r n n1"
  then show "logs_ok (put_node i n1 s)"
    using micro_logs_ok[of r n n1] by (auto simp: logs_ok_def wf_net_def receivable_def)
qed (auto intro: start_logs_ok drive_logs_ok)

lemma reachable_logs_ok: "reachable s \<Longrightarrow> logs_ok s \<and> wf_net s"
  unfolding reachable_def using logs_in_shape.in_run run_wf by blast

text \<open>So the commit rule of the previous theory applies in every reachable state.\<close>

lemma reachable_log_terms_ok: "reachable s \<Longrightarrow> net_node s i = Some n \<Longrightarrow> log_terms_ok n"
  using reachable_logs_ok[of s] by (auto simp: logs_ok_def wf_net_def node_logs_ok_def node_wf_def log_terms_ok_def)

end
