(* ===== verification/Log_Matching.thy ===== *)
theory Log_Matching
  imports Net_Logs
begin

section \<open>Log matching\<close>

text \<open>
  In every run in which no term has two leaders, two logs that hold an entry with the same index
  and term are identical up to that entry. The invariant keeps the set \<open>H\<close> of all logs any replica
  ever had: they match pairwise, every replication message is a suffix of one of them, and an
  entry's term names a leader that, while it still leads, holds that entry.
\<close>

definition matching :: "entry list \<Rightarrow> entry list \<Rightarrow> bool" where
  "matching a b \<longleftrightarrow> (\<forall>k. k < length a \<longrightarrow> k < length b \<longrightarrow> e_term (a ! k) = e_term (b ! k) \<longrightarrow>
     take (Suc k) a = take (Suc k) b)"

definition single_leader :: "(u64 \<times> node_id) set \<Rightarrow> bool" where
  "single_leader L \<longleftrightarrow> (\<forall>t i j. (t, i) \<in> L \<longrightarrow> (t, j) \<in> L \<longrightarrow> i = j)"

definition suffix_of :: "message \<Rightarrow> entry list \<Rightarrow> bool" where
  "suffix_of m a \<longleftrightarrow> (m_type m = MsgAppend \<longrightarrow> m_entries m = [] \<or> e_index (hd (m_entries m)) = 0 \<or>
     unat (m_index m) < length a \<and> m_log_term m = e_term (a ! unat (m_index m)) \<and>
     m_entries m = drop (Suc (unat (m_index m))) a)"

definition led_by :: "(u64 \<times> node_id) set \<Rightarrow> net \<Rightarrow> entry list \<Rightarrow> nat \<Rightarrow> bool" where
  "led_by L s a k \<longleftrightarrow> (\<exists>i n. (e_term (a ! k), i) \<in> L \<and> net_node s i = Some n \<and>
     (e_term (a ! k) < nd_term n \<or> nd_term n = e_term (a ! k) \<and>
       (nd_role n = Follower \<or> nd_role n = Leader \<and> k < length (entries (nd_log n)) \<and>
          e_term (entries (nd_log n) ! k) = e_term (a ! k))))"

definition history :: "(u64 \<times> node_id) set \<Rightarrow> net \<Rightarrow> entry list set \<Rightarrow> bool" where
  "history L s H \<longleftrightarrow>
     (\<forall>a \<in> H. \<forall>b \<in> H. matching a b) \<and>
     (\<forall>i n. net_node s i = Some n \<longrightarrow> entries (nd_log n) \<in> H \<and> (nd_role n = Leader \<longrightarrow> (nd_term n, i) \<in> L) \<and>
        (\<forall>m \<in> set (nd_msgs n). \<exists>a \<in> H. suffix_of m a)) \<and>
     (\<forall>m \<in> set (net_wire s). \<exists>a \<in> H. suffix_of m a) \<and>
     (\<forall>a \<in> H. \<forall>k < length a. e_term (a ! k) \<noteq> 0 \<longrightarrow> led_by L s a k)"

definition matched :: "(u64 \<times> node_id) set \<Rightarrow> net \<Rightarrow> bool" where
  "matched L s \<longleftrightarrow> logs_ok s \<and> (single_leader L \<longrightarrow> (\<exists>H. history L s H))"

lemma matching_sym: "matching a b \<Longrightarrow> matching b a"
  by (simp add: matching_def)

lemma matching_refl [simp]: "matching a a"
  by (simp add: matching_def)

lemma matching_take: "matching a b \<Longrightarrow> k < length a \<Longrightarrow> k < length b \<Longrightarrow> e_term (a ! k) = e_term (b ! k) \<Longrightarrow>
   take (Suc k) a = take (Suc k) b"
  by (simp add: matching_def)

subsection \<open>A follower's new log is its old one or the leader's\<close>

lemma merge_at_matching:
  "matching old a \<Longrightarrow> es = drop k a \<Longrightarrow> 0 < k \<Longrightarrow> k \<le> length old \<Longrightarrow> k \<le> length a \<Longrightarrow>
   e_term (old ! (k - 1)) = e_term (a ! (k - 1)) \<Longrightarrow> merge_at k es old = old \<or> merge_at k es old = a"
proof (induction k es old rule: merge_at.induct)
  case (1 k old)
  then show ?case by simp
next
  case (2 k e es old)
  have k: "k < length a" and e: "e = a ! k" and es: "es = drop (Suc k) a"
    using 2(3) by (metis Cons_nth_drop_Suc drop_all list.distinct(1) list.inject not_less)+
  show ?case
  proof (cases "k < length old \<and> e_term (old ! k) = e_term e")
    case True
    have "merge_at (Suc k) es old = old \<or> merge_at (Suc k) es old = a"
      by (rule 2(1)[OF True]) (use 2 True k e es in auto)
    then show ?thesis using True by simp
  next
    case False
    have "take (Suc (k - 1)) old = take (Suc (k - 1)) a"
      using 2 k by (intro matching_take) auto
    then have "take k old @ e # es = a"
      using 2(3,4) by (metis Suc_diff_1 append_take_drop_id)
    then show ?thesis using False by auto
  qed
qed

lemma store_batch_history:
  assumes "node_wf n" "append_ok m" "m_type m = MsgAppend" "a \<in> H" "suffix_of m a" "entries (nd_log n) \<in> H"
    "\<And>x y. x \<in> H \<Longrightarrow> y \<in> H \<Longrightarrow> matching x y"
    "log_term (nd_log n) (m_index m) = Some (m_log_term m)" "log_append (m_entries m) (nd_log n) = Done l"
  shows "entries l \<in> H"
proof -
  let ?es = "entries (nd_log n)"
  have wf: "log_wf (nd_log n)" using assms(1) by (simp add: node_wf_def)
  from accepted_batch[OF wf assms(2,3,8)] show ?thesis
  proof cases
    case 1
    then show ?thesis using assms(9) by simp
  next
    case 2
    have l: "entries l = merge_at (Suc (unat (m_index m))) (m_entries m) ?es"
      using 2(1) assms(9) by simp
    consider "m_entries m = []" | "m_entries m \<noteq> []" "e_index (hd (m_entries m)) = 0"
      | "unat (m_index m) < length a" "m_log_term m = e_term (a ! unat (m_index m))"
        "m_entries m = drop (Suc (unat (m_index m))) a"
      using assms(3,5) unfolding suffix_of_def by blast
    then show ?thesis
    proof cases
      case 1
      then show ?thesis using l assms(6) by simp
    next
      case zero: 2
      then show ?thesis using assms(9) by (cases "m_entries m") auto
    next
      case 3
      then show ?thesis
        using merge_at_matching[OF assms(7)[OF assms(6,4)] 3(3)] 2(2,3) assms(4,6) l by auto
    qed
  qed
qed

lemma append_message_suffix:
  assumes "node_wf n"
  shows "suffix_of (append_message n p) (entries (nd_log n))"
proof -
  define x where "x = Mapping.lookup_default 0 (nd_next n) p"
  have wf: "log_wf (nd_log n)" using assms by (simp add: node_wf_def)
  have es: "m_entries (append_message n p) = drop (unat x) (entries (nd_log n))"
    by (simp add: append_message_def x_def entries_from_drop[OF wf])
  show ?thesis
  proof (cases "x = 0 \<or> length (entries (nd_log n)) \<le> unat x")
    case True
    then show ?thesis using es log_wfD(2)[OF wf] by (auto simp: suffix_of_def)
  next
    case False
    then have "Suc (unat (x - 1)) = unat x" "unat (x - 1) < length (entries (nd_log n))"
      by (auto simp: unat_minus_one unat_gt_0)
    then show ?thesis
      using es by (simp add: suffix_of_def append_message_def x_def[symmetric] term_or_zero_nth[OF wf])
  qed
qed

subsection \<open>The history survives every transition\<close>

lemma historyI:
  assumes "\<And>a b. a \<in> H \<Longrightarrow> b \<in> H \<Longrightarrow> matching a b"
    and "\<And>i n. net_node s i = Some n \<Longrightarrow> entries (nd_log n) \<in> H"
    and "\<And>i n. net_node s i = Some n \<Longrightarrow> nd_role n = Leader \<Longrightarrow> (nd_term n, i) \<in> L"
    and "\<And>i n m. net_node s i = Some n \<Longrightarrow> m \<in> set (nd_msgs n) \<Longrightarrow> \<exists>a \<in> H. suffix_of m a"
    and "\<And>m. m \<in> set (net_wire s) \<Longrightarrow> \<exists>a \<in> H. suffix_of m a"
    and "\<And>a k. a \<in> H \<Longrightarrow> k < length a \<Longrightarrow> e_term (a ! k) \<noteq> 0 \<Longrightarrow> led_by L s a k"
  shows "history L s H"
  using assms unfolding history_def by blast

lemma historyD:
  assumes "history L s H"
  shows "\<And>a b. a \<in> H \<Longrightarrow> b \<in> H \<Longrightarrow> matching a b"
    and "\<And>i n. net_node s i = Some n \<Longrightarrow> entries (nd_log n) \<in> H"
    and "\<And>i n. net_node s i = Some n \<Longrightarrow> nd_role n = Leader \<Longrightarrow> (nd_term n, i) \<in> L"
    and "\<And>i n m. net_node s i = Some n \<Longrightarrow> m \<in> set (nd_msgs n) \<Longrightarrow> \<exists>a \<in> H. suffix_of m a"
    and "\<And>m. m \<in> set (net_wire s) \<Longrightarrow> \<exists>a \<in> H. suffix_of m a"
    and "\<And>a k. a \<in> H \<Longrightarrow> k < length a \<Longrightarrow> e_term (a ! k) \<noteq> 0 \<Longrightarrow> led_by L s a k"
  using assms unfolding history_def by blast+

text \<open>A transition that leaves log and outbox alone; only role and term matter.\<close>

lemma history_frame:
  assumes H: "history L s H" and n: "net_node s i = Some n"
    and log: "entries (nd_log n1) \<in> H" and msgs: "\<And>m. m \<in> set (nd_msgs n1) \<Longrightarrow> \<exists>a \<in> H. suffix_of m a"
    and role: "nd_role n1 = Leader \<Longrightarrow> (nd_term n1, i) \<in> L"
    and led: "\<And>a k. a \<in> H \<Longrightarrow> k < length a \<Longrightarrow> e_term (a ! k) \<noteq> 0 \<Longrightarrow> (e_term (a ! k), i) \<in> L \<Longrightarrow>
      e_term (a ! k) < nd_term n \<or> nd_term n = e_term (a ! k) \<and>
        (nd_role n = Follower \<or> nd_role n = Leader \<and> k < length (entries (nd_log n)) \<and>
          e_term (entries (nd_log n) ! k) = e_term (a ! k)) \<Longrightarrow>
      e_term (a ! k) < nd_term n1 \<or> nd_term n1 = e_term (a ! k) \<and>
        (nd_role n1 = Follower \<or> nd_role n1 = Leader \<and> k < length (entries (nd_log n1)) \<and>
          e_term (entries (nd_log n1) ! k) = e_term (a ! k))"
  shows "history L (put_node i n1 s) H"
proof (rule historyI)
  fix a k assume a: "a \<in> H" "k < length a" "e_term (a ! k) \<noteq> 0"
  obtain j nj where j: "(e_term (a ! k), j) \<in> L" "net_node s j = Some nj"
    "e_term (a ! k) < nd_term nj \<or> nd_term nj = e_term (a ! k) \<and>
        (nd_role nj = Follower \<or> nd_role nj = Leader \<and> k < length (entries (nd_log nj)) \<and>
          e_term (entries (nd_log nj) ! k) = e_term (a ! k))"
    using historyD(6)[OF H a] by (auto simp: led_by_def)
  show "led_by L (put_node i n1 s) a k"
  proof (cases "j = i")
    case True
    then have "nj = n" using j(2) n by simp
    then show ?thesis using led[OF a] j True unfolding led_by_def by auto
  next
    case False
    then show ?thesis using j unfolding led_by_def by (intro exI[of _ j] exI[of _ nj]) simp
  qed
qed (use historyD[OF H] log msgs role in \<open>auto split: if_splits\<close>)

lemma history_same_log:
  assumes H: "history L s H" and n: "net_node s i = Some n"
    and "entries (nd_log n1) = entries (nd_log n)" "nd_msgs n1 = nd_msgs n"
    and "nd_role n1 = Leader \<Longrightarrow> nd_role n = Leader \<and> nd_term n1 = nd_term n"
    and "nd_term n < nd_term n1 \<or> nd_term n1 = nd_term n \<and> (nd_role n1 = nd_role n \<or> nd_role n1 = Follower)"
  shows "history L (put_node i n1 s) H"
proof (rule history_frame[OF H n])
  show "entries (nd_log n1) \<in> H" using assms(3) historyD(2)[OF H n] by simp
qed (use assms historyD(3,4)[OF H n] in auto)

lemma history_emit:
  assumes H: "history L s H" and n: "net_node s i = Some n"
    and "entries (nd_log n1) = entries (nd_log n)" "nd_term n1 = nd_term n" "nd_role n1 = nd_role n"
    and "nd_msgs n1 = nd_msgs n @ [m]" "\<exists>a \<in> H. suffix_of m a"
  shows "history L (put_node i n1 s) H"
proof (rule history_frame[OF H n])
  show "entries (nd_log n1) \<in> H" using assms(3) historyD(2)[OF H n] by simp
qed (use assms historyD(3,4)[OF H n] in auto)

lemma history_append_own:
  assumes H: "history L s H" and n: "net_node s i = Some n" and leader: "nd_role n = Leader"
    and one: "single_leader L" and pos: "nd_term n \<noteq> 0"
  shows "history L (put_node i (appended d n) s) (insert (entries (nd_log (appended d n))) H)"
proof -
  let ?a = "entries (nd_log n)" and ?e = "proposed_entry d n"
  have e: "e_term ?e = nd_term n" by (simp add: proposed_entry_def)
  have a: "?a \<in> H" and inL: "(nd_term n, i) \<in> L"
    using historyD(2,3)[OF H n] leader by auto
  have grow: "led_by L (put_node i (appended d n) s) b k" if led: "led_by L s b k" for b k
  proof -
    obtain j nj where j: "(e_term (b ! k), j) \<in> L" "net_node s j = Some nj"
      "e_term (b ! k) < nd_term nj \<or> nd_term nj = e_term (b ! k) \<and>
        (nd_role nj = Follower \<or> nd_role nj = Leader \<and> k < length (entries (nd_log nj)) \<and>
          e_term (entries (nd_log nj) ! k) = e_term (b ! k))"
      using led by (auto simp: led_by_def)
    then show ?thesis
      using n unfolding led_by_def
      by (intro exI[of _ j] exI[of _ "if j = i then appended d n else nj"]) (auto simp: nth_append)
  qed
  have fresh: "matching (?a @ [?e]) b" if b: "b \<in> H" for b
    unfolding matching_def
  proof (intro allI impI)
    fix k assume k: "k < length (?a @ [?e])" "k < length b" "e_term ((?a @ [?e]) ! k) = e_term (b ! k)"
    show "take (Suc k) (?a @ [?e]) = take (Suc k) b"
    proof (cases "k < length ?a")
      case True
      then show ?thesis
        using matching_take[OF historyD(1)[OF H a b], of k] k by (simp add: nth_append)
    next
      case False
      then have "k = length ?a" and bk: "e_term (b ! k) = nd_term n"
        using k e by (auto simp: nth_append)
      moreover have "led_by L s b k"
        by (rule historyD(6)[OF H b k(2)]) (use bk pos in simp)
      moreover have "\<not> led_by L s b k"
        using bk False inL one n leader unfolding led_by_def single_leader_def by fastforce
      ultimately show ?thesis by blast
    qed
  qed
  show ?thesis
  proof (rule historyI)
    fix b c assume "b \<in> insert (entries (nd_log (appended d n))) H" "c \<in> insert (entries (nd_log (appended d n))) H"
    then show "matching b c"
      using fresh matching_sym[OF fresh] historyD(1)[OF H] by auto
  next
    fix b k assume b: "b \<in> insert (entries (nd_log (appended d n))) H" "k < length b" "e_term (b ! k) \<noteq> 0"
    show "led_by L (put_node i (appended d n) s) b k"
    proof (cases "b \<in> H")
      case True
      then show ?thesis using grow historyD(6)[OF H _ b(2,3)] by blast
    next
      case new: False
      then have b_eq: "b = ?a @ [?e]" using b(1) by simp
      show ?thesis
      proof (cases "k < length ?a")
        case True
        then have "led_by L (put_node i (appended d n) s) ?a k"
          using grow historyD(6)[OF H a True] b(3) b_eq by (simp add: nth_append)
        then show ?thesis using b_eq True by (simp add: led_by_def nth_append)
      next
        case False
        then have "e_term (b ! k) = nd_term n" using b(2) b_eq e by (auto simp: nth_append)
        then show ?thesis
          using inL leader b(2) b_eq False e unfolding led_by_def
          by (intro exI[of _ i] exI[of _ "appended d n"]) auto
      qed
    qed
  qed (use historyD[OF H] n inL leader in \<open>auto split: if_splits\<close>)
qed


lemma not_append_suffix [simp]:
  "ty \<noteq> MsgAppend \<Longrightarrow> suffix_of (reply_message ty m i rej n) a"
  "ty \<noteq> MsgAppend \<Longrightarrow> suffix_of (request_message ty t n p) a"
  by (simp_all add: suffix_of_def reply_message_def request_message_def)

lemma micro_history:
  assumes H: "history L s H" and one: "single_leader L" and n: "net_node s i = Some n"
    and wf: "node_wf n" and ok: "logs_ok s" and r: "receivable r i s"
    and m: "micro False r n n1" "micros False r n1 n2" and rec: "node_recorded L V i n2"
  shows "\<exists>H'. history L (put_node i n1 s) H'"
proof -
  have in_H: "entries (nd_log n) \<in> H" by (rule historyD(2)[OF H n])
  have node_ok: "node_logs_ok n" using ok n by (simp add: logs_ok_def)
  have wire: "\<exists>a \<in> H. suffix_of p a" "append_ok p" if "r = Some p" for p
    using that r ok historyD(5)[OF H] by (auto simp: receivable_def logs_ok_def)
  have same: "\<exists>H'. history L (put_node i n' s) H'"
    if "entries (nd_log n') = entries (nd_log n)" "nd_msgs n' = nd_msgs n"
      "nd_role n' = Leader \<longrightarrow> nd_role n = Leader \<and> nd_term n' = nd_term n"
      "nd_term n < nd_term n' \<or> nd_term n' = nd_term n \<and> (nd_role n' = nd_role n \<or> nd_role n' = Follower)" for n'
    using history_same_log[OF H n that(1,2)] that(3,4) by blast
  have say: "\<exists>H'. history L (put_node i n' s) H'"
    if "entries (nd_log n') = entries (nd_log n)" "nd_term n' = nd_term n" "nd_role n' = nd_role n"
      "nd_msgs n' = nd_msgs n @ [p]" "\<exists>a \<in> H. suffix_of p a" for n' p
    using history_emit[OF H n that] by blast
  from m(1) show ?thesis
  proof (cases rule: micro.cases)
    case (send_entries p)
    then show ?thesis
      using append_message_suffix[OF wf] in_H by (intro say) auto
  next
    case (send_request ty t p)
    then show ?thesis using in_H by (intro say) auto
  next
    case (send_reply p ty rej i')
    then show ?thesis using in_H by (intro say) auto
  next
    case (grant_vote p)
    then show ?thesis using in_H by (intro say) auto
  next
    case (step_down p l)
    then show ?thesis by (intro same) auto
  next
    case (campaign p vs)
    then show ?thesis
      by (intro same) (auto simp: campaigning_def word_less_unat unat_plus_one)
  next
    case (lead p vs)
    have "nd_role n2 = Leader" "nd_term n2 = nd_term n"
      using micros_keep_leading[OF m(2) lead(2,3)] lead by (simp_all add: leading_def)
    then have "(nd_term n, i) \<in> L" using rec by (simp add: node_recorded_def)
    then have "history L (put_node i n1 s) H"
      using lead in_H historyD(4)[OF H n] by (intro history_frame[OF H n]) (auto simp: leading_def)
    then show ?thesis by blast
  next
    case (append_own d)
    then show ?thesis
      using history_append_own[OF H n append_own(2) one] node_ok by (auto simp: node_logs_ok_def)
  next
    case (append_failed p err l)
    have "log_wf (nd_log n)" using wf by (simp add: node_wf_def)
    from accepted_batch[OF this wire(2)[OF append_failed(2)] append_failed(3,6)] have "l = nd_log n"
      using append_failed(7) by cases auto
    then show ?thesis using append_failed by (intro same) auto
  next
    case (append_batch p l)
    obtain a where a: "a \<in> H" "suffix_of p a" using wire(1)[OF append_batch(2)] by blast
    have "entries l \<in> H"
      by (rule store_batch_history[OF wf wire(2) append_batch(3) a in_H historyD(1)[OF H]])
        (use append_batch in auto)
    then have "history L (put_node i n1 s) H"
      using append_batch historyD(4)[OF H n] by (intro history_frame[OF H n]) auto
    then show ?thesis by blast
  qed (intro same; auto)+
qed

lemma start_history: "net_start s \<Longrightarrow> history L s {[zero_entry]}"
  using start_node[of s] by (intro historyI) (auto simp: net_start_def)

lemma drive_history:
  assumes H: "history L s H" and n: "net_node s i = Some n"
  shows "history L (drive i n s) H"
proof -
  have put: "history L (put_node i (advance n) s) H"
    using H historyD(2,3,4)[OF H n] by (intro history_frame[OF H n]) (auto simp: advance_def)
  show ?thesis
  proof (rule historyI)
    fix a k assume "a \<in> H" "k < length a" "e_term (a ! k) \<noteq> 0"
    then show "led_by L (drive i n s) a k"
      using historyD(6)[OF put] by (simp add: led_by_def)
  next
    fix m assume "m \<in> set (net_wire (drive i n s))"
    then show "\<exists>a \<in> H. suffix_of m a"
      using historyD(4)[OF H n] historyD(5)[OF H] by auto
  qed (use historyD(1-4)[OF put] in simp_all)
qed

interpretation logs_match: run_invariant L V "matched L" for L V
proof unfold_locales
  fix s :: net assume "net_start s"
  then show "matched L s"
    using start_history start_logs_ok by (auto simp: matched_def)
next
  fix s0 s i n r n1 n2
  assume a: "run L V s0" "wf_net s" "matched L s" "net_node s i = Some n" "receivable r i s"
    "micro False r n n1" "micros False r n1 n2" "node_recorded L V i n2"
  have "node_wf n" using a by (simp add: wf_net_def)
  then show "matched L (put_node i n1 s)"
    using a micro_history[OF _ _ a(4) _ _ a(5-8)] logs_in_shape.at_micro[OF a(1,2) _ a(4-8)]
    unfolding matched_def by blast
next
  fix s i n assume "matched L s" "net_node s i = Some n"
  then show "matched L (drive i n s)"
    using drive_history drive_logs_ok unfolding matched_def by blast
qed

theorem run_logs_match:
  assumes "run L V s" "single_leader L" "net_node s i = Some n" "net_node s j = Some n'"
  shows "matching (entries (nd_log n)) (entries (nd_log n'))"
proof -
  obtain H where "history L s H"
    using logs_match.in_run[OF assms(1)] assms(2) by (auto simp: matched_def)
  then show ?thesis using historyD(1,2) assms(3,4) by blast
qed

end
