(* ===== verification/Executions.thy ===== *)
theory Executions
  imports Log_Matching
begin

section \<open>Executing a group, step by step\<close>

text \<open>
  An event names the replica that acts and, for a delivery, the number of the message on the wire.
  \<open>run_events\<close> computes the state a schedule leads to; what it computes is reachable, so a schedule
  is a proof that the group can get into its final state.
\<close>

datatype event =
  Tick node_id
| Deliver nat
| Propose node_id bytes
| ConfChange node_id "node_id list" "node_id list"
| AddPeer node_id node_id
| Drive node_id

definition put_left :: "node_id \<Rightarrow> node_outcome \<Rightarrow> net \<Rightarrow> net option" where
  "put_left i r s = map_option (\<lambda>n. put_node i n s) (left_state r)"

fun run_event :: "map_range \<Rightarrow> event \<Rightarrow> net \<Rightarrow> net option" where
  "run_event it (Tick i) s = map_option (\<lambda>n. put_node i (tick it n) s) (net_node s i)"
| "run_event it (Deliver k) s =
     (if k < length (net_wire s)
      then (let m = net_wire s ! k
            in case net_node s (m_to m) of None \<Rightarrow> None | Some n \<Rightarrow> put_left (m_to m) (step it m n) s)
      else None)"
| "run_event it (Propose i data) s =
     (case net_node s i of None \<Rightarrow> None | Some n \<Rightarrow> put_left i (propose data n) s)"
| "run_event it (ConfChange i vs ls) s =
     (case net_node s i of None \<Rightarrow> None | Some n \<Rightarrow> put_left i (propose_conf_change it vs ls n) s)"
| "run_event it (AddPeer i j) s = map_option (\<lambda>n. put_node i (add_known_peer j n) s) (net_node s i)"
| "run_event it (Drive i) s = map_option (\<lambda>n. drive i n s) (net_node s i)"

definition has_room :: "node_id list \<Rightarrow> net \<Rightarrow> bool" where
  "has_room ids s \<longleftrightarrow> list_all (\<lambda>i. case net_node s i of None \<Rightarrow> True | Some n \<Rightarrow> nd_term n + 1 \<noteq> 0) ids"

definition leaders_among :: "(u64 \<times> node_id) list \<Rightarrow> node_id list \<Rightarrow> net \<Rightarrow> bool" where
  "leaders_among L ids s \<longleftrightarrow>
     list_all (\<lambda>i. case net_node s i of None \<Rightarrow> True | Some n \<Rightarrow> nd_role n = Leader \<longrightarrow> (nd_term n, i) \<in> set L) ids"

definition tabulate :: "node_id list \<Rightarrow> net \<Rightarrow> net" where
  \<comment> \<open>the same state, with the replicas in a table: keeps long executions fast\<close>
  "tabulate ids s =
     s\<lparr>net_node := map_of (concat (map (\<lambda>i. case net_node s i of None \<Rightarrow> [] | Some n \<Rightarrow> [(i, n)]) ids))\<rparr>"

fun run_events :: "(u64 \<times> node_id) list \<Rightarrow> node_id list \<Rightarrow> map_range \<Rightarrow> event list \<Rightarrow> net \<Rightarrow> net option" where
  \<comment> \<open>every leader along the way, with its term, is in \<open>L\<close>\<close>
  "run_events L ids it [] s = Some s"
| "run_events L ids it (e # es) s =
     (if has_room ids s
      then (case run_event it e s of
              None \<Rightarrow> None
            | Some s' \<Rightarrow> if leaders_among L ids s' then run_events L ids it es (tabulate ids s') else None)
      else None)"

definition start_group :: "config list \<Rightarrow> net" where
  "start_group cs =
     \<lparr>net_node = fold (\<lambda>c f. case new_node c of Inl e \<Rightarrow> f | Inr n \<Rightarrow> f(c_id c \<mapsto> n)) cs Map.empty,
      net_wire = [], net_applied = (\<lambda>_. [])\<rparr>"

subsection \<open>Schedules prove reachability\<close>

lemma start_group_nodes:
  assumes "fold (\<lambda>c f. case new_node c of Inl e \<Rightarrow> f | Inr n \<Rightarrow> f(c_id c \<mapsto> n)) cs f i = Some n"
    and "\<And>i n. f i = Some n \<Longrightarrow> \<exists>c. new_node c = Inr n \<and> c_id c = i"
  shows "\<exists>c. new_node c = Inr n \<and> c_id c = i"
  using assms
proof (induction cs arbitrary: f)
  case Nil
  then show ?case by simp
next
  case (Cons c cs)
  then show ?case
    by (cases "new_node c") (fastforce split: if_splits)+
qed

lemma start_group_start: "net_start (start_group cs)"
  using start_group_nodes[of cs Map.empty] by (auto simp: net_start_def start_group_def)

lemma start_group_dom: "dom (net_node (start_group cs)) \<subseteq> set (map c_id cs)"
proof -
  have "dom (fold (\<lambda>c f. case new_node c of Inl e \<Rightarrow> f | Inr n \<Rightarrow> f(c_id c \<mapsto> n)) cs f) \<subseteq> dom f \<union> set (map c_id cs)" for f
    by (induction cs arbitrary: f) (fastforce split: sum.splits if_splits)+
  then show ?thesis by (fastforce simp: start_group_def)
qed

lemma run_event_step: "run_event it e s = Some s' \<Longrightarrow> map_order it \<Longrightarrow> net_step s s'"
  by (cases e)
    (auto simp: put_left_def Let_def split: if_splits option.splits intro: net_step.intros nth_mem)

lemma run_event_dom: "run_event it e s = Some s' \<Longrightarrow> dom (net_node s') = dom (net_node s)"
  by (cases e) (auto simp: put_left_def Let_def dom_def split: if_splits option.splits)

lemma has_room_term_room: "has_room ids s \<Longrightarrow> dom (net_node s) \<subseteq> set ids \<Longrightarrow> term_room s"
  by (fastforce simp: has_room_def term_room_def list_all_iff dom_def split: option.splits)

lemma tabulate_same:
  assumes "dom (net_node s) \<subseteq> set ids"
  shows "tabulate ids s = s"
proof -
  have "map_of (concat (map (\<lambda>i. case net_node s i of None \<Rightarrow> [] | Some n \<Rightarrow> [(i, n)]) ids)) =
      (\<lambda>i. if i \<in> set ids then net_node s i else None)"
    by (induction ids) (auto simp: fun_eq_iff map_add_def split: option.splits)
  also have "\<dots> = net_node s"
  proof
    fix i show "(if i \<in> set ids then net_node s i else None) = net_node s i"
      using assms by (cases "net_node s i") auto
  qed
  finally show ?thesis by (simp add: tabulate_def)
qed

lemma leaders_among_recorded: "leaders_among L ids s \<Longrightarrow> dom (net_node s) \<subseteq> set ids \<Longrightarrow> recorded (set L) UNIV s"
  by (fastforce simp: leaders_among_def recorded_def node_recorded_def list_all_iff dom_def split: option.splits)

lemma run_events_run:
  "run_events L ids it es s = Some s' \<Longrightarrow> run (set L) UNIV s \<Longrightarrow> map_order it \<Longrightarrow> dom (net_node s) \<subseteq> set ids \<Longrightarrow>
   run (set L) UNIV s'"
proof (induction L ids it es s rule: run_events.induct)
  case (1 L ids it s)
  then show ?case by simp
next
  case (2 L ids it e es s)
  obtain s1 where s1: "has_room ids s" "run_event it e s = Some s1" "leaders_among L ids s1"
    "run_events L ids it es (tabulate ids s1) = Some s'"
    using 2(2) by (auto split: if_splits option.splits)
  have dom: "dom (net_node s1) \<subseteq> set ids"
    using 2(5) run_event_dom[OF s1(2)] by simp
  have "run (set L) UNIV s1"
    by (rule run.step[OF 2(3) has_room_term_room[OF s1(1) 2(5)] run_event_step[OF s1(2) 2(4)]
          leaders_among_recorded[OF s1(3) dom]])
  then show ?case
    using 2(1)[OF s1(1-4)] 2(4) dom by (simp add: tabulate_same)
qed

lemma schedule_run:
  "run_events L (map c_id cs) sorted_range es (start_group cs) = Some s \<Longrightarrow> run (set L) UNIV s"
  by (rule run_events_run[OF _ run.start sorted_range_order start_group_dom]) (auto intro: start_group_start)

subsection \<open>A group of voters with staggered timeouts, as \<open>NewCluster\<close> and the hosts build them\<close>

definition voter_configs :: "nat \<Rightarrow> config list" where
  "voter_configs k = map (\<lambda>i. \<lparr>c_id = of_nat i, c_peers = map of_nat [1..<Suc k], c_learners = [],
     c_election_tick = 2 + int i, c_heartbeat_tick = 1\<rparr>) [1..<Suc k]"

definition execute :: "(u64 \<times> node_id) list \<Rightarrow> nat \<Rightarrow> event list \<Rightarrow> net option" where
  "execute L k es = run_events L (map c_id (voter_configs k)) sorted_range es (start_group (voter_configs k))"

lemma execute_run: "execute L k es = Some s \<Longrightarrow> run (set L) UNIV s"
  unfolding execute_def by (rule schedule_run)

subsection \<open>What is observed of a run\<close>

definition leads_in :: "net \<Rightarrow> node_id \<Rightarrow> u64 \<Rightarrow> bool" where
  "leads_in s i t \<longleftrightarrow> (case net_node s i of None \<Rightarrow> False | Some n \<Rightarrow> nd_role n = Leader \<and> nd_term n = t)"

definition voted_for :: "net \<Rightarrow> node_id \<Rightarrow> node_id option" where
  "voted_for s i = map_option nd_vote (net_node s i)"

definition applied_data :: "net \<Rightarrow> node_id \<Rightarrow> bytes list" where
  "applied_data s i = map e_data (net_applied s i)"

definition log_data :: "net \<Rightarrow> node_id \<Rightarrow> (u64 \<times> bytes) list" where
  "log_data s i = (case net_node s i of None \<Rightarrow> [] | Some n \<Rightarrow> map (\<lambda>e. (e_term e, e_data e)) (entries (nd_log n)))"

lemma execute_witness:
  assumes "map_option f (execute L k es) = Some x"
  shows "\<exists>s. run (set L) UNIV s \<and> f s = x"
  using assms execute_run[of L k es] by blast

lemma single_leader_list: "distinct (map fst L) \<Longrightarrow> single_leader (set L)"
  unfolding single_leader_def by (metis eq_key_imp_eq_value)

lemma run_events_dom:
  "run_events L ids it es s = Some s' \<Longrightarrow> dom (net_node s) \<subseteq> set ids \<Longrightarrow> dom (net_node s') \<subseteq> set ids"
proof (induction L ids it es s rule: run_events.induct)
  case (1 L ids it s)
  then show ?case by simp
next
  case (2 L ids it e es s)
  then show ?case
    using run_event_dom[of it e s] by (auto simp: tabulate_same split: if_splits option.splits)
qed

lemma execute_room_witness:
  assumes "map_option (\<lambda>s. (has_room (map c_id (voter_configs k)) s, f s)) (execute L k es) = Some (True, x)"
  shows "\<exists>s. run (set L) UNIV s \<and> term_room s \<and> f s = x"
proof -
  obtain s where s: "execute L k es = Some s" "has_room (map c_id (voter_configs k)) s" "f s = x"
    using assms by auto
  then have "term_room s"
    using run_events_dom[OF s(1)[unfolded execute_def] start_group_dom] by (intro has_room_term_room)
  then show ?thesis using s execute_run by blast
qed

end
