(* ===== verification/Safety_Limits.thy ===== *)
theory Safety_Limits
  imports Executions
begin

section \<open>Schedules that defeat the protocol\<close>

text \<open>
  Three schedules on fresh groups, each a run of the model with no lost state and no fault but
  delay. They mark the limits of the theorems about runs: log matching holds where terms have one
  leader, and these runs show which terms have two, and why one leader per term is not enough for
  replicas to apply the same commands.
\<close>

text \<open>
  Replicas 1 and 3 campaign in term 1. Replica 2 votes for 1, which becomes leader; the leader's
  first replication message makes replica 2 forget that vote, so it votes for 3 too.
\<close>

definition double_vote :: "event list" where
  "double_vote = replicate 3 (Tick 1) @ replicate 5 (Tick 3) @
     [Drive 1, Drive 3, Deliver 0, Deliver 3, Drive 2, Deliver 4, Deliver 5, Drive 1, Drive 3,
      Deliver 6, Drive 2, Deliver 10, Drive 1, Deliver 11, Deliver 9, Drive 2, Deliver 14]"

text \<open>Both leaders then propose; replica 2 acknowledges both, and each leader applies its own.\<close>

definition double_commit :: "event list" where
  "double_commit = double_vote @
     [Propose 1 [1], Propose 3 [2], Drive 1, Drive 3, Deliver 15, Drive 2, Deliver 21, Drive 1,
      Deliver 20, Drive 2, Deliver 24, Drive 3]"

text \<open>
  Five voters. Replica 2, a candidate in term 1 with the vote of replica 5 on its way, starts a new
  pre-vote and stays a candidate; the pre-vote of replica 3 and the vote of replica 5 are counted
  together, though replica 3 voted for the leader of term 1.
\<close>

definition mixed_votes :: "event list" where
  "mixed_votes = replicate 3 (Tick 1) @ [Drive 1] @ replicate 4 (Tick 2) @
     [Drive 2, Deliver 1, Deliver 2, Drive 3, Drive 4, Deliver 8, Deliver 9, Drive 1,
      Deliver 5, Deliver 6, Drive 3, Drive 4, Deliver 14, Deliver 15, Drive 2,
      Deliver 11, Deliver 12, Drive 3, Drive 4, Deliver 20, Deliver 21, Deliver 19, Drive 5] @
     replicate 4 (Tick 2) @ [Drive 2, Deliver 24, Drive 3, Deliver 27, Deliver 22]"

text \<open>
  Five voters, one leader in each of the terms 1, 2 and 3. Replicas 1 and 2 hold two entries of
  term 1 when the leader of term 2 sends them an empty message; they answer with the index of
  their own last entry, and the leader takes that for a copy of its own entry 1.
\<close>

definition phantom_commit :: "event list" where
  "phantom_commit = replicate 3 (Tick 1) @
     [Drive 1, Deliver 0, Deliver 1, Drive 2, Drive 3, Deliver 4, Deliver 5, Drive 1, Deliver 6, Deliver 7,
      Drive 2, Drive 3, Deliver 10, Deliver 11, Propose 1 [1], Propose 1 [2], Drive 1, Deliver 20, Drive 2] @
     replicate 5 (Tick 3) @
     [Drive 3, Deliver 27, Deliver 28, Drive 4, Drive 5, Deliver 29, Deliver 30, Drive 3, Deliver 33,
      Deliver 34, Drive 4, Drive 5, Deliver 35, Deliver 36, Propose 3 [7], Drive 3, Deliver 37, Deliver 38,
      Drive 1, Drive 2, Deliver 45, Deliver 46, Drive 3]"

definition lost_commit :: "event list" where
  "lost_commit = phantom_commit @ replicate 3 (Tick 1) @
     [Drive 1, Deliver 51, Deliver 53, Drive 2, Drive 4, Deliver 55, Deliver 56, Drive 1, Deliver 57,
      Deliver 59, Drive 2, Drive 4, Deliver 61, Deliver 62, Propose 1 [9], Drive 1, Deliver 67, Deliver 69,
      Drive 2, Drive 4, Deliver 71, Deliver 72, Drive 1, Deliver 73, Drive 4, Deliver 74, Drive 1,
      Deliver 75, Drive 4, Deliver 76, Drive 1]"

lemma double_vote_runs:
  "map_option (\<lambda>s. (voted_for s 2, leads_in s 1 1, leads_in s 3 1)) (execute [(1, 1), (1, 3)] 3 double_vote) =
     Some (Some 3, True, True)"
  by code_simp

lemma double_commit_runs:
  "map_option (\<lambda>s. (applied_data s 1, applied_data s 3)) (execute [(1, 1), (1, 3)] 3 double_commit) =
     Some ([[1]], [[2]])"
  by code_simp

lemma mixed_votes_runs:
  "map_option (\<lambda>s. (leads_in s 1 1, leads_in s 2 1)) (execute [(1, 1), (1, 2)] 5 mixed_votes) = Some (True, True)"
  by code_simp

lemma lost_commit_runs:
  "map_option (\<lambda>s. (applied_data s 1, applied_data s 3)) (execute [(1, 1), (2, 3), (3, 1)] 5 lost_commit) =
     Some ([[1], [2], [9]], [[7]])"
  by code_simp




end
