(* ===== verification/Group_Properties.thy ===== *)
theory Group_Properties
  imports Executions
begin

section \<open>What a group of replicas guarantees, and what it does not\<close>

subsection \<open>Every step of every replica\<close>

definition keeps_vote :: "message option \<Rightarrow> node \<Rightarrow> node \<Rightarrow> bool" where
  "keeps_vote r n n' \<longleftrightarrow> nd_term n < nd_term n' \<or> nd_term n' = nd_term n \<and>
     (nd_vote n' = nd_vote n \<or> nd_vote n' = 0 \<and> (\<exists>m. r = Some m \<and> m_type m \<noteq> MsgVote))"

lemma micro_vote_kept:
  assumes "micro False r n1 n2" "nd_vote n \<noteq> 0" "keeps_vote r n n1"
  shows "keeps_vote r n n2"
proof (cases "nd_term n < nd_term n1")
  case True
  then show ?thesis using micro_term[OF assms(1)] by (auto simp: keeps_vote_def)
next
  case False
  with assms(3) have "nd_term n1 = nd_term n" and v: "nd_vote n1 = nd_vote n \<or> nd_vote n1 = 0 \<and> (\<exists>m. r = Some m \<and> m_type m \<noteq> MsgVote)"
    by (auto simp: keeps_vote_def)
  from assms(1) show ?thesis
  proof (cases rule: micro.cases)
    case (grant_vote m)
    then show ?thesis using \<open>nd_term n1 = nd_term n\<close> v assms(2) by (auto simp: keeps_vote_def grants_def)
  qed (use \<open>nd_term n1 = nd_term n\<close> v assms(2) in
      \<open>auto simp: keeps_vote_def campaigning_def leading_def word_less_unat unat_plus_one\<close>)
qed

lemma micros_vote_kept: "micros False r n n' \<Longrightarrow> nd_vote n \<noteq> 0 \<Longrightarrow> keeps_vote r n n'"
proof (induction rule: rtranclp_induct)
  case base
  then show ?case by (simp add: keeps_vote_def)
next
  case (step n1 n2)
  then show ?case using micro_vote_kept by blast
qed

lemma net_step_node:
  assumes "net_step s s'" "wf_net s" "term_room s" "net_node s i = Some n"
  obtains n' r where "net_node s' i = Some n'" "micros False r n n'"
  | "net_node s' i = Some (advance n)"
  using assms(1-3)
proof (cases rule: net_step_cases)
  case (1 j m m' r)
  then show ?thesis using that(1)[of m' r] that(1)[of n r] assms(4) by (cases "i = j") auto
next
  case (2 j m)
  then show ?thesis using that(1)[of n None] that(2) assms(4) by (cases "i = j") auto
qed


text \<open>
  C18: a leader never changes or drops an entry of its own log: whatever happens, afterwards it is
  still leading with a log that extends the old one, or it follows, or its term is over.
\<close>

theorem leader_append_only:
  assumes "run L V s" "term_room s" "net_step s s'" "net_node s i = Some n" "nd_role n = Leader"
  shows "\<exists>n'. net_node s' i = Some n' \<and> extends_while_leading n n'"
  using assms(3) run_wf[OF assms(1)] assms(2,4)
proof (cases rule: net_step_node)
  case (1 n' r)
  then show ?thesis
    using micros_extends[OF 1(2) assms(5)] by blast
next
  case 2
  then show ?thesis using assms(5) by (simp add: advance_def extends_while_leading_def)
qed



subsection \<open>Runs for the witnesses\<close>

text \<open>Replica 1 of three leads with the vote of replica 2; then replica 2 gets its first entry.\<close>

definition one_leader :: "event list" where
  "one_leader = replicate 3 (Tick 1) @
     [Drive 1, Deliver 0, Drive 2, Deliver 2, Drive 1, Deliver 3, Drive 2, Deliver 5]"

definition one_entry :: "event list" where
  "one_entry = one_leader @ [Propose 1 [7], Drive 1, Deliver 8, Drive 2]"

lemma one_leader_runs:
  "map_option (\<lambda>s. (has_room (map c_id (voter_configs 3)) s, leads_in s 1 1, voted_for s 2)) (execute [(1, 1)] 3 one_leader) =
     Some (True, True, Some 1)"
  by code_simp

lemma one_entry_runs:
  "map_option (\<lambda>s. (log_data s 1, log_data s 2)) (execute [(1, 1)] 3 one_entry) =
     Some ([(0, []), (1, [7])], [(0, []), (1, [7])])"
  by code_simp


lemma leader_append_only_witness:
  "\<exists>s s' n n'. run {(1, 1)} UNIV s \<and> net_node s 1 = Some n \<and> nd_role n = Leader \<and>
     left_state (propose [7] n) = Some n' \<and> extends_while_leading n n'"
proof -
  obtain s where s: "run (set [(1, 1)]) UNIV s" "term_room s" "leads_in s 1 1"
    using execute_room_witness[OF one_leader_runs] by auto
  then obtain n where n: "net_node s 1 = Some n" "nd_role n = Leader"
    by (auto simp: leads_in_def split: option.splits)
  obtain n' where n': "left_state (propose [7] n) = Some n'"
    using client.keeps[of n "[7]"] run_wf[OF s(1)] n(1) by (auto simp: wf_net_def)
  show ?thesis
    using leader_append_only[OF s(1,2) net_step.proposed[OF n(1) n'] n] n n' s(1) by fastforce
qed



end
