(* ===== verification/Replica_Properties.thy ===== *)
theory Replica_Properties
  imports Reconfiguration
begin

section \<open>What a single replica guarantees\<close>

text \<open>
  The properties of one replica, each stated over the model's own operations and proved from the
  lemmas of the component theories; the witnesses run them on the replicas below.
\<close>

definition sample_log :: raft_log where
  "sample_log = \<lparr>entries = [zero_entry, \<lparr>e_index = 1, e_term = 1, e_data = [5]\<rparr>, \<lparr>e_index = 2, e_term = 2, e_data = [6]\<rparr>],
     committed = 0, applied = 0\<rparr>"

definition sample_node :: "role \<Rightarrow> membership \<Rightarrow> node" where
  "sample_node r m =
     \<lparr>nd_id = 1, nd_peers = [1, 2, 3, 4], nd_initial_membership = simple_membership {1, 2, 3},
      nd_membership = m, nd_membership_index = 0, nd_role = r, nd_term = 2, nd_vote = 0, nd_leader = 0,
      nd_log = sample_log, nd_election_elapsed = 0, nd_heartbeat_elapsed = 0,
      nd_election_tick = 3, nd_heartbeat_tick = 1, nd_votes = Some {1}, nd_pre_vote = False,
      nd_next = Mapping.update 2 3 (Mapping.update 3 1 Mapping.empty),
      nd_match = Mapping.update 1 2 (Mapping.update 2 2 Mapping.empty),
      nd_msgs = [], nd_unstable = [], nd_last_hard = zero_hard_state\<rparr>"

lemma sample_log_wf [simp]: "log_wf sample_log"
  by (simp add: log_wf_def sample_log_def zero_entry_def All_less_Suc)

lemma sample_node_sel [simp]:
  "nd_id (sample_node r m) = 1" "nd_role (sample_node r m) = r" "nd_term (sample_node r m) = 2"
  "nd_log (sample_node r m) = sample_log" "nd_membership (sample_node r m) = m"
  "nd_membership_index (sample_node r m) = 0" "nd_peers (sample_node r m) = [1, 2, 3, 4]"
  "nd_vote (sample_node r m) = 0" "nd_msgs (sample_node r m) = []" "node_wf (sample_node r m)"
  "last_index sample_log = 2" "committed sample_log = 0" "applied sample_log = 0"
  by (simp_all add: sample_node_def node_wf_def last_index_def) (simp_all add: sample_log_def)

subsection \<open>The log\<close>

text \<open>
  C22: a contiguous batch that starts inside or right after the log is appended without error or
  panic. The result is the log merged with the batch: everything before the batch is kept, every
  entry of the batch is there with its term, and delivering the same batch again changes nothing.
\<close>

theorem append_merges_batch:
  assumes "log_wf l" "batch_at k es" "0 < k" "k \<le> length (entries l)"
  shows "\<exists>l'. log_append es l = Done l' \<and> log_wf l' \<and> take k (entries l') = take k (entries l) \<and>
    entries l' = merge_at k es (entries l) \<and> k + length es \<le> length (entries l') \<and>
    (\<forall>j < length es. e_term (entries l' ! (k + j)) = e_term (es ! j)) \<and>
    committed l' = committed l \<and> log_append es l' = Done l'"
proof -
  let ?es' = "merge_at k es (entries l)"
  let ?l' = "l\<lparr>entries := ?es'\<rparr>"
  have app: "log_append es l = Done ?l'"
    by (rule log_append_merge[OF assms])
  then have wf: "log_wf ?l'" using log_append_wf[OF assms(1), of es] by simp
  have len: "k + length es \<le> length ?es'" and terms: "\<forall>j < length es. e_term (?es' ! (k + j)) = e_term (es ! j)"
    using length_merge_at merge_at_terms assms(4) by blast+
  have "log_append es ?l' = Done (?l'\<lparr>entries := merge_at k es ?es'\<rparr>)"
    using log_append_merge[OF wf assms(2,3)] len by simp
  then have again: "log_append es ?l' = Done ?l'"
    using merge_at_agrees[OF len terms] by simp
  have "take k ?es' = take k (entries l)"
    by (rule merge_at_prefix[OF assms(4) order_refl])
  then show ?thesis
    using app wf len terms again by (intro exI[of _ ?l']) simp
qed

lemma append_merges_batch_witness:
  "\<exists>l'. log_append [\<lparr>e_index = 2, e_term = 3, e_data = [9]\<rparr>] sample_log = Done l' \<and> last_index l' = 2"
proof -
  let ?es = "[\<lparr>e_index = 2, e_term = 3, e_data = [9]\<rparr>]"
  have "log_wf sample_log" "batch_at 2 ?es" "0 < (2::nat)" "2 \<le> length (entries sample_log)"
    by (rule sample_log_wf) (simp_all add: sample_log_def)
  from append_merges_batch[OF this] show ?thesis
    by (auto simp: sample_log_def last_index_def)
qed

subsection \<open>Any message, at any time\<close>

definition operations :: "map_range \<Rightarrow> node \<Rightarrow> node_outcome set" where
  "operations it n = {Done (tick it n), Done (advance n)} \<union> range (\<lambda>m. step it m n) \<union>
     range (\<lambda>d. propose d n) \<union> range (\<lambda>(vs, ls). propose_conf_change it vs ls n) \<union>
     range (\<lambda>p. Done (add_known_peer p n))"

text \<open>
  C21: no operation of a replica panics, whatever message, proposal or configuration it is given;
  the state it leaves, after an error too, is well-formed and of the same replica.
\<close>

theorem replica_never_panics:
  assumes "node_wf n" "r \<in> operations it n"
  shows "\<exists>n'. left_state r = Some n' \<and> node_wf n' \<and> nd_id n' = nd_id n"
proof -
  have adv: "nd_id (advance n) = nd_id n" "node_wf (advance n)"
    using assms(1) by simp_all (simp add: advance_def)
  consider "r = Done (tick it n)" | "r = Done (advance n)" | m where "r = step it m n" | d where "r = propose d n"
    | vs ls where "r = propose_conf_change it vs ls n" | p where "r = Done (add_known_peer p n)"
    using assms(2) unfolding operations_def by auto
  then show ?thesis
  proof cases
    case 1
    then show ?thesis using clock.keeps[OF assms(1), of it] by simp
  next
    case 2
    then show ?thesis using adv by simp
  next
    case 3
    then show ?thesis using receive.keeps[OF assms(1)] by simp
  next
    case 4
    then show ?thesis using client.keeps[OF assms(1)] by simp
  next
    case 5
    then show ?thesis using reconfigure.keeps[OF assms(1)] by simp
  next
    case 6
    then show ?thesis using meet.keeps[OF assms(1)] by simp
  qed
qed

definition hostile_append :: message where
  "hostile_append =
     \<lparr>m_type = MsgAppend, m_from = 9, m_to = 1, m_term = 7, m_index = 99, m_log_term = 5, m_commit = 50,
      m_reject = False, m_entries = [zero_entry]\<rparr>"

lemma replica_never_panics_witness:
  "\<exists>n'. left_state (step sorted_range hostile_append (sample_node Candidate (simple_membership {1, 2, 3}))) = Some n' \<and>
     node_wf n'"
proof -
  let ?n = "sample_node Candidate (simple_membership {1, 2, 3})"
  have "step sorted_range hostile_append ?n \<in> operations sorted_range ?n"
    unfolding operations_def by blast
  then show ?thesis using replica_never_panics[of ?n] by auto
qed

subsection \<open>Votes\<close>

text \<open>
  a request for a vote of the replica's own term is granted exactly when the replica is a
  voter, has not voted for someone else in the term and its own last log position is not beyond the
  candidate's. A grant is recorded and answered; a refusal changes nothing but the outbox.
\<close>

lemma vote_is_earned:
  assumes "m_type m = MsgVote" "m_to m = nd_id n" "m_term m = nd_term n"
  shows "\<exists>n' a. step it m n = Done n' \<and> nd_msgs n' = nd_msgs n @ [a] \<and> m_type a = MsgVoteResp \<and>
    m_to a = m_from m \<and> m_term a = nd_term n \<and>
    (if nd_id n \<in> voters (nd_membership n) \<and> nd_vote n \<in> {0, m_from m} \<and>
        last_position n \<le> LogPosition (m_log_term m) (m_index m)
     then \<not> m_reject a \<and> nd_vote n' = m_from m else m_reject a \<and> n' = n\<lparr>nd_msgs := nd_msgs n @ [a]\<rparr>)"
  using assms
  by (auto simp: step_def Let_def handle_vote_eq grants_def is_voter_def log_up_to_date_iff reply_message_def
      emit_def intro!: exI)

definition vote_request :: "u64 \<Rightarrow> message" where
  "vote_request i =
     \<lparr>m_type = MsgVote, m_from = 2, m_to = 1, m_term = 2, m_index = i, m_log_term = 2, m_commit = 0,
      m_reject = False, m_entries = []\<rparr>"

lemma vote_request_sel [simp]:
  "m_type (vote_request i) = MsgVote" "m_from (vote_request i) = 2" "m_to (vote_request i) = 1"
  "m_term (vote_request i) = 2" "m_index (vote_request i) = i" "m_log_term (vote_request i) = 2"
  by (simp_all add: vote_request_def)

lemma vote_is_earned_witness:
  "(\<exists>n'. step sorted_range (vote_request 2) (sample_node Follower (simple_membership {1, 2, 3})) = Done n' \<and> nd_vote n' = 2) \<and>
   (\<exists>n'. step sorted_range (vote_request 1) (sample_node Follower (simple_membership {1, 2, 3})) = Done n' \<and> nd_vote n' = 0)"
proof -
  let ?n = "sample_node Follower (simple_membership {1, 2, 3})"
  have pos: "last_position ?n = LogPosition 2 2"
    by (simp add: last_position_def last_log_def term_or_zero_nth) (simp add: sample_log_def)
  have "m_type (vote_request i) = MsgVote" "m_to (vote_request i) = nd_id ?n" "m_term (vote_request i) = nd_term ?n" for i
    by simp_all
  note vote = vote_is_earned[OF this, of sorted_range, unfolded pos]
  have "\<exists>n'. step sorted_range (vote_request 2) ?n = Done n' \<and> nd_vote n' = 2"
    using vote[of 2] by (auto simp: less_eq_log_position_def)
  moreover have "\<exists>n'. step sorted_range (vote_request 1) ?n = Done n' \<and> nd_vote n' = 0"
    using vote[of 1] by (auto simp: less_eq_log_position_def word_le_unat)
  ultimately show ?thesis by blast
qed

text \<open>
  Answering a pre-vote, whatever its term, changes nothing but the outbox: no term, no vote and
  no timer moves. It is granted exactly to a later term with a log at least as new, by a voter.
\<close>

lemma pre_vote_is_free:
  assumes "m_type m = MsgPreVote" "m_to m = nd_id n"
  shows "\<exists>a. step it m n = Done (n\<lparr>nd_msgs := nd_msgs n @ [a]\<rparr>) \<and> m_type a = MsgPreVoteResp \<and> m_to a = m_from m \<and>
    (\<not> m_reject a \<longleftrightarrow> nd_id n \<in> voters (nd_membership n) \<and> nd_term n + 1 \<le> m_term m \<and>
       last_position n \<le> LogPosition (m_log_term m) (m_index m))"
  using assms
  by (auto simp: step_def Let_def handle_pre_vote_eq is_voter_def log_up_to_date_iff reply_message_def emit_def
      intro!: exI)

lemma pre_vote_is_free_witness:
  "\<exists>a. step sorted_range ((vote_request 2)\<lparr>m_type := MsgPreVote, m_term := 9\<rparr>) (sample_node Leader (simple_membership {1, 2, 3})) =
     Done ((sample_node Leader (simple_membership {1, 2, 3}))\<lparr>nd_msgs := [a]\<rparr>)"
  using pre_vote_is_free[of "(vote_request 2)\<lparr>m_type := MsgPreVote, m_term := 9\<rparr>"
      "sample_node Leader (simple_membership {1, 2, 3})" sorted_range]
  by (auto simp: vote_request_def)

text \<open>
  a replica that is not a voter stays out of elections: ticking it changes neither its role,
  its term nor its vote, and sends no request for votes or pre-votes.
\<close>

lemma non_voter_never_campaigns:
  assumes "nd_id n \<notin> voters (nd_membership n)"
  shows "nd_role (tick it n) = nd_role n \<and> nd_term (tick it n) = nd_term n \<and> nd_vote (tick it n) = nd_vote n \<and>
    (\<exists>ms. nd_msgs (tick it n) = nd_msgs n @ ms \<and> (\<forall>m \<in> set ms. m_type m = MsgAppend))"
  using assms by (auto simp: tick_def Let_def is_voter_def broadcast_append_eq append_message_def)

lemma non_voter_never_campaigns_witness:
  "nd_term (tick sorted_range ((sample_node Follower (simple_membership {2, 3, 4}))\<lparr>nd_election_elapsed := 100\<rparr>)) = 2"
  using non_voter_never_campaigns[of "(sample_node Follower (simple_membership {2, 3, 4}))\<lparr>nd_election_elapsed := 100\<rparr>"
      sorted_range] by simp

subsection \<open>Commitment\<close>

text \<open>
  C23: advanceCommit commits the highest index that the rule allows (beyond the commit index, of the
  leader's own term, acknowledged by a quorum of the configuration in effect) and nothing when there
  is none, although it tries only acknowledged indices and the last one.
\<close>

theorem advance_commit_max:
  assumes "log_terms_ok n" "nd_term n \<noteq> 0"
  shows "advance_commit it n =
    (if \<exists>c. committable n c then commit_at it (Max {c. committable n c}) n else Done n)"
  by (rule advance_commit_eq[OF assms])

lemma sample_acked: "acked_by (sample_node r m) c = {p \<in> {1, 2}. c \<le> 2}"
  by (auto simp: acked_by_def sample_node_def)

lemma advance_commit_max_witness:
  "\<exists>n'. advance_commit sorted_range (sample_node Leader (simple_membership {1, 2, 3})) = Done n' \<and>
     committed (nd_log n') = 2"
proof -
  let ?n = "sample_node Leader (simple_membership {1, 2, 3})"
  have "log_terms_ok ?n" "nd_term ?n \<noteq> 0"
    by (simp_all add: log_terms_ok_def terms_sorted_def) (simp add: sample_log_def zero_entry_def)
  note adv = advance_commit_max[OF this, of sorted_range]
  have "majority {1, 2, 3} {1, 2}"
    by code_simp
  moreover have "acked_by ?n 2 = {1, 2}"
    by (auto simp: sample_acked)
  ultimately have two: "committable ?n 2"
    by (simp add: committable_def term_or_zero_nth) (simp add: sample_log_def)
  moreover have "c \<le> 2" if "committable ?n c" for c
    using that by (simp add: committable_def)
  ultimately have "Max {c. committable ?n c} = 2"
    by (intro Max_eqI) auto
  then have "advance_commit sorted_range ?n = commit_at sorted_range 2 ?n"
    using adv two by auto
  then show ?thesis
    by (auto simp: commit_at_def maybe_leave_joint_or_step_down_def broadcast_append_eq is_voter_def)
qed

subsection \<open>Replication on a follower\<close>

text \<open>
  a replication message of at least the replica's term whose previous position is in the log
  makes the replica a follower of the sender, merges the batch into its log, raises the commit
  index to the leader's but never past the own log, and is answered with the last index.
\<close>

lemma follower_appends:
  assumes "node_wf n" "m_type m = MsgAppend" "m_to m = nd_id n" "nd_term n \<le> m_term m"
    and "log_term (nd_log n) (m_index m) = Some (m_log_term m)"
    and "batch_at (Suc (unat (m_index m))) (m_entries m)"
  shows "\<exists>n' a. step it m n = Done n' \<and> nd_role n' = Follower \<and> nd_term n' = m_term m \<and> nd_leader n' = m_from m \<and>
    entries (nd_log n') = merge_at (Suc (unat (m_index m))) (m_entries m) (entries (nd_log n)) \<and>
    nd_unstable n' = nd_unstable n @ m_entries m \<and>
    committed (nd_log n') = (if committed (nd_log n) < m_commit m then min (m_commit m) (last_index (nd_log n'))
       else committed (nd_log n)) \<and>
    nd_msgs n' = nd_msgs n @ [a] \<and> m_type a = MsgAppendResp \<and> m_to a = m_from m \<and> m_term a = m_term m \<and>
    \<not> m_reject a \<and> m_index a = last_index (nd_log n')"
proof -
  have wf: "log_wf (nd_log n)" using assms(1) by (simp add: node_wf_def)
  have "unat (m_index m) < length (entries (nd_log n))"
    using assms(5) by (auto simp: log_term_nth[OF wf] split: if_splits)
  then have app: "log_append (m_entries m) (nd_log n) =
      Done ((nd_log n)\<lparr>entries := merge_at (Suc (unat (m_index m))) (m_entries m) (entries (nd_log n))\<rparr>)"
    by (intro log_append_merge[OF wf assms(6)]) auto
  show ?thesis
    using assms(2-5) app
    by (auto simp: step_def Let_def handle_append_def append_resp_eq reply_message_def recompute_membership_eq
        last_index_def emit_def become_follower_def not_less)
qed

definition sample_append :: message where
  "sample_append =
     \<lparr>m_type = MsgAppend, m_from = 2, m_to = 1, m_term = 3, m_index = 1, m_log_term = 1, m_commit = 9,
      m_reject = False, m_entries = [\<lparr>e_index = 2, e_term = 3, e_data = [8]\<rparr>]\<rparr>"

lemma follower_appends_witness:
  "\<exists>n'. step sorted_range sample_append (sample_node Candidate (simple_membership {1, 2, 3})) = Done n' \<and>
     nd_leader n' = 2 \<and> map e_data (entries (nd_log n')) = [[], [5], [8]] \<and> committed (nd_log n') = 2"
proof -
  let ?n = "sample_node Candidate (simple_membership {1, 2, 3})"
  have "node_wf ?n" "m_type sample_append = MsgAppend" "m_to sample_append = nd_id ?n"
    "nd_term ?n \<le> m_term sample_append"
    "log_term (nd_log ?n) (m_index sample_append) = Some (m_log_term sample_append)"
    "batch_at (Suc (unat (m_index sample_append))) (m_entries sample_append)"
    by (simp_all add: sample_append_def log_term_nth word_le_unat) (simp add: sample_log_def)
  from follower_appends[OF this, of sorted_range] show ?thesis
    by (auto simp: sample_append_def sample_log_def last_index_def zero_entry_def word_less_unat min_def word_le_unat)
qed

text \<open>
  A replication message of an older term, or one whose previous position is not in the log, is
  refused; the log, the commit index and the entries to save stay as they are.
\<close>

lemma follower_refuses:
  assumes "m_type m = MsgAppend" "m_to m = nd_id n"
    and "m_term m < nd_term n \<or> log_term (nd_log n) (m_index m) \<noteq> Some (m_log_term m)"
  shows "\<exists>n' a. step it m n = Done n' \<and> nd_log n' = nd_log n \<and> nd_unstable n' = nd_unstable n \<and>
    nd_term n' = max (nd_term n) (m_term m) \<and> nd_msgs n' = nd_msgs n @ [a] \<and> m_type a = MsgAppendResp \<and>
    m_to a = m_from m \<and> m_reject a \<and> m_index a = last_index (nd_log n)"
  using assms
  by (auto simp: step_def Let_def handle_append_def append_resp_eq reply_message_def max_def)

lemma follower_refuses_witness:
  "\<exists>n'. step sorted_range (sample_append\<lparr>m_log_term := 3\<rparr>) (sample_node Leader (simple_membership {1, 2, 3})) = Done n' \<and>
     nd_log n' = sample_log"
proof -
  let ?n = "sample_node Leader (simple_membership {1, 2, 3})" and ?m = "sample_append\<lparr>m_log_term := 3\<rparr>"
  have "m_type ?m = MsgAppend" "m_to ?m = nd_id ?n"
    "m_term ?m < nd_term ?n \<or> log_term (nd_log ?n) (m_index ?m) \<noteq> Some (m_log_term ?m)"
    by (simp_all add: sample_append_def log_term_nth) (simp add: sample_log_def)
  from follower_refuses[OF this, of sorted_range] show ?thesis by auto
qed

subsection \<open>Ready and Advance\<close>

text \<open>
  with the cursors inside the log, Ready hands out exactly the committed entries not handed out
  yet, in order and without gaps; after Advance nothing is handed out a second time.
\<close>

lemma ready_hands_out_once:
  assumes "log_wf (nd_log n)" "applied (nd_log n) \<le> committed (nd_log n)" "committed (nd_log n) \<le> last_index (nd_log n)"
  shows "map (\<lambda>e. unat (e_index e)) (rd_committed_entries (ready n)) =
      [Suc (unat (applied (nd_log n)))..<Suc (unat (committed (nd_log n)))] \<and>
    rd_committed_entries (ready n) =
      drop (Suc (unat (applied (nd_log n)))) (take (Suc (unat (committed (nd_log n)))) (entries (nd_log n))) \<and>
    rd_entries (ready n) = nd_unstable n \<and> rd_messages (ready n) = nd_msgs n \<and>
    rd_committed_entries (ready (advance n)) = [] \<and> rd_entries (ready (advance n)) = [] \<and>
    rd_messages (ready (advance n)) = []"
proof -
  let ?a = "unat (applied (nd_log n))" and ?c = "unat (committed (nd_log n))" and ?es = "entries (nd_log n)"
  have ac: "?a \<le> ?c" and cl: "?c < length ?es"
    using assms length_entries[OF assms(1)] by (auto simp: word_le_unat)
  have slice: "rd_committed_entries (ready n) = drop (Suc ?a) (take (Suc ?c) ?es)"
  proof (cases "?a < ?c")
    case True
    have succ: "unat (applied (nd_log n) + 1) = Suc ?a"
      using True by (simp add: unat_plus_one_less word_less_unat)
    have "entries_from (nd_log n) (applied (nd_log n) + 1) = drop (Suc ?a) ?es"
      by (simp add: entries_from_drop[OF assms(1)] succ)
    moreover have "unat (committed (nd_log n) - applied (nd_log n)) = ?c - ?a"
      using assms(2) by (simp add: unat_sub)
    ultimately show ?thesis
      using True cl by (auto simp: ready_def Let_def word_less_unat drop_take)
  next
    case False
    then show ?thesis using ac by (simp add: ready_def Let_def word_less_unat)
  qed
  have "map (\<lambda>e. unat (e_index e)) (drop (Suc ?a) (take (Suc ?c) ?es)) = [Suc ?a..<Suc ?c]"
    using cl log_wfD(4)[OF assms(1)] by (intro nth_equalityI) (auto simp del: upt_Suc)
  then show ?thesis
    unfolding slice by (simp add: ready_def advance_def Let_def)
qed

lemma ready_hands_out_once_witness:
  "map (\<lambda>e. unat (e_index e)) (rd_committed_entries (ready
      ((sample_node Leader (simple_membership {1, 2, 3}))\<lparr>nd_log := sample_log\<lparr>committed := 2\<rparr>\<rparr>))) = [1, 2]"
proof -
  let ?n = "(sample_node Leader (simple_membership {1, 2, 3}))\<lparr>nd_log := sample_log\<lparr>committed := 2\<rparr>\<rparr>"
  have "log_wf (sample_log\<lparr>committed := 2\<rparr>)" "last_index (sample_log\<lparr>committed := 2\<rparr>) = 2"
    using log_wf_cong[of "sample_log\<lparr>committed := 2\<rparr>" sample_log] by (simp_all add: last_index_def) (simp add: sample_log_def)
  then show ?thesis
    using ready_hands_out_once[of ?n] by (simp add: upt_rec) (simp add: sample_log_def)
qed

subsection \<open>Membership changes\<close>

text \<open>
  a membership change accepted by a leader is in effect, as a joint configuration of the old
  and the new voters, as soon as the entry is appended, before it commits; the entry is one that
  hosts never hand to the application.
\<close>

lemma conf_change_enters_joint:
  assumes "node_wf n" "map_order it" "nd_role n = Leader" "\<not> ms_joint (nd_membership n)" "vs \<noteq> []"
    and "set (vs @ ls) \<subseteq> set (nd_peers n)" "set vs \<inter> set ls = {}" "last_index (nd_log n) + 1 \<noteq> 0"
  shows "\<exists>n' e. propose_conf_change it vs ls n = Done n' \<and>
     nd_membership n' = joint_membership (ms_old (nd_membership n)) (set vs) \<and>
     nd_membership_index n' = last_index (nd_log n) + 1 \<and>
     entries (nd_log n') = entries (nd_log n) @ [e] \<and> e_index e = last_index (nd_log n) + 1 \<and>
     e_term e = nd_term n \<and> is_raft_internal_data (e_data e) \<and>
     committed (nd_log n') = committed (nd_log n)"
  by (rule propose_conf_change_joint[OF assms])

lemma conf_change_enters_joint_witness:
  "\<exists>n'. propose_conf_change sorted_range [2, 3, 4] [] (sample_node Leader (simple_membership {1, 2, 3})) = Done n' \<and>
     nd_membership n' = joint_membership {1, 2, 3} {2, 3, 4}"
  using conf_change_enters_joint[of "sample_node Leader (simple_membership {1, 2, 3})" sorted_range "[2, 3, 4]" "[]"]
  by (auto simp: sorted_range_order)

text \<open>
  a change is refused, with the replica unchanged, by a replica that does not lead, while
  another change is in progress, for an empty set of voters, for a replica whose address is not
  known, and for a replica that would be voter and learner at once.
\<close>

lemma conf_change_refused:
  assumes "nd_role n \<noteq> Leader \<or> ms_joint (nd_membership n) \<or> vs = [] \<or> \<not> set (vs @ ls) \<subseteq> set (nd_peers n) \<or>
     set vs \<inter> set ls \<noteq> {}"
  shows "\<exists>err. propose_conf_change it vs ls n = Failed err n \<and>
    (nd_role n \<noteq> Leader \<longrightarrow> err = ConfChangeNonLeader) \<and>
    (nd_role n = Leader \<and> ms_joint (nd_membership n) \<longrightarrow> err = ConfChangeInProgress)"
  using assms by (auto simp: propose_conf_change_def)

lemma conf_change_refused_witness:
  "propose_conf_change sorted_range [2] [] (sample_node Leader (joint_membership {1} {2})) =
     Failed ConfChangeInProgress (sample_node Leader (joint_membership {1} {2}))"
  using conf_change_refused[of "sample_node Leader (joint_membership {1} {2})" "[2]" "[]" sorted_range] by auto

lemma commit_at_committed:
  "left_state (commit_at it c n) = Some n' \<Longrightarrow> node_wf n \<Longrightarrow> committed (nd_log n') = c"
  by (auto simp: commit_at_def maybe_leave_joint_or_step_down_def propose_leave_joint_def propose_internal_eq
      node_wf_def broadcast_append_eq split: if_splits)

text \<open>
  C24: while the configuration is joint, whatever advanceCommit commits has been acknowledged by a
  majority of the old voters and by a majority of the new ones.
\<close>

theorem joint_commit_needs_two_majorities:
  assumes "node_wf n" "log_terms_ok n" "nd_term n \<noteq> 0" "ms_joint (nd_membership n)"
    and "left_state (advance_commit it n) = Some n'" "committed (nd_log n') \<noteq> committed (nd_log n)"
  shows "majority (ms_old (nd_membership n)) (acked_by n (committed (nd_log n'))) \<and>
    majority (ms_new (nd_membership n)) (acked_by n (committed (nd_log n'))) \<and>
    committed (nd_log n) < committed (nd_log n') \<and> committed (nd_log n') \<le> last_index (nd_log n)"
proof -
  have some: "\<exists>c. committable n c" and n': "left_state (commit_at it (Max {c. committable n c}) n) = Some n'"
    using assms(5,6) unfolding advance_commit_eq[OF assms(2,3)] by (auto split: if_splits)
  have "Max {c. committable n c} \<in> {c. committable n c}"
    using some by (intro Max_in) auto
  then have c: "committable n (committed (nd_log n'))"
    using commit_at_committed[OF n' assms(1)] by simp
  then show ?thesis
    using joint_commit_needs_both[OF c assms(4)] by (simp add: committable_def)
qed

lemma joint_commit_needs_two_majorities_witness:
  "let n = (sample_node Leader (joint_membership {1, 2, 3} {1, 2}))\<lparr>nd_membership_index := 5, nd_peers := [1, 2, 3]\<rparr> in
     \<exists>n'. left_state (advance_commit sorted_range n) = Some n' \<and> majority {1, 2} (acked_by n (committed (nd_log n')))"
proof -
  let ?n = "(sample_node Leader (joint_membership {1, 2, 3} {1, 2}))\<lparr>nd_membership_index := 5, nd_peers := [1, 2, 3]\<rparr>"
  have wf: "node_wf ?n"
    using sample_node_sel(10) by (simp add: node_wf_def)
  have ok: "log_terms_ok ?n" "nd_term ?n \<noteq> 0" "ms_joint (nd_membership ?n)"
    by (simp_all add: log_terms_ok_def terms_sorted_def) (simp add: sample_log_def zero_entry_def)
  have "map_option (\<lambda>n. committed (nd_log n)) (left_state (advance_commit sorted_range ?n)) = Some 2"
    by code_simp
  then obtain n' where "left_state (advance_commit sorted_range ?n) = Some n'" "committed (nd_log n') = 2"
    by auto
  then show ?thesis
    using joint_commit_needs_two_majorities[OF wf ok, of sorted_range n'] by auto
qed



text \<open>
  a leader that the final configuration leaves out stops leading, in its term, when something
  commits under that configuration.
\<close>

lemma removed_leader_resigns:
  assumes "nd_role n = Leader" "\<not> ms_joint (nd_membership n)" "nd_id n \<notin> voters (nd_membership n)"
  shows "\<exists>n'. commit_at it c n = Done n' \<and> nd_role n' = Follower \<and> nd_term n' = nd_term n \<and>
     nd_leader n' = 0 \<and> committed (nd_log n') = c"
  by (rule removed_leader_steps_down[OF assms])

lemma removed_leader_resigns_witness:
  "\<exists>n'. commit_at sorted_range 2 (sample_node Leader (simple_membership {2, 3})) = Done n' \<and> nd_role n' = Follower"
  using removed_leader_resigns[of "sample_node Leader (simple_membership {2, 3})" sorted_range 2] by auto

text \<open>
  quorums of consecutive configurations intersect: two quorums of one configuration, a quorum
  before and one after entering the joint configuration, and a quorum before and one after leaving
  it always share a voter.
\<close>

lemma consecutive_quorums_intersect:
  "(has_quorum m V \<longrightarrow> has_quorum m W \<longrightarrow> (\<exists>v \<in> voters m. v \<in> V \<and> v \<in> W)) \<and>
   (has_quorum (simple_membership S) V \<longrightarrow> has_quorum (joint_membership S T) W \<longrightarrow> (\<exists>v. v \<in> V \<and> v \<in> W)) \<and>
   (has_quorum (joint_membership S T) V \<longrightarrow> has_quorum (simple_membership T) W \<longrightarrow> (\<exists>v. v \<in> V \<and> v \<in> W))"
  using quorum.quorum_overlap enter_joint.handover leave_joint.handover by blast

lemma consecutive_quorums_intersect_witness:
  "\<exists>v. v \<in> {1, 2} \<and> v \<in> {2, 3 :: node_id}"
proof -
  have "has_quorum (simple_membership {1, 2, 3}) {1, 2}" "has_quorum (simple_membership {1, 2, 3}) {2, 3}"
    by code_simp+
  then show ?thesis
    using consecutive_quorums_intersect[of "simple_membership {1, 2, 3}" "{1, 2}" "{2, 3}" "{}" "{}"] by blast
qed

text \<open>
  the entry format of a membership change is read back as it was written, for every list of
  voters and learners, nil ones included.
\<close>

lemma conf_change_roundtrip: "decode_conf_change (marshal_conf_change c) = Some c"
  by (rule conf_change.decode_encode)

subsection \<open>A fresh replica\<close>

definition valid_config :: "config \<Rightarrow> bool" where
  "valid_config c \<longleftrightarrow> c_id c \<noteq> 0 \<and> c_peers c \<noteq> [] \<and> 0 < c_heartbeat_tick c \<and> c_heartbeat_tick c < c_election_tick c \<and>
     c_id c \<in> set (c_peers c) \<and> set (c_learners c) \<subseteq> set (c_peers c) \<and>
     card (set (c_learners c)) < length (c_peers c)"

text \<open>
  NewNode accepts exactly the configurations it documents and then starts a follower in term 0
  with an empty log, whose voters are the peers that are not learners; without repeated peers there
  is at least one.
\<close>

lemma fresh_replica:
  "(\<exists>n. new_node c = Inr n) = valid_config c \<and>
   (\<forall>n. new_node c = Inr n \<longrightarrow> node_wf n \<and> nd_id n = c_id c \<and> nd_role n = Follower \<and> nd_term n = 0 \<and> nd_vote n = 0 \<and>
      nd_log n = new_log \<and> nd_msgs n = [] \<and> membership_current n \<and>
      nd_membership n = simple_membership (set (c_peers c) - set (c_learners c)) \<and>
      (distinct (c_peers c) \<longrightarrow> voters (nd_membership n) \<noteq> {}))"
proof -
  have "set (c_peers c) - set (c_learners c) \<noteq> {}"
    if "distinct (c_peers c)" "card (set (c_learners c)) < length (c_peers c)" "set (c_learners c) \<subseteq> set (c_peers c)"
    using that distinct_card[of "c_peers c"] card_mono[of "set (c_learners c)" "set (c_peers c)"] by auto
  moreover have "(\<exists>n. new_node c = Inr n) = valid_config c"
    by (auto simp: new_node_def valid_config_def)
  moreover have "node_wf n \<and> nd_id n = c_id c \<and> nd_role n = Follower \<and> nd_term n = 0 \<and> nd_vote n = 0 \<and>
      nd_log n = new_log \<and> nd_msgs n = [] \<and> membership_current n \<and>
      nd_membership n = simple_membership (set (c_peers c) - set (c_learners c)) \<and> valid_config c"
    if "new_node c = Inr n" for n
    using that new_node_wf[OF that]
    by (auto simp: new_node_def recompute_membership_eq membership_current_def new_log_def zero_entry_def
        simple_membership_def valid_config_def split: if_splits)
  ultimately show ?thesis
    unfolding valid_config_def by fastforce
qed

lemma fresh_replica_witness:
  "\<exists>n. new_node \<lparr>c_id = 2, c_peers = [1, 2, 3], c_learners = [3], c_election_tick = 4, c_heartbeat_tick = 1\<rparr> = Inr n \<and>
     voters (nd_membership n) = {1, 2}"
  using fresh_replica[of "\<lparr>c_id = 2, c_peers = [1, 2, 3], c_learners = [3], c_election_tick = 4, c_heartbeat_tick = 1\<rparr>"]
  by (auto simp: valid_config_def insert_Diff_if)

text \<open>With a repeated peer the check lets a group without any voter through.\<close>

lemma repeated_peers_no_voter:
  "\<exists>n. new_node \<lparr>c_id = 1, c_peers = [1, 1], c_learners = [1], c_election_tick = 3, c_heartbeat_tick = 1\<rparr> = Inr n \<and>
     voters (nd_membership n) = {}"
  by (simp add: new_node_def recompute_membership_eq zero_entry_def new_log_def voters_def)

lemma lone_voter_tick:
  assumes "map_order it" "nd_role n = Follower" "nd_msgs n = []" "voters (nd_membership n) \<subseteq> {nd_id n}"
  shows "nd_role (tick it n) = Follower \<and> nd_msgs (tick it n) = [] \<and> voters (nd_membership (tick it n)) \<subseteq> {nd_id (tick it n)} \<and>
    nd_term (tick it n) = nd_term n"
proof -
  have "filter (\<lambda>i. i \<noteq> nd_id n) (it (voters (nd_membership n))) = []"
    using assms(4) map_orderD[OF assms(1)] by (auto simp: filter_empty_conv)
  then show ?thesis
    using assms by (simp add: tick_def Let_def start_pre_vote_eq voting_peers_def)
qed

text \<open>
  a group of one voter never gets a leader. Its pre-vote quorum is only counted when an answer
  arrives, and there is nobody to answer: however often it is ticked, it stays a follower in term 0
  that sends nothing.
\<close>

lemma lone_voter_never_leads:
  assumes "map_order it" "new_node c = Inr n" "c_peers c = [c_id c]"
  shows "nd_role ((tick it ^^ k) n) = Follower \<and> nd_term ((tick it ^^ k) n) = 0 \<and> nd_msgs ((tick it ^^ k) n) = []"
proof -
  have n: "nd_role n = Follower" "nd_msgs n = []" "voters (nd_membership n) \<subseteq> {nd_id n}" "nd_term n = 0"
    using assms(2,3)
    by (auto simp: new_node_def recompute_membership_eq new_log_def zero_entry_def voters_def split: if_splits)
  have "nd_role ((tick it ^^ k) n) = Follower \<and> nd_msgs ((tick it ^^ k) n) = [] \<and>
      voters (nd_membership ((tick it ^^ k) n)) \<subseteq> {nd_id ((tick it ^^ k) n)} \<and> nd_term ((tick it ^^ k) n) = 0"
    by (induction k) (use n lone_voter_tick[OF assms(1)] in auto)
  then show ?thesis by blast
qed

lemma lone_voter_never_leads_witness:
  "\<exists>n. new_node \<lparr>c_id = 1, c_peers = [1], c_learners = [], c_election_tick = 3, c_heartbeat_tick = 1\<rparr> = Inr n \<and>
     nd_role ((tick sorted_range ^^ 100) n) = Follower"
proof -
  let ?c = "\<lparr>c_id = 1, c_peers = [1], c_learners = [], c_election_tick = 3, c_heartbeat_tick = 1\<rparr>"
  obtain n where n: "new_node ?c = Inr n"
    by (simp add: new_node_def)
  show ?thesis
    using lone_voter_never_leads[OF sorted_range_order n, of 100] n by auto
qed

end
