(* ===== verification/Byte_Codec.thy ===== *)
theory Byte_Codec
  imports Prelude
begin

section \<open>encoding/binary and hash/crc32: the byte formats of the standard library\<close>

text \<open>
  Big-endian integers of \<open>k\<close> bytes, for \<open>PutUint32\<close>, \<open>Uint32\<close> and \<open>AppendUint64\<close>, and the CRC-32
  of \<open>crc32.ChecksumIEEE\<close>, computed bit by bit. Encoding keeps the value modulo \<open>256 ^ k\<close>, which is
  what the conversion \<open>uint32(len(x))\<close> does too.
\<close>

subsection \<open>Big-endian integers\<close>

fun be_bytes :: "nat \<Rightarrow> nat \<Rightarrow> bytes" where
  "be_bytes 0 n = []"
| "be_bytes (Suc k) n = be_bytes k (n div 256) @ [of_nat (n mod 256)]"

definition be_value :: "bytes \<Rightarrow> nat" where
  "be_value bs = foldl (\<lambda>a b. a * 256 + unat b) 0 bs"

lemma length_be_bytes [simp]: "length (be_bytes k n) = k"
  by (induction k arbitrary: n) auto

lemma be_bytes_eq_Nil [simp]: "be_bytes k n = [] \<longleftrightarrow> k = 0"
  using length_be_bytes[of k n] by (metis length_0_conv)

lemma unat_of_byte: "n < 256 \<Longrightarrow> unat (of_nat n :: byte) = n"
  by (simp add: unat_of_nat take_bit_eq_mod)

lemma be_value_bytes [simp]: "be_value (be_bytes k n) = n mod 256 ^ k"
proof (induction k arbitrary: n)
  case 0
  then show ?case by (simp add: be_value_def)
next
  case (Suc k)
  have "be_value (be_bytes (Suc k) n) = be_value (be_bytes k (n div 256)) * 256 + n mod 256"
    by (simp add: be_value_def unat_of_byte)
  also have "\<dots> = n mod (256 * 256 ^ k)"
    by (simp add: Suc mod_mult2_eq)
  finally show ?case by simp
qed

lemma be_bytes_inj: "be_bytes k m = be_bytes k n \<Longrightarrow> m < 256 ^ k \<Longrightarrow> n < 256 ^ k \<Longrightarrow> m = n"
  by (metis be_value_bytes mod_less)

subsection \<open>CRC-32 (IEEE)\<close>

definition crc_shift :: "u32 \<Rightarrow> u32" where
  "crc_shift s = (if bit s 0 then xor (drop_bit 1 s) 0xEDB88320 else drop_bit 1 s)"

definition crc_byte :: "u32 \<Rightarrow> byte \<Rightarrow> u32" where
  "crc_byte s b = (crc_shift ^^ 8) (xor s (ucast b))"

definition crc32 :: "bytes \<Rightarrow> u32" where
  "crc32 bs = not (foldl crc_byte (not 0) bs)"

lemma crc_byte_unrolled:
  "crc_byte s b = crc_shift (crc_shift (crc_shift (crc_shift (crc_shift (crc_shift (crc_shift (crc_shift (xor s (ucast b)))))))))"
  by (simp add: crc_byte_def eval_nat_numeral)

lemma crc_mask: "mask 31 = (0x7FFFFFFF :: u32)"
  by (simp add: mask_eq_exp_minus_1)

lemmas crc_eval = crc32_def crc_byte_unrolled crc_shift_def crc_mask

text \<open>The check value of the standard.\<close>

lemma crc32_check: "crc32 (ascii ''123456789'') = 0xCBF43926"
  by (simp add: crc_eval ascii_def)

text \<open>One step of the register loses nothing: the polynomial's top bit keeps the bit shifted out.\<close>

lemma bit_crc_shift: "n < 32 \<Longrightarrow> bit (crc_shift s) n \<longleftrightarrow>
   (n < 31 \<and> bit s (Suc n)) \<noteq> (bit s 0 \<and> bit (0xEDB88320 :: u32) n)"
  by (cases "n = 31") (auto simp: crc_shift_def bit_xor_iff bit_drop_bit_eq dest: bit_imp_le_length)

lemma crc_shift_inj: "inj crc_shift"
proof (rule injI)
  fix s t :: u32 assume eq: "crc_shift s = crc_shift t"
  have top: "bit (0xEDB88320 :: u32) 31"
    by code_simp
  have low: "bit s 0 = bit t 0"
    using bit_crc_shift[of 31 s] bit_crc_shift[of 31 t] eq top by simp
  show "s = t"
  proof (rule bit_word_eqI)
    fix n assume n: "n < LENGTH(32)"
    show "bit s n = bit t n"
    proof (cases n)
      case 0
      then show ?thesis using low by simp
    next
      case (Suc m)
      then show ?thesis
        using bit_crc_shift[of m s] bit_crc_shift[of m t] eq low n by auto
    qed
  qed
qed

lemma crc_shift_pow_inj: "inj (crc_shift ^^ k)"
  by (induction k) (auto intro: injI dest: injD[OF crc_shift_inj] injD)

lemma xor_cancel: "xor a c = xor b c \<Longrightarrow> a = (b :: 'a::len word)"
  by (metis xor.assoc xor.right_neutral xor_self_eq)

lemma crc_byte_state: "crc_byte s b = crc_byte t b \<Longrightarrow> s = t"
  unfolding crc_byte_def using crc_shift_pow_inj[of 8] by (auto dest!: injD xor_cancel)

lemma crc_byte_byte: "crc_byte s b = crc_byte s c \<Longrightarrow> b = c"
proof -
  assume "crc_byte s b = crc_byte s c"
  then have "(ucast b :: u32) = ucast c"
    unfolding crc_byte_def using crc_shift_pow_inj[of 8]
    by (metis injD xor_cancel xor.commute)
  moreover have "unat (ucast x :: u32) = unat x" for x :: byte
    using unsigned_less[where ?'a=nat, of x] by (simp add: unsigned_ucast_eq take_bit_nat_eq_self)
  ultimately show "b = c"
    by (metis word_unat_eq_iff)
qed

lemma crc_fold_inj: "foldl crc_byte s bs = foldl crc_byte t bs \<Longrightarrow> s = t"
  by (induction bs arbitrary: s t) (auto dest: crc_byte_state)

text \<open>A changed byte always changes the checksum.\<close>

lemma crc32_one_byte:
  assumes "b \<noteq> c"
  shows "crc32 (xs @ b # ys) \<noteq> crc32 (xs @ c # ys)"
proof
  assume "crc32 (xs @ b # ys) = crc32 (xs @ c # ys)"
  then have "foldl crc_byte (crc_byte (foldl crc_byte (not 0) xs) b) ys =
      foldl crc_byte (crc_byte (foldl crc_byte (not 0) xs) c) ys"
    by (simp add: crc32_def)
  then show False
    using assms crc_fold_inj crc_byte_byte by blast
qed

end
