(* ===== verification/Wal.thy ===== *)
theory Wal
  imports Byte_Codec "HOL-Library.Sublist"
begin

section \<open>internal/storage/wal.go: the write-ahead log\<close>

text \<open>
  The log file is its bytes and how many of them the last successful fsync covers. The operating
  system is an argument: \<open>faults\<close> says, for one operation, how many bytes a failing write still
  wrote and which other calls fail. A crash keeps some prefix of the file that contains the synced
  bytes (\<open>crashed\<close>), which is what an append-only file promises.
\<close>

record wal_record =
  wr_key :: bytes
  wr_value :: bytes

record log_file =
  f_bytes :: bytes
  f_synced :: nat

record wal =
  w_file :: log_file
  w_sync_every :: int
  w_pending :: int

record faults =
  fl_head :: "nat option"     \<comment> \<open>\<open>Some k\<close>: the write of the header fails after \<open>k\<close> bytes\<close>
  fl_payload :: "nat option"
  fl_sync :: bool
  fl_open :: bool             \<comment> \<open>creating the directory or opening the file\<close>
  fl_read :: bool
  fl_truncate :: bool
  fl_close :: bool

definition no_faults :: faults where
  "no_faults = \<lparr>fl_head = None, fl_payload = None, fl_sync = False, fl_open = False, fl_read = False, fl_truncate = False, fl_close = False\<rparr>"

datatype storage_error =
  WriteFailed | SyncFailed | OpenFailed | ReadFailed | TruncateFailed | CloseFailed
| ChecksumMismatch | RecordTooShort | KeyLengthInvalid
| DirRequired | EmptyKey | StoreClosed | KeyNotFound

subsection \<open>Writing\<close>

fun file_write :: "nat option \<Rightarrow> bytes \<Rightarrow> log_file \<Rightarrow> bool \<times> log_file" where
  "file_write None bs f = (True, f\<lparr>f_bytes := f_bytes f @ bs\<rparr>)"
| "file_write (Some k) bs f = (False, f\<lparr>f_bytes := f_bytes f @ take k bs\<rparr>)"

definition wal_payload :: "wal_record \<Rightarrow> bytes" where
  "wal_payload r = be_bytes 4 (length (wr_key r)) @ wr_key r @ wr_value r"

definition wal_head :: "bytes \<Rightarrow> bytes" where
  "wal_head payload = be_bytes 4 (length payload) @ be_bytes 4 (unat (crc32 payload))"

definition wal_sync :: "faults \<Rightarrow> wal \<Rightarrow> (storage_error, wal) outcome" where
  "wal_sync os w =
     (if w_pending w = 0 then Done w
      else if fl_sync os then Failed SyncFailed w
      else Done (w\<lparr>w_file := (w_file w)\<lparr>f_synced := length (f_bytes (w_file w))\<rparr>, w_pending := 0\<rparr>))"

definition wal_append :: "faults \<Rightarrow> wal_record \<Rightarrow> wal \<Rightarrow> (storage_error, wal) outcome" where
  "wal_append os r w =
     (let payload = wal_payload r;
          (ok, f1) = file_write (fl_head os) (wal_head payload) (w_file w);
          w1 = w\<lparr>w_file := f1\<rparr>
      in if \<not> ok then Failed WriteFailed w1
         else let (ok, f2) = file_write (fl_payload os) payload f1;
                  w2 = w1\<lparr>w_file := f2\<rparr>
              in if \<not> ok then Failed WriteFailed w2
                 else let w3 = w2\<lparr>w_pending := w_pending w2 + 1\<rparr>
                      in if w_sync_every w3 > 0 \<and> w_pending w3 \<ge> w_sync_every w3 then wal_sync os w3 else Done w3)"

subsection \<open>Replaying\<close>

datatype scan_end = Complete | Torn | Corrupt storage_error

function scan_wal :: "bytes \<Rightarrow> wal_record list \<times> nat \<times> scan_end" where
  \<comment> \<open>the records, the offset where the loop ended, and why it did\<close>
  "scan_wal data =
     (if data = [] then ([], 0, Complete)
      else if length data < 8 then ([], 0, Torn)
      else let n = be_value (take 4 data);
               sum = be_value (take 4 (drop 4 data));
               rest = drop 8 data
           in if length rest < n then ([], 0, Torn)
              else let p = take n rest
                   in if sum \<noteq> unat (crc32 p) then ([], 0, Corrupt ChecksumMismatch)
                      else if length p < 4 then ([], 0, Corrupt RecordTooShort)
                      else let k = be_value (take 4 p)
                           in if 4 + k > length p then ([], 0, Corrupt KeyLengthInvalid)
                              else let (rs, used, e) = scan_wal (drop n rest)
                                   in (\<lparr>wr_key = take k (drop 4 p), wr_value = drop (4 + k) p\<rparr> # rs, 8 + n + used, e))"
  by pat_completeness auto
termination
  by (relation "measure length") auto

declare scan_wal.simps [simp del]

definition wal_replay :: "faults \<Rightarrow> wal \<Rightarrow> (storage_error, wal) outcome \<times> wal_record list" where
  "wal_replay os w =
     (if fl_read os then (Failed ReadFailed w, [])
      else let (rs, used, e) = scan_wal (f_bytes (w_file w))
           in case e of
                Complete \<Rightarrow> (Done w, rs)
              | Torn \<Rightarrow>
                  if fl_truncate os then (Failed TruncateFailed w, rs)
                  else (Done (w\<lparr>w_file := \<lparr>f_bytes = take used (f_bytes (w_file w)),
                                         f_synced = min used (f_synced (w_file w))\<rparr>\<rparr>), rs)
              | Corrupt err \<Rightarrow> (Failed err w, rs))"

subsection \<open>Records read back\<close>

definition wal_encode :: "wal_record \<Rightarrow> bytes" where
  "wal_encode r = wal_head (wal_payload r) @ wal_payload r"

definition encode_all :: "wal_record list \<Rightarrow> bytes" where
  "encode_all rs = concat (map wal_encode rs)"

definition record_fits :: "wal_record \<Rightarrow> bool" where
  \<comment> \<open>the payload length fits its 32-bit field\<close>
  "record_fits r \<longleftrightarrow> 4 + length (wr_key r) + length (wr_value r) < 2 ^ 32"

lemma encode_all_simps [simp]:
  "encode_all [] = []" "encode_all (r # rs) = wal_encode r @ encode_all rs"
  "encode_all (rs @ rs') = encode_all rs @ encode_all rs'"
  by (simp_all add: encode_all_def)

lemma length_encode_take: "a \<le> b \<Longrightarrow> length (encode_all (take a rs)) \<le> length (encode_all (take b rs))"
proof -
  assume "a \<le> b"
  then have "take b rs = take a rs @ drop a (take b rs)"
    by (metis append_take_drop_id min.absorb1 take_take)
  then show ?thesis
    by (metis encode_all_simps(3) le_add1 length_append)
qed

lemma length_wal_encode: "length (wal_encode r) = 12 + length (wr_key r) + length (wr_value r)"
  by (simp add: wal_encode_def wal_head_def wal_payload_def)

lemma wal_encode_neq_Nil [simp]: "wal_encode r \<noteq> []"
  using length_wal_encode[of r] by auto

lemma unat_crc_bound: "unat (crc32 p) < 256 ^ 4"
  using unsigned_less[where ?'a=nat, of "crc32 p"] by simp

lemma scan_record:
  assumes "record_fits r"
  shows "scan_wal (wal_encode r @ rest) =
    (case scan_wal rest of (rs, used, e) \<Rightarrow> (r # rs, length (wal_encode r) + used, e))"
proof -
  define d where "d = wal_encode r @ rest"
  let ?p = "wal_payload r"
  have len: "length ?p < 256 ^ 4" "length (wr_key r) < 256 ^ 4"
    using assms by (simp_all add: record_fits_def wal_payload_def)
  have d: "d = be_bytes 4 (length ?p) @ be_bytes 4 (unat (crc32 ?p)) @ ?p @ rest"
    by (simp add: wal_encode_def wal_head_def d_def)
  have n: "be_value (take 4 d) = length ?p" "be_value (take 4 (drop 4 d)) = unat (crc32 ?p)"
    "drop 8 d = ?p @ rest"
    unfolding d using len unat_crc_bound[of ?p] by simp_all
  have k: "be_value (take 4 ?p) = length (wr_key r)" "\<not> length ?p < 4" "\<not> 4 + length (wr_key r) > length ?p"
    "take (length (wr_key r)) (drop 4 ?p) = wr_key r" "drop (4 + length (wr_key r)) ?p = wr_value r"
    using len by (simp_all add: wal_payload_def)
  have "d \<noteq> []" "\<not> length d < 8" "length (wal_encode r) = 8 + length ?p"
    by (simp_all add: length_wal_encode wal_payload_def d_def)
  then show ?thesis
    unfolding d_def[symmetric]
    by (subst scan_wal.simps) (simp add: n k Let_def split_def)
qed

lemma scan_encoded:
  "list_all record_fits rs \<Longrightarrow> scan_wal (encode_all rs @ rest) =
     (case scan_wal rest of (rs', used, e) \<Rightarrow> (rs @ rs', length (encode_all rs) + used, e))"
  by (induction rs) (auto simp: scan_record split: prod.splits)

lemma scan_Nil [simp]: "scan_wal [] = ([], 0, Complete)"
  by (subst scan_wal.simps) simp

lemma scan_encode_all: "list_all record_fits rs \<Longrightarrow> scan_wal (encode_all rs) = (rs, length (encode_all rs), Complete)"
  using scan_encoded[of rs "[]"] by simp

subsection \<open>A torn tail\<close>

lemma scan_torn:
  assumes "record_fits r" "strict_prefix t (wal_encode r)" "t \<noteq> []"
  shows "scan_wal t = ([], 0, Torn)"
proof (cases "length t < 8")
  case True
  then show ?thesis using assms(3) by (subst scan_wal.simps) simp
next
  case False
  let ?p = "wal_payload r"
  obtain u where u: "wal_encode r = t @ u" "u \<noteq> []"
    using assms(2) by (auto simp: strict_prefix_def prefix_def)
  have "take 4 t = take 4 (wal_encode r)"
    using u False by simp
  then have n: "be_value (take 4 t) = length ?p"
    using assms(1) by (simp add: wal_encode_def wal_head_def record_fits_def wal_payload_def)
  have "length (wal_encode r) = 8 + length ?p"
    by (simp add: length_wal_encode wal_payload_def)
  then have "length (drop 8 t) < length ?p"
    using u False arg_cong[OF u(1), of length] by (cases u) auto
  then show ?thesis
    using False assms(3) by (subst scan_wal.simps) (simp add: n Let_def)
qed

text \<open>What is left of a log after a crash: whole records, and perhaps a piece of the next one.\<close>

lemma prefix_encode_all:
  "prefix t (encode_all rs) \<Longrightarrow>
   \<exists>k u. k \<le> length rs \<and> t = encode_all (take k rs) @ u \<and>
     (u = [] \<or> k < length rs \<and> strict_prefix u (wal_encode (rs ! k)))"
proof (induction rs arbitrary: t)
  case Nil
  then show ?case by (intro exI[of _ 0]) simp
next
  case (Cons r rs)
  have pre: "prefix t (wal_encode r @ encode_all rs)"
    using Cons.prems by simp
  show ?case
  proof (cases "strict_prefix t (wal_encode r)")
    case True
    then show ?thesis by (intro exI[of _ 0] exI[of _ t]) simp
  next
    case False
    then obtain t' where t': "t = wal_encode r @ t'" "prefix t' (encode_all rs)"
      using pre by (auto simp: prefix_append strict_prefix_def)
    then obtain k u where "k \<le> length rs" "t' = encode_all (take k rs) @ u"
      "u = [] \<or> k < length rs \<and> strict_prefix u (wal_encode (rs ! k))"
      using Cons.IH by blast
    then show ?thesis
      using t' by (intro exI[of _ "Suc k"] exI[of _ u]) auto
  qed
qed

lemma scan_prefix:
  assumes "list_all record_fits rs" "prefix t (encode_all rs)"
  obtains k e where "k \<le> length rs" "scan_wal t = (take k rs, length (encode_all (take k rs)), e)"
    "e = Complete \<and> t = encode_all (take k rs) \<or> e = Torn" "take (length (encode_all (take k rs))) t = encode_all (take k rs)"
    "\<And>j. j \<le> length rs \<Longrightarrow> length (encode_all (take j rs)) \<le> length t \<Longrightarrow> j \<le> k"
proof -
  obtain k u where k: "k \<le> length rs" "t = encode_all (take k rs) @ u"
    "u = [] \<or> k < length rs \<and> strict_prefix u (wal_encode (rs ! k))"
    using prefix_encode_all[OF assms(2)] by blast
  have fits: "list_all record_fits (take k rs)"
    using assms(1) by (auto simp: list_all_iff dest: in_set_takeD)
  have more: "j \<le> k" if "j \<le> length rs" "length (encode_all (take j rs)) \<le> length t" for j
  proof (rule ccontr)
    assume "\<not> j \<le> k"
    then have kl: "k < length rs" "Suc k \<le> j" using that(1) by auto
    have "length u < length (wal_encode (rs ! k))"
      using k(3) by (auto dest: prefix_length_less)
    then have "length t < length (encode_all (take (Suc k) rs))"
      using k(2) kl by (simp add: take_Suc_conv_app_nth)
    also have "\<dots> \<le> length (encode_all (take j rs))"
      using kl(2) by (rule length_encode_take)
    finally show False using that(2) by simp
  qed
  have "scan_wal u = ([], 0, if u = [] then Complete else Torn)"
  proof (cases "u = []")
    case False
    then show ?thesis
      using k(3) assms(1) by (simp add: scan_torn[of "rs ! k"] list_all_length)
  qed simp
  then have "scan_wal t = (take k rs, length (encode_all (take k rs)), if u = [] then Complete else Torn)"
    using scan_encoded[OF fits, of u] k(2) by simp
  then show ?thesis
    using k(1,2) more by (intro that[of k "if u = [] then Complete else Torn"]) auto
qed

subsection \<open>Corruption\<close>

lemma scan_corrupt:
  assumes "record_fits r" "length p = length (wal_payload r)" "crc32 p \<noteq> crc32 (wal_payload r)"
  shows "scan_wal (wal_head (wal_payload r) @ p @ rest) = ([], 0, Corrupt ChecksumMismatch)"
proof -
  define d where "d = wal_head (wal_payload r) @ p @ rest"
  have len: "length (wal_payload r) < 256 ^ 4"
    using assms(1) by (simp add: record_fits_def wal_payload_def)
  have "be_value (take 4 d) = length p" "be_value (take 4 (drop 4 d)) = unat (crc32 (wal_payload r))"
    "drop 8 d = p @ rest" "\<not> length d < 8" "d \<noteq> []"
    using len unat_crc_bound[of "wal_payload r"] assms(2) by (simp_all add: wal_head_def d_def)
  then show ?thesis
    unfolding d_def[symmetric]
    using assms(3) by (subst scan_wal.simps) (auto simp: Let_def word_unat_eq_iff)
qed

subsection \<open>The file of a log that saw no write error\<close>

definition wal_holds :: "wal_record list \<Rightarrow> nat \<Rightarrow> wal \<Rightarrow> bool" where
  \<comment> \<open>\<open>w\<close> consists of the records \<open>rs\<close>, the first \<open>d\<close> of which are on disk\<close>
  "wal_holds rs d w \<longleftrightarrow> f_bytes (w_file w) = encode_all rs \<and> d \<le> length rs \<and>
     length (encode_all (take d rs)) \<le> f_synced (w_file w) \<and> f_synced (w_file w) \<le> length (f_bytes (w_file w)) \<and>
     0 \<le> w_pending w \<and> (w_pending w = 0 \<longrightarrow> d = length rs)"

definition crashed :: "log_file \<Rightarrow> log_file \<Rightarrow> bool" where
  "crashed f f' \<longleftrightarrow> prefix (f_bytes f') (f_bytes f) \<and> f_synced f \<le> length (f_bytes f') \<and>
     f_synced f' = length (f_bytes f')"

lemma wal_sync_holds:
  assumes "wal_holds rs d w"
  shows "wal_sync os w = Failed SyncFailed w \<or> (\<exists>w'. wal_sync os w = Done w' \<and> wal_holds rs (length rs) w' \<and>
    w_sync_every w' = w_sync_every w)"
  using assms by (auto simp: wal_sync_def wal_holds_def)

lemma wal_append_holds:
  assumes "wal_holds rs d w" "fl_head os = None" "fl_payload os = None"
  obtains w' d' where "left_state (wal_append os r w) = Some w'" "wal_holds (rs @ [r]) d' w'" "d \<le> d'"
    "w_sync_every w' = w_sync_every w"
proof -
  let ?w1 = "w\<lparr>w_file := (w_file w)\<lparr>f_bytes := encode_all (rs @ [r])\<rparr>, w_pending := w_pending w + 1\<rparr>"
  have w1: "wal_append os r w =
      (if w_sync_every w > 0 \<and> w_pending w + 1 \<ge> w_sync_every w then wal_sync os ?w1 else Done ?w1)"
    using assms by (simp add: wal_append_def Let_def wal_encode_def wal_holds_def)
  have h1: "wal_holds (rs @ [r]) d ?w1"
    using assms(1) by (auto simp: wal_holds_def)
  show ?thesis
    using wal_sync_holds[OF h1, of os] h1 that[of ?w1 d] that[of _ "length (rs @ [r])"] w1
    by (fastforce simp: wal_holds_def split: if_splits)
qed

end
