(* ===== verification/Engine.thy ===== *)
theory Engine
  imports Wal "HOL-Library.List_Lexorder"
begin

section \<open>internal/storage/engine.go: the key-value store\<close>

text \<open>
  \<open>DB\<close> is the log plus the current value of every key. Keys are compared as \<open>bytes.Compare\<close> does,
  which is the order \<^typ>\<open>byte list\<close> has in \<open>List_Lexorder\<close>. The mutex only orders the calls, so an
  operation is one function. The contract the Raft side relies on is the locale \<open>crash_store\<close>:
  what was put before a sync is there after a crash; the end of the theory interprets it.
\<close>

record options =
  op_dir :: string
  op_sync_every :: int

record db =
  db_wal :: wal
  db_data :: "(bytes, bytes) mapping"
  db_closed :: bool

definition apply_record :: "wal_record \<Rightarrow> (bytes, bytes) mapping \<Rightarrow> (bytes, bytes) mapping" where
  "apply_record r d = Mapping.update (wr_key r) (wr_value r) d"

definition db_open :: "faults \<Rightarrow> options \<Rightarrow> log_file option \<Rightarrow> storage_error + db" where
  \<comment> \<open>the last argument is the file in the directory, if there is one\<close>
  "db_open os opts existing =
     (if op_dir opts = '''' then Inl DirRequired
      else if fl_open os then Inl OpenFailed
      else let f = (case existing of None \<Rightarrow> \<lparr>f_bytes = [], f_synced = 0\<rparr> | Some f \<Rightarrow> f);
               w = \<lparr>w_file = f, w_sync_every = op_sync_every opts, w_pending = 0\<rparr>
           in case wal_replay os w of
                (Done w', rs) \<Rightarrow> Inr \<lparr>db_wal = w', db_data = fold apply_record rs Mapping.empty, db_closed = False\<rparr>
              | (Failed e w', rs) \<Rightarrow> Inl e
              | (Panic, rs) \<Rightarrow> Inl ReadFailed)"

definition db_put :: "faults \<Rightarrow> bytes \<Rightarrow> bytes \<Rightarrow> db \<Rightarrow> (storage_error, db) outcome" where
  "db_put os k v d =
     (if k = [] then Failed EmptyKey d
      else if db_closed d then Failed StoreClosed d
      else and_then (wal_append os \<lparr>wr_key = k, wr_value = v\<rparr> (db_wal d))
             (\<lambda>w. Done (d\<lparr>db_wal := w, db_data := Mapping.update k v (db_data d)\<rparr>))
             (\<lambda>w. d\<lparr>db_wal := w\<rparr>))"

definition db_get :: "bytes \<Rightarrow> db \<Rightarrow> storage_error + bytes" where
  "db_get k d =
     (if db_closed d then Inl StoreClosed
      else case Mapping.lookup (db_data d) k of None \<Rightarrow> Inl KeyNotFound | Some v \<Rightarrow> Inr v)"

definition in_range :: "bytes \<Rightarrow> bytes \<Rightarrow> bytes \<Rightarrow> bool" where
  "in_range start end k \<longleftrightarrow> start \<le> k \<and> (end = [] \<or> k < end)"

definition db_scan :: "bytes \<Rightarrow> bytes \<Rightarrow> db \<Rightarrow> (bytes \<times> bytes) list" where
  "db_scan start end d =
     map (\<lambda>k. (k, Mapping.lookup_default [] (db_data d) k))
       (filter (in_range start end) (sorted_list_of_set (Mapping.keys (db_data d))))"

definition db_sync :: "faults \<Rightarrow> db \<Rightarrow> (storage_error, db) outcome" where
  "db_sync os d =
     (if db_closed d then Failed StoreClosed d
      else and_then (wal_sync os (db_wal d)) (\<lambda>w. Done (d\<lparr>db_wal := w\<rparr>)) (\<lambda>w. d\<lparr>db_wal := w\<rparr>))"

definition db_close :: "faults \<Rightarrow> db \<Rightarrow> (storage_error, db) outcome" where
  "db_close os d =
     (if db_closed d then Done d
      else let d1 = d\<lparr>db_closed := True\<rparr>
           in and_then (wal_sync os (db_wal d1))
                (\<lambda>w. if fl_close os then Failed CloseFailed (d1\<lparr>db_wal := w\<rparr>) else Done (d1\<lparr>db_wal := w\<rparr>))
                (\<lambda>w. d1\<lparr>db_wal := w\<rparr>))"

subsection \<open>The store as the history of its puts\<close>

definition contents :: "wal_record list \<Rightarrow> (bytes, bytes) mapping" where
  "contents rs = fold apply_record rs Mapping.empty"

lemma contents_simps [simp]:
  "contents [] = Mapping.empty" "contents (rs @ [r]) = Mapping.update (wr_key r) (wr_value r) (contents rs)"
  by (simp_all add: contents_def apply_record_def)

definition db_holds :: "wal_record list \<Rightarrow> nat \<Rightarrow> db \<Rightarrow> bool" where
  "db_holds rs d s \<longleftrightarrow> list_all record_fits rs \<and> wal_holds rs d (db_wal s) \<and> db_data s = contents rs \<and> \<not> db_closed s"

lemma wal_sync_pending: "wal_sync os w = Done w' \<Longrightarrow> w_pending w' = 0"
  by (auto simp: wal_sync_def split: if_splits)

lemma db_open_fresh:
  "op_dir opts \<noteq> '''' \<Longrightarrow> db_open no_faults opts None = Inr s \<Longrightarrow> db_holds [] 0 s"
  by (auto simp: db_open_def no_faults_def wal_replay_def Let_def db_holds_def wal_holds_def contents_def)

lemma db_put_holds:
  assumes "db_holds rs d s" "fl_head os = None" "fl_payload os = None" "k \<noteq> []"
    "record_fits \<lparr>wr_key = k, wr_value = v\<rparr>" "db_put os k v s = Done s'"
  shows "\<exists>d'. d \<le> d' \<and> db_holds (rs @ [\<lparr>wr_key = k, wr_value = v\<rparr>]) d' s'"
proof -
  have w: "wal_holds rs d (db_wal s)" using assms(1) by (simp add: db_holds_def)
  obtain w' d' where "left_state (wal_append os \<lparr>wr_key = k, wr_value = v\<rparr> (db_wal s)) = Some w'"
    "wal_holds (rs @ [\<lparr>wr_key = k, wr_value = v\<rparr>]) d' w'" "d \<le> d'"
    using wal_append_holds[OF w assms(2,3)] by blast
  moreover obtain w2 where "wal_append os \<lparr>wr_key = k, wr_value = v\<rparr> (db_wal s) = Done w2"
    "s' = s\<lparr>db_wal := w2, db_data := Mapping.update k v (db_data s)\<rparr>"
    using assms(1,4,6) by (cases "wal_append os \<lparr>wr_key = k, wr_value = v\<rparr> (db_wal s)") (auto simp: db_put_def db_holds_def)
  ultimately show ?thesis
    using assms(1,5) by (intro exI[of _ d']) (simp add: db_holds_def)
qed

lemma db_sync_holds: "db_holds rs d s \<Longrightarrow> db_sync os s = Done s' \<Longrightarrow> db_holds rs (length rs) s'"
  using wal_sync_holds[of rs d "db_wal s" os] by (auto simp: db_holds_def db_sync_def)

text \<open>After a crash the store holds the first \<open>j\<close> puts, all synced ones among them.\<close>

lemma db_reopen_holds:
  assumes "db_holds rs d s" "crashed (w_file (db_wal s)) f" "op_dir opts \<noteq> ''''"
  shows "\<exists>s' j. db_open no_faults opts (Some f) = Inr s' \<and> d \<le> j \<and> j \<le> length rs \<and> db_holds (take j rs) j s'"
proof -
  have fits: "list_all record_fits rs" and pre: "prefix (f_bytes f) (encode_all rs)"
    and d: "length (encode_all (take d rs)) \<le> length (f_bytes f)" "d \<le> length rs"
    using assms(1,2) by (auto simp: db_holds_def wal_holds_def crashed_def)
  obtain j e where j: "j \<le> length rs" "scan_wal (f_bytes f) = (take j rs, length (encode_all (take j rs)), e)"
    "e = Complete \<and> f_bytes f = encode_all (take j rs) \<or> e = Torn"
    "take (length (encode_all (take j rs))) (f_bytes f) = encode_all (take j rs)"
    "\<And>i. i \<le> length rs \<Longrightarrow> length (encode_all (take i rs)) \<le> length (f_bytes f) \<Longrightarrow> i \<le> j"
    using scan_prefix[OF fits pre] by metis
  have len: "length (encode_all (take j rs)) \<le> length (f_bytes f)"
    by (metis j(4) length_take min.absorb_iff2 min.commute)
  define s' where "s' = \<lparr>db_wal = \<lparr>w_file = \<lparr>f_bytes = encode_all (take j rs), f_synced = length (encode_all (take j rs))\<rparr>,
      w_sync_every = op_sync_every opts, w_pending = 0\<rparr>, db_data = contents (take j rs), db_closed = False\<rparr>"
  have "f_synced f = length (f_bytes f)" using assms(2) by (simp add: crashed_def)
  then have "db_open no_faults opts (Some f) = Inr s'"
    using assms(3) j(2-4) len
    by (cases f) (auto simp: db_open_def no_faults_def wal_replay_def Let_def s'_def contents_def min_def)
  moreover have "db_holds (take j rs) j s'"
    using fits j(1) by (auto simp: db_holds_def wal_holds_def s'_def list_all_iff dest: in_set_takeD)
  ultimately show ?thesis
    using j(1,5) d by blast
qed

subsection \<open>The contract\<close>

text \<open>
  What a client may rely on: puts are visible, a sync loses nothing and makes the state survive, and
  a restart (a crash and a reopening) of a synced store changes nothing.
\<close>

locale crash_store =
  fixes put :: "bytes \<Rightarrow> bytes \<Rightarrow> 's \<Rightarrow> 's \<Rightarrow> bool" and sync :: "'s \<Rightarrow> 's \<Rightarrow> bool" and restart :: "'s \<Rightarrow> 's \<Rightarrow> bool"
    and lookup :: "'s \<Rightarrow> bytes \<Rightarrow> bytes option" and good synced :: "'s \<Rightarrow> bool"
  assumes put_visible: "good s \<Longrightarrow> put k v s s' \<Longrightarrow> good s' \<and> lookup s' = (lookup s)(k \<mapsto> v)"
    and sync_keeps: "good s \<Longrightarrow> sync s s' \<Longrightarrow> good s' \<and> synced s' \<and> lookup s' = lookup s"
    and restart_keeps: "good s \<Longrightarrow> synced s \<Longrightarrow> restart s s' \<Longrightarrow> good s' \<and> synced s' \<and> lookup s' = lookup s"
begin

inductive puts :: "(bytes \<times> bytes) list \<Rightarrow> 's \<Rightarrow> 's \<Rightarrow> bool" where
  puts_Nil: "puts [] s s"
| puts_Cons: "put k v s s1 \<Longrightarrow> puts kvs s1 s2 \<Longrightarrow> puts ((k, v) # kvs) s s2"

lemma puts_visible: "puts kvs s s' \<Longrightarrow> good s \<Longrightarrow> good s' \<and> lookup s' = lookup s ++ map_of (rev kvs)"
  by (induction rule: puts.induct) (auto dest: put_visible)

text \<open>A batch of puts followed by a sync survives a crash as a whole.\<close>

lemma batch_survives:
  assumes "good s" "puts kvs s s1" "sync s1 s2" "restart s2 s3"
  shows "good s3 \<and> lookup s3 = lookup s ++ map_of (rev kvs)"
  using puts_visible[OF assms(2,1)] sync_keeps[OF _ assms(3)] restart_keeps[OF _ _ assms(4)] by simp

end

definition good_db :: "db \<Rightarrow> bool" where
  "good_db s \<longleftrightarrow> (\<exists>rs d. db_holds rs d s)"

lemma good_db_finite: "good_db d \<Longrightarrow> finite (Mapping.keys (db_data d)) \<and> \<not> db_closed d"
proof -
  have "finite (Mapping.keys (contents rs))" for rs
    by (induction rs rule: rev_induct) (simp_all add: keys_update)
  then show "good_db d \<Longrightarrow> finite (Mapping.keys (db_data d)) \<and> \<not> db_closed d"
    by (auto simp: good_db_def db_holds_def)
qed

definition synced_db :: "db \<Rightarrow> bool" where
  "synced_db s \<longleftrightarrow> (\<exists>rs. db_holds rs (length rs) s)"

definition put_ok :: "bytes \<Rightarrow> bytes \<Rightarrow> db \<Rightarrow> db \<Rightarrow> bool" where
  "put_ok k v s s' \<longleftrightarrow> record_fits \<lparr>wr_key = k, wr_value = v\<rparr> \<and> (\<exists>os. db_put os k v s = Done s')"

definition sync_ok :: "db \<Rightarrow> db \<Rightarrow> bool" where
  "sync_ok s s' \<longleftrightarrow> (\<exists>os. db_sync os s = Done s')"

definition restart_db :: "db \<Rightarrow> db \<Rightarrow> bool" where
  "restart_db s s' \<longleftrightarrow> (\<exists>opts f. op_dir opts \<noteq> '''' \<and> crashed (w_file (db_wal s)) f \<and>
     db_open no_faults opts (Some f) = Inr s')"

lemma db_put_Done_no_write_fault:
  "db_put os k v s = Done s' \<Longrightarrow> k \<noteq> [] \<and> fl_head os = None \<and> fl_payload os = None"
  by (cases "fl_head os"; cases "fl_payload os")
    (auto simp: db_put_def wal_append_def Let_def split: if_splits)

interpretation db_store: crash_store put_ok sync_ok restart_db "\<lambda>s. Mapping.lookup (db_data s)" good_db synced_db
proof unfold_locales
  fix k v s s' assume "good_db s" "put_ok k v s s'"
  then obtain rs d os where h: "db_holds rs d s" "record_fits \<lparr>wr_key = k, wr_value = v\<rparr>" "db_put os k v s = Done s'"
    by (auto simp: good_db_def put_ok_def)
  then obtain d' where "db_holds (rs @ [\<lparr>wr_key = k, wr_value = v\<rparr>]) d' s'"
    using db_put_holds[OF h(1) _ _ _ h(2,3)] db_put_Done_no_write_fault[OF h(3)] h(1) by metis
  moreover from this have "Mapping.lookup (db_data s') = (Mapping.lookup (db_data s))(k \<mapsto> v)"
    using h(1) by (auto simp: db_holds_def lookup_update' fun_eq_iff)
  ultimately show "good_db s' \<and> Mapping.lookup (db_data s') = (Mapping.lookup (db_data s))(k \<mapsto> v)"
    by (auto simp: good_db_def)
next
  fix s s' assume "good_db s" "sync_ok s s'"
  show "good_db s' \<and> synced_db s' \<and> Mapping.lookup (db_data s') = Mapping.lookup (db_data s)"
  proof -
    obtain rs d os where h: "db_holds rs d s" "db_sync os s = Done s'"
      using \<open>good_db s\<close> \<open>sync_ok s s'\<close> by (auto simp: good_db_def sync_ok_def)
    then have "db_holds rs (length rs) s'" by (rule db_sync_holds)
    then show ?thesis using h(1) by (auto simp: good_db_def synced_db_def db_holds_def)
  qed
next
  fix s s' assume "good_db s" "synced_db s" "restart_db s s'"
  then obtain rs opts f where h: "db_holds rs (length rs) s" "crashed (w_file (db_wal s)) f" "op_dir opts \<noteq> ''''"
    "db_open no_faults opts (Some f) = Inr s'"
    by (auto simp: synced_db_def restart_db_def)
  then have "db_holds rs (length rs) s'"
    using db_reopen_holds[OF h(1-3)] by auto
  then show "good_db s' \<and> synced_db s' \<and> Mapping.lookup (db_data s') = Mapping.lookup (db_data s)"
    using h(1) by (auto simp: good_db_def synced_db_def db_holds_def)
qed

end
