(* ===== verification/Storage_Properties.thy ===== *)
theory Storage_Properties
  imports Engine
begin

section \<open>What the key-value store guarantees\<close>

text \<open>
  The properties of internal/storage: what survives a crash, what a damaged log is answered with,
  and where the guarantees end. A run of calls is a list; every call carries what the operating
  system does during it.
\<close>

datatype db_op = PutOp bytes bytes | SyncOp

fun db_run :: "(faults \<times> db_op) list \<Rightarrow> db \<Rightarrow> db option" where
  \<comment> \<open>every call returns a nil error\<close>
  "db_run [] s = Some s"
| "db_run ((os, PutOp k v) # ops) s = (case db_put os k v s of Done s' \<Rightarrow> db_run ops s' | _ \<Rightarrow> None)"
| "db_run ((os, SyncOp) # ops) s = (case db_sync os s of Done s' \<Rightarrow> db_run ops s' | _ \<Rightarrow> None)"

fun puts_of :: "(faults \<times> db_op) list \<Rightarrow> wal_record list" where
  "puts_of [] = []"
| "puts_of ((os, PutOp k v) # ops) = \<lparr>wr_key = k, wr_value = v\<rparr> # puts_of ops"
| "puts_of ((os, SyncOp) # ops) = puts_of ops"

lemma db_run_append: "db_run (xs @ ys) s = (case db_run xs s of None \<Rightarrow> None | Some s' \<Rightarrow> db_run ys s')"
  by (induction xs s rule: db_run.induct) (auto split: outcome.splits)

lemma puts_of_append [simp]: "puts_of (xs @ ys) = puts_of xs @ puts_of ys"
  by (induction xs rule: puts_of.induct) auto

lemma db_run_holds:
  "db_run ops s = Some s' \<Longrightarrow> list_all record_fits (puts_of ops) \<Longrightarrow> db_holds rs d s \<Longrightarrow>
   \<exists>d'. d \<le> d' \<and> db_holds (rs @ puts_of ops) d' s'"
proof (induction ops s arbitrary: rs d rule: db_run.induct)
  case (1 s)
  then show ?case by auto
next
  case (2 os k v ops s)
  obtain s1 where s1: "db_put os k v s = Done s1" "db_run ops s1 = Some s'"
    using 2(2) by (auto split: outcome.splits)
  obtain d1 where "d \<le> d1" "db_holds (rs @ [\<lparr>wr_key = k, wr_value = v\<rparr>]) d1 s1"
    using db_put_holds[OF 2(4) _ _ _ _ s1(1)] db_put_Done_no_write_fault[OF s1(1)] 2(3) by auto
  then show ?case
    using 2(1)[OF s1(1,2) _ \<open>db_holds (rs @ _) d1 s1\<close>] 2(3) by (auto intro: order_trans)
next
  case (3 os ops s)
  obtain s1 where s1: "db_sync os s = Done s1" "db_run ops s1 = Some s'"
    using 3(2) by (auto split: outcome.splits)
  have "d \<le> length rs" using 3(4) by (simp add: db_holds_def wal_holds_def)
  moreover have "list_all record_fits (puts_of ops)" using 3(3) by simp
  ultimately show ?case
    using 3(1)[OF s1 _ db_sync_holds[OF 3(4) s1(1)]] by (auto intro: order_trans)
qed

subsection \<open>Crashes\<close>

text \<open>
  C14: open an empty directory, make any calls that succeed, the last sync being followed by
  \<open>ops2\<close>, and crash at any point: opening the directory again succeeds, and the store holds exactly
  the first \<open>j\<close> puts, where \<open>j\<close> covers at least everything put before that sync.
\<close>

theorem synced_puts_survive:
  assumes "op_dir opts \<noteq> ''''" "db_open no_faults opts None = Inr s0"
    and "db_run (ops1 @ (os, SyncOp) # ops2) s0 = Some s" "list_all record_fits (puts_of (ops1 @ ops2))"
    and "crashed (w_file (db_wal s)) f" "op_dir opts' \<noteq> ''''"
  shows "\<exists>s' j. db_open no_faults opts' (Some f) = Inr s' \<and> length (puts_of ops1) \<le> j \<and>
    db_data s' = contents (take j (puts_of (ops1 @ ops2))) \<and> \<not> db_closed s'"
proof -
  obtain s1 where s1: "db_run (ops1 @ [(os, SyncOp)]) s0 = Some s1" "db_run ops2 s1 = Some s"
    using assms(3) db_run_append[of "ops1 @ [(os, SyncOp)]" ops2 s0] by (auto split: option.splits)
  obtain s2 where s2: "db_run ops1 s0 = Some s2" "db_sync os s2 = Done s1"
    using s1(1) by (auto simp: db_run_append split: option.splits outcome.splits)
  obtain d where "db_holds (puts_of ops1) d s2"
    using db_run_holds[OF s2(1) _ db_open_fresh[OF assms(1,2)]] assms(4) by auto
  then have "db_holds (puts_of ops1) (length (puts_of ops1)) s1"
    using s2(2) by (rule db_sync_holds)
  then obtain d' where "length (puts_of ops1) \<le> d'" "db_holds (puts_of (ops1 @ ops2)) d' s"
    using db_run_holds[OF s1(2)] assms(4) by fastforce
  then show ?thesis
    using db_reopen_holds[OF _ assms(5,6)] unfolding db_holds_def by (meson order_trans)
qed

definition store_options :: options where
  "store_options = \<lparr>op_dir = ''d'', op_sync_every = 0\<rparr>"

definition empty_store :: db where
  "empty_store = \<lparr>db_wal = \<lparr>w_file = \<lparr>f_bytes = [], f_synced = 0\<rparr>, w_sync_every = 0, w_pending = 0\<rparr>,
     db_data = Mapping.empty, db_closed = False\<rparr>"

lemma open_empty: "db_open no_faults store_options None = Inr empty_store"
  by (simp add: db_open_def no_faults_def store_options_def wal_replay_def empty_store_def)

lemma store_options_dir [simp]: "op_dir store_options \<noteq> ''''"
  by (simp add: store_options_def)

lemma synced_puts_survive_witness:
  "\<exists>s f s'. db_run [(no_faults, PutOp [1] [2]), (no_faults, SyncOp), (no_faults, PutOp [3] [4])] empty_store = Some s \<and>
     f_bytes f = encode_all [\<lparr>wr_key = [1], wr_value = [2]\<rparr>] \<and> db_open no_faults store_options (Some f) = Inr s' \<and>
     Mapping.lookup (db_data s') [1] = Some [2]"
proof -
  let ?r = "\<lparr>wr_key = [1], wr_value = [2]\<rparr>" and ?q = "\<lparr>wr_key = [3], wr_value = [4]\<rparr>"
  let ?f = "\<lparr>f_bytes = encode_all [?r], f_synced = length (encode_all [?r])\<rparr>"
  obtain s where s: "db_run ([(no_faults, PutOp [1] [2])] @ (no_faults, SyncOp) # [(no_faults, PutOp [3] [4])]) empty_store = Some s"
    "w_file (db_wal s) = \<lparr>f_bytes = encode_all [?r, ?q], f_synced = length (encode_all [?r])\<rparr>"
    by (simp add: empty_store_def db_put_def wal_append_def no_faults_def db_sync_def wal_sync_def wal_encode_def Let_def)
  have "crashed (w_file (db_wal s)) ?f"
    by (simp add: crashed_def s(2))
  from synced_puts_survive[OF store_options_dir open_empty s(1) _ this store_options_dir]
  obtain s' j where s': "db_open no_faults store_options (Some ?f) = Inr s'" "1 \<le> j"
    "db_data s' = contents (take j [?r, ?q])"
    by (auto simp: record_fits_def)
  have "Mapping.lookup (db_data s') [1] = Some [2]"
    using s'(2,3) by (cases j; cases "j - 1") (auto simp: contents_def apply_record_def lookup_update')
  then show ?thesis
    using s(1) s'(1) by (intro exI[of _ s] exI[of _ ?f] exI[of _ s']) simp
qed

subsection \<open>The log on disk\<close>

lemma be_bytes_4:
  "be_bytes 4 n = [of_nat (n div 256 div 256 div 256 mod 256), of_nat (n div 256 div 256 mod 256),
     of_nat (n div 256 mod 256), of_nat (n mod 256)]"
proof -
  have four: "4 = Suc (Suc (Suc (Suc 0)))" by simp
  show ?thesis by (simp only: four be_bytes.simps append.simps)
qed

text \<open>
  C26: a log cut anywhere is read back as a whole number of its records; the piece of a record that is
  left over is reported as a torn tail, never as corruption, and \<open>replay\<close> cuts it off so that the
  file ends with the last whole record.
\<close>

theorem torn_tail_is_dropped:
  assumes "list_all record_fits rs" "prefix t (encode_all rs)" "f_bytes (w_file w) = t" "\<not> fl_read os" "\<not> fl_truncate os"
  shows "\<exists>k w'. wal_replay os w = (Done w', take k rs) \<and> f_bytes (w_file w') = encode_all (take k rs) \<and> k \<le> length rs \<and>
    (\<forall>j \<le> length rs. length (encode_all (take j rs)) \<le> length t \<longrightarrow> j \<le> k)"
proof -
  obtain k e where k: "k \<le> length rs" "scan_wal t = (take k rs, length (encode_all (take k rs)), e)"
    "e = Complete \<and> t = encode_all (take k rs) \<or> e = Torn" "take (length (encode_all (take k rs))) t = encode_all (take k rs)"
    "\<And>j. j \<le> length rs \<Longrightarrow> length (encode_all (take j rs)) \<le> length t \<Longrightarrow> j \<le> k"
    using scan_prefix[OF assms(1,2)] by metis
  have "\<exists>w'. wal_replay os w = (Done w', take k rs) \<and> f_bytes (w_file w') = encode_all (take k rs)"
    using k(3)
  proof
    assume "e = Complete \<and> t = encode_all (take k rs)"
    then show ?thesis using assms(3,4) k(2) by (simp add: wal_replay_def)
  next
    assume "e = Torn"
    then show ?thesis using assms(3-5) k(2,4) by (simp add: wal_replay_def)
  qed
  then show ?thesis using k(1,5) by blast
qed

lemma torn_tail_is_dropped_witness:
  "\<exists>k w'. wal_replay no_faults \<lparr>w_file = \<lparr>f_bytes = [0, 0, 0], f_synced = 3\<rparr>, w_sync_every = 1, w_pending = 0\<rparr> =
     (Done w', take k [\<lparr>wr_key = [1], wr_value = [2]\<rparr>]) \<and> f_bytes (w_file w') = encode_all (take k [\<lparr>wr_key = [1], wr_value = [2]\<rparr>])"
proof -
  let ?r = "\<lparr>wr_key = [1], wr_value = [2]\<rparr> :: wal_record"
  have "wal_encode ?r = [0, 0, 0] @ drop 3 (wal_encode ?r)"
    by (simp add: wal_encode_def wal_head_def wal_payload_def be_bytes_4)
  then have "prefix [0, 0, 0] (encode_all [?r])"
    by (metis encode_all_simps(1,2) append_Nil2 prefixI)
  then show ?thesis
    using torn_tail_is_dropped[of "[?r]" "[0, 0, 0]" "\<lparr>w_file = \<lparr>f_bytes = [0, 0, 0], f_synced = 3\<rparr>, w_sync_every = 1, w_pending = 0\<rparr>"
        no_faults]
    by (auto simp: record_fits_def no_faults_def)
qed



subsection \<open>Reading\<close>

text \<open>
  a successful \<open>Put\<close> is seen by \<open>Get\<close> and leaves every other key alone, and \<open>Scan\<close> lists exactly the
  keys of the range with the values \<open>Get\<close> returns, in strictly increasing order.
\<close>

lemma store_is_a_sorted_map:
  assumes "good_db s" "db_put os k v s = Done s'" "record_fits \<lparr>wr_key = k, wr_value = v\<rparr>"
  shows "db_get k s' = Inr v \<and> (\<forall>j. j \<noteq> k \<longrightarrow> db_get j s' = db_get j s) \<and>
    sorted_wrt (<) (map fst (db_scan a b s')) \<and>
    (\<forall>j w. (j, w) \<in> set (db_scan a b s') \<longleftrightarrow> in_range a b j \<and> db_get j s' = Inr w)"
proof -
  have s': "good_db s'" "Mapping.lookup (db_data s') = (Mapping.lookup (db_data s))(k \<mapsto> v)"
    using db_store.put_visible[OF assms(1), of k v s'] assms(2,3) by (auto simp: put_ok_def)
  have fin: "finite (Mapping.keys (db_data s'))" "\<not> db_closed s'" "\<not> db_closed s"
    using good_db_finite s'(1) assms(1) by auto
  have "sorted_wrt (<) (filter (in_range a b) (sorted_list_of_set (Mapping.keys (db_data s'))))"
    by (simp add: sorted_wrt_filter)
  then have "sorted_wrt (<) (map fst (db_scan a b s'))"
    by (simp add: db_scan_def comp_def)
  moreover have "(j, w) \<in> set (db_scan a b s') \<longleftrightarrow> in_range a b j \<and> db_get j s' = Inr w" for j w
    using fin by (auto simp: db_scan_def db_get_def keys_dom_lookup lookup_default_def split: option.splits)
  ultimately show ?thesis
    using fin s'(2) by (simp add: db_get_def)
qed

lemma store_is_a_sorted_map_witness:
  "\<exists>s. db_put no_faults [1] [2] empty_store = Done s \<and> db_get [1] s = Inr [2]"
proof -
  obtain s where s: "db_put no_faults [1] [2] empty_store = Done s"
    by (simp add: empty_store_def db_put_def wal_append_def no_faults_def Let_def)
  have "good_db empty_store"
    using db_open_fresh[OF store_options_dir open_empty] by (auto simp: good_db_def)
  then show ?thesis
    using store_is_a_sorted_map[OF _ s] s by (auto simp: record_fits_def)
qed

text \<open>
  Closing a store, even when the final sync fails, closes it: from then on \<open>Put\<close>, \<open>Get\<close> and
  \<open>Sync\<close> return the closed error and change nothing, and closing again is a nil error.
\<close>

lemma closed_store_refuses:
  assumes "left_state (db_close os s) = Some s'" "k \<noteq> []"
  shows "db_put os' k v s' = Failed StoreClosed s' \<and> db_get k s' = Inl StoreClosed \<and>
    db_sync os' s' = Failed StoreClosed s' \<and> db_close os' s' = Done s' \<and> db_data s' = db_data s"
proof -
  have "db_closed s' \<and> db_data s' = db_data s"
    using assms(1) by (auto simp: db_close_def wal_sync_def Let_def split: if_splits)
  then show ?thesis
    using assms(2) by (simp add: db_put_def db_get_def db_sync_def db_close_def)
qed

lemma closed_store_refuses_witness:
  "\<exists>s. db_close (no_faults\<lparr>fl_close := True\<rparr>) empty_store = Failed CloseFailed s \<and> db_get [1] s = Inl StoreClosed"
proof -
  obtain s where s: "db_close (no_faults\<lparr>fl_close := True\<rparr>) empty_store = Failed CloseFailed s"
    by (simp add: db_close_def empty_store_def wal_sync_def no_faults_def Let_def)
  then show ?thesis
    using closed_store_refuses[of "no_faults\<lparr>fl_close := True\<rparr>" empty_store s "[1]"] by simp
qed

subsection \<open>Where the guarantees end\<close>

text \<open>
  C40: a write error that left a header without its payload is not cleaned up, and later calls append
  after it. Put a record whose payload write fails, then put another one and sync it, both with a nil
  error: the second value is served, and is on disk, but the directory can never be opened again.
\<close>

theorem failed_write_poisons_log:
  "\<exists>s1 s2 s3. db_put (no_faults\<lparr>fl_payload := Some 0\<rparr>) [1] [2] empty_store = Failed WriteFailed s1 \<and>
     db_put no_faults [3] [4] s1 = Done s2 \<and> db_sync no_faults s2 = Done s3 \<and> db_get [3] s3 = Inr [4] \<and>
     f_synced (w_file (db_wal s3)) = length (f_bytes (w_file (db_wal s3))) \<and>
     db_open no_faults store_options (Some (w_file (db_wal s3))) = Inl ChecksumMismatch"
proof -
  let ?r = "\<lparr>wr_key = [1], wr_value = [2]\<rparr> :: wal_record" and ?q = "\<lparr>wr_key = [3], wr_value = [4]\<rparr> :: wal_record"
  define bs where "bs = wal_head (wal_payload ?r) @ wal_encode ?q"
  define s1 where "s1 = empty_store\<lparr>db_wal := (db_wal empty_store)\<lparr>w_file := \<lparr>f_bytes = wal_head (wal_payload ?r), f_synced = 0\<rparr>\<rparr>\<rparr>"
  define s3 where "s3 = \<lparr>db_wal = \<lparr>w_file = \<lparr>f_bytes = bs, f_synced = length bs\<rparr>, w_sync_every = 0, w_pending = 0\<rparr>,
     db_data = Mapping.update [3] [4] Mapping.empty, db_closed = False\<rparr>"
  define p where "p = take 6 (wal_encode ?q)"
  have q: "wal_encode ?q = p @ drop 6 (wal_encode ?q)" "length p = length (wal_payload ?r)"
    by (simp_all add: p_def length_wal_encode wal_payload_def)
  have sums: "crc32 [0, 0, 0, 1, 1, 2] = 0x47159BF9" "crc32 [0, 0, 0, 1, 3, 4] = 0x9C405C4E"
    "crc32 [0, 0, 0, 6, 156, 64] = 0x1E675997"
    by (simp_all add: crc_eval)
  have pay: "wal_payload ?r = [0, 0, 0, 1, 1, 2]" "wal_payload ?q = [0, 0, 0, 1, 3, 4]"
    by (simp_all add: wal_payload_def be_bytes_4)
  have "p = [0, 0, 0, 6, 156, 64]"
    by (simp add: p_def wal_encode_def wal_head_def pay sums be_bytes_4)
  then have "crc32 p \<noteq> crc32 (wal_payload ?r)"
    by (simp add: pay sums)
  then have "scan_wal bs = ([], 0, Corrupt ChecksumMismatch)"
    using scan_corrupt[OF _ q(2), of "drop 6 (wal_encode ?q)"] q(1)[symmetric] by (simp add: record_fits_def bs_def)
  then have "db_open no_faults store_options (Some (w_file (db_wal s3))) = Inl ChecksumMismatch"
    by (simp add: db_open_def no_faults_def store_options_def wal_replay_def s3_def)
  then show ?thesis
    by (intro exI[of _ s1] exI[of _ "s3\<lparr>db_wal := (db_wal s3)\<lparr>w_file := \<lparr>f_bytes = bs, f_synced = 0\<rparr>, w_pending := 1\<rparr>\<rparr>"] exI[of _ s3])
      (simp add: s1_def s3_def bs_def empty_store_def db_put_def wal_append_def no_faults_def db_sync_def wal_sync_def
        wal_encode_def db_get_def Let_def)
qed

text \<open>
  a store that is reopened counts nothing as pending, so \<open>Sync\<close> does nothing for the records it
  replayed. If only the process died, those may still be in the page cache: here a value is put, the
  process restarts, the value is read back and \<open>Sync\<close> returns a nil error, and a crash loses it.
\<close>

lemma sync_after_reopen_is_no_sync:
  "\<exists>s1 s2 f. db_put no_faults [1] [2] empty_store = Done s1 \<and>
     db_open no_faults store_options (Some (w_file (db_wal s1))) = Inr s2 \<and> db_get [1] s2 = Inr [2] \<and>
     db_sync no_faults s2 = Done s2 \<and> crashed (w_file (db_wal s2)) f \<and>
     db_open no_faults store_options (Some f) = Inr empty_store"
proof -
  let ?r = "\<lparr>wr_key = [1], wr_value = [2]\<rparr> :: wal_record"
  define bs where "bs = wal_encode ?r"
  have scan: "scan_wal bs = ([?r], length bs, Complete)"
    using scan_encode_all[of "[?r]"] by (simp add: record_fits_def bs_def)
  define s2 where "s2 = \<lparr>db_wal = \<lparr>w_file = \<lparr>f_bytes = bs, f_synced = 0\<rparr>, w_sync_every = 0, w_pending = 0\<rparr>,
     db_data = Mapping.update [1] [2] Mapping.empty, db_closed = False\<rparr>"
  have "db_open no_faults store_options (Some \<lparr>f_bytes = bs, f_synced = 0\<rparr>) = Inr s2"
    by (simp add: db_open_def no_faults_def store_options_def wal_replay_def scan s2_def apply_record_def)
  moreover have "db_put no_faults [1] [2] empty_store = Done (s2\<lparr>db_wal := (db_wal s2)\<lparr>w_pending := 1\<rparr>\<rparr>)"
    by (simp add: s2_def bs_def empty_store_def db_put_def wal_append_def no_faults_def wal_encode_def Let_def)
  moreover have "db_get [1] s2 = Inr [2]" "db_sync no_faults s2 = Done s2"
    by (simp_all add: s2_def db_get_def db_sync_def wal_sync_def)
  moreover have "crashed (w_file (db_wal s2)) \<lparr>f_bytes = [], f_synced = 0\<rparr>"
    by (simp add: crashed_def s2_def)
  moreover have "db_open no_faults store_options (Some \<lparr>f_bytes = [], f_synced = 0\<rparr>) = Inr empty_store"
    by (simp add: db_open_def no_faults_def store_options_def wal_replay_def empty_store_def)
  ultimately show ?thesis
    by (intro exI[of _ "s2\<lparr>db_wal := (db_wal s2)\<lparr>w_pending := 1\<rparr>\<rparr>"] exI[of _ s2]) (auto simp: s2_def)
qed

end
