(* ===== verification/Base64.thy ===== *)
theory Base64
  imports Go_Json
begin

section \<open>Byte slices in JSON: encoding/base64\<close>

text \<open>
  \<open>encoding/json\<close> writes a \<open>[]byte\<close> as a standard base64 string and reads it back with
  \<open>base64.StdEncoding\<close>, which skips line breaks and wants the padding. A nil slice is \<open>null\<close>. An
  empty slice and a nil one are the same list of bytes here; every slice the program prints has
  gone through \<open>append([]byte(nil), ...)\<close>, so an empty one is nil.
\<close>

definition b64_char :: "nat \<Rightarrow> byte" where
  "b64_char n = of_nat (if n < 26 then 65 + n else if n < 52 then 71 + n else if n < 62 then n - 4
     else if n = 62 then 43 else 47)"

definition b64_value :: "byte \<Rightarrow> nat option" where
  "b64_value c =
     (let k = unat c
      in if 65 \<le> k \<and> k \<le> 90 then Some (k - 65)
         else if 97 \<le> k \<and> k \<le> 122 then Some (k - 71)
         else if 48 \<le> k \<and> k \<le> 57 then Some (k + 4)
         else if k = 43 then Some 62 else if k = 47 then Some 63 else None)"

fun b64_encode :: "bytes \<Rightarrow> bytes" where
  "b64_encode [] = []"
| "b64_encode [a] =
     (let n = unat a * 16 in [b64_char (n div 64), b64_char (n mod 64), 61, 61])"
| "b64_encode [a, b] =
     (let n = (unat a * 256 + unat b) * 4
      in [b64_char (n div 4096), b64_char (n div 64 mod 64), b64_char (n mod 64), 61])"
| "b64_encode (a # b # c # r) =
     (let n = unat a * 65536 + unat b * 256 + unat c
      in b64_char (n div 262144) # b64_char (n div 4096 mod 64) # b64_char (n div 64 mod 64) # b64_char (n mod 64) #
         b64_encode r)"

fun b64_quads :: "bytes \<Rightarrow> bytes option" where
  "b64_quads [] = Some []"
| "b64_quads (p # q # r # s # rest) =
     (case (b64_value p, b64_value q, b64_value r, b64_value s) of
        (Some x, Some y, Some z, Some t) \<Rightarrow>
          (let n = x * 262144 + y * 4096 + z * 64 + t
           in map_option (\<lambda>out. of_nat (n div 65536) # of_nat (n div 256 mod 256) # of_nat (n mod 256) # out)
                (b64_quads rest))
      | (Some x, Some y, Some z, None) \<Rightarrow>
          if s = 61 \<and> rest = [] then (let n = (x * 4096 + y * 64 + z) div 4 in Some [of_nat (n div 256), of_nat (n mod 256)])
          else None
      | (Some x, Some y, None, _) \<Rightarrow>
          if r = 61 \<and> s = 61 \<and> rest = [] then Some [of_nat ((x * 64 + y) div 16)] else None
      | _ \<Rightarrow> None)"
| "b64_quads _ = None"

definition b64_decode :: "bytes \<Rightarrow> bytes option" where
  "b64_decode s = b64_quads (filter (\<lambda>c. c \<noteq> 10 \<and> c \<noteq> 13) s)"

subsection \<open>Round trip\<close>

lemma b64_value_char [simp]: "n < 64 \<Longrightarrow> b64_value (b64_char n) = Some n"
proof -
  assume "n < 64"
  moreover have "list_all (\<lambda>k. b64_value (b64_char k) = Some k) [0..<64]"
    by code_simp
  ultimately show ?thesis by (simp add: list_all_iff)
qed

lemma b64_value_pad [simp]: "b64_value 61 = None"
  by code_simp

lemma b64_char_not_break [simp]: "n < 64 \<Longrightarrow> b64_char n \<noteq> 10 \<and> b64_char n \<noteq> 13"
  using b64_value_char[of n] by (auto simp: b64_value_def)

lemma byte_bound: "unat (b :: byte) < 256"
  using unsigned_less[where ?'a=nat, of b] by simp

lemma of_nat_unat_byte [simp]: "of_nat (unat b) = (b :: byte)"
  by simp

lemma three_bytes:
  fixes a b c :: nat
  assumes "a < 256" "b < 256" "c < 256" "n = a * 65536 + b * 256 + c"
  shows "n div 65536 = a" "n div 256 mod 256 = b" "n mod 256 = c" "n div 262144 < 64"
proof -
  have n: "n = c + 256 * (b + 256 * a)" using assms(4) by simp
  have gen: "(x + 256 * k) div 256 = k" "(x + 256 * k) mod 256 = x" if "x < 256" for x k :: nat
    using that by simp_all
  show "n div 256 mod 256 = b" "n mod 256 = c"
    unfolding n using assms(1-3) by (simp_all only: gen)
  have "n div (256 * 256) = a"
    unfolding n div_mult2_eq using assms(1-3) by (simp only: gen)
  then show "n div 65536 = a" by simp
  show "n div 262144 < 64" using assms by simp
qed

lemma sextets:
  fixes n :: nat
  shows "n div 64 * 64 + n mod 64 = n" "n div 4096 * 4096 + n div 64 mod 64 * 64 + n mod 64 = n"
    "n div 262144 * 262144 + n div 4096 mod 64 * 4096 + n div 64 mod 64 * 64 + n mod 64 = n"
proof -
  have d: "n div 4096 = n div 64 div 64" "n div 262144 = n div 64 div 64 div 64"
    using div_mult2_eq[of n 64 64] div_mult2_eq[of n "64 * 64" 64] div_mult2_eq[of n 64 64] by simp_all
  show one: "n div 64 * 64 + n mod 64 = n" by (rule div_mult_mod_eq)
  show two: "n div 4096 * 4096 + n div 64 mod 64 * 64 + n mod 64 = n"
    unfolding d using div_mult_mod_eq[of "n div 64" 64] one by linarith
  show "n div 262144 * 262144 + n div 4096 mod 64 * 4096 + n div 64 mod 64 * 64 + n mod 64 = n"
    using two div_mult_mod_eq[of "n div 64 div 64" 64] unfolding d by linarith
qed

lemma b64_quads_encode: "b64_quads (b64_encode bs) = Some bs"
proof (induction bs rule: b64_encode.induct)
  case 1
  then show ?case by simp
next
  case (2 a)
  define n where "n = unat a * 16"
  have "n div 64 < 64" "n div 16 = unat a"
    using byte_bound[of a] by (simp_all add: n_def)
  then show ?case by (simp add: Let_def n_def[symmetric] sextets(1))
next
  case (3 a b)
  define n where "n = (unat a * 256 + unat b) * 4"
  have n: "n div 4096 < 64" "n div 4 = unat a * 256 + unat b"
    using byte_bound[of a] byte_bound[of b] by (simp_all add: n_def)
  moreover have "(unat a * 256 + unat b) div 256 = unat a" "(unat a * 256 + unat b) mod 256 = unat b"
    using byte_bound[of b] by simp_all
  ultimately show ?case by (simp only: b64_encode.simps Let_def n_def[symmetric]) (simp add: Let_def sextets(2))
next
  case (4 a b c r)
  define n where "n = unat a * 65536 + unat b * 256 + unat c"
  show ?case
    using 4 three_bytes[OF byte_bound byte_bound byte_bound n_def]
    by (simp add: Let_def n_def[symmetric] sextets(3))
qed

lemma b64_encode_clean: "list_all (\<lambda>c. c \<noteq> 10 \<and> c \<noteq> 13) (b64_encode bs)"
proof (induction bs rule: b64_encode.induct)
  case (2 a)
  then show ?case using byte_bound[of a] by (simp add: Let_def)
next
  case (3 a b)
  then show ?case using byte_bound[of a] byte_bound[of b] by (simp add: Let_def)
next
  case (4 a b c r)
  then show ?case
    using three_bytes(4)[OF byte_bound byte_bound byte_bound refl, of a b c] by (simp add: Let_def)
qed simp

lemma b64_decode_encode [simp]: "b64_decode (b64_encode bs) = Some bs"
proof -
  have "filter (\<lambda>c. c \<noteq> 10 \<and> c \<noteq> 13) (b64_encode bs) = b64_encode bs"
    using b64_encode_clean[of bs] by (simp add: list_all_iff filter_id_conv)
  then show ?thesis by (simp add: b64_decode_def b64_quads_encode)
qed

subsection \<open>Byte slices\<close>

definition json_bytes :: "bytes \<Rightarrow> json" where
  "json_bytes bs = (if bs = [] then JNull else JStr (b64_encode bs))"

fun decode_byte :: "json \<Rightarrow> byte option" where
  \<comment> \<open>an element of an array of numbers, which \<open>Unmarshal\<close> accepts for a \<open>[]byte\<close> as well\<close>
  "decode_byte JNull = Some 0"
| "decode_byte (JNum lit) =
     (if list_all is_digit lit \<and> read_nat lit < 256 then Some (of_nat (read_nat lit)) else None)"
| "decode_byte _ = None"

fun decode_bytes :: "json \<Rightarrow> bytes option" where
  "decode_bytes JNull = Some []"
| "decode_bytes (JStr s) = b64_decode s"
| "decode_bytes (JArr xs) = decode_list decode_byte xs"
| "decode_bytes _ = None"

lemma decode_json_bytes [simp]: "decode_bytes (json_bytes bs) = Some bs"
  by (simp add: json_bytes_def)

lemma json_ok_bytes [simp]: "json_ok (json_bytes bs)"
  by (simp add: json_bytes_def)

interpretation base64: codec b64_encode b64_decode
  by unfold_locales simp

end
