(* ===== verification/Raft_Json.thy ===== *)
theory Raft_Json
  imports Base64 Raft_Types
begin

section \<open>The JSON of entries, hard states and messages\<close>

text \<open>
  What \<open>json.Marshal\<close> and \<open>json.Unmarshal\<close> do with the structs of state.go: fields in declaration
  order, numbers in decimal, bytes in base64, a nil slice as \<open>null\<close>. storage.go saves hard states
  and entries this way, tcp.go sends messages. A message type is a byte; \<open>type_byte\<close> and
  \<open>byte_type\<close> convert, and \<open>proper_type\<close> excludes the model's second name of a known type.
\<close>

fun type_byte :: "message_type \<Rightarrow> byte" where
  "type_byte MsgPreVote = 0"
| "type_byte MsgPreVoteResp = 1"
| "type_byte MsgVote = 2"
| "type_byte MsgVoteResp = 3"
| "type_byte MsgAppend = 4"
| "type_byte MsgAppendResp = 5"
| "type_byte (MsgOther b) = b"

definition byte_type :: "byte \<Rightarrow> message_type" where
  "byte_type b =
     (if b = 0 then MsgPreVote else if b = 1 then MsgPreVoteResp else if b = 2 then MsgVote
      else if b = 3 then MsgVoteResp else if b = 4 then MsgAppend else if b = 5 then MsgAppendResp else MsgOther b)"

fun proper_type :: "message_type \<Rightarrow> bool" where
  "proper_type (MsgOther b) \<longleftrightarrow> 5 < b"
| "proper_type _ \<longleftrightarrow> True"

lemma byte_type_byte [simp]: "proper_type ty \<Longrightarrow> byte_type (type_byte ty) = ty"
  by (cases ty) (auto simp: byte_type_def)

lemma proper_byte_type [simp]: "proper_type (byte_type b)"
proof -
  have "5 < b" if "b \<notin> {0, 1, 2, 3, 4, 5}"
  proof (rule ccontr)
    assume "\<not> 5 < b"
    then have "unat b < 6" by (simp add: word_less_unat)
    then have "unat b \<in> {0, 1, 2, 3, 4, 5}" by auto
    then show False using that by (auto simp: word_eq_unat)
  qed
  then show ?thesis by (auto simp: byte_type_def)
qed

subsection \<open>HardState\<close>

definition hard_state_json :: "hard_state \<Rightarrow> json" where
  "hard_state_json h = JObj
     [(ascii ''Term'', json_uint (hs_term h)), (ascii ''Vote'', json_uint (hs_vote h)),
      (ascii ''Commit'', json_uint (hs_commit h))]"

definition marshal_hard_state :: "hard_state \<Rightarrow> bytes" where
  "marshal_hard_state h = print_json (hard_state_json h)"

definition set_hard_state_field :: "bytes \<Rightarrow> json \<Rightarrow> hard_state \<Rightarrow> hard_state option" where
  "set_hard_state_field k v h =
     (if key_is ''Term'' k then map_option (\<lambda>x. h\<lparr>hs_term := x\<rparr>) (decode_uint v (hs_term h))
      else if key_is ''Vote'' k then map_option (\<lambda>x. h\<lparr>hs_vote := x\<rparr>) (decode_uint v (hs_vote h))
      else if key_is ''Commit'' k then map_option (\<lambda>x. h\<lparr>hs_commit := x\<rparr>) (decode_uint v (hs_commit h))
      else Some h)"

definition unmarshal :: "(bytes \<Rightarrow> json \<Rightarrow> 's \<Rightarrow> 's option) \<Rightarrow> 's \<Rightarrow> bytes \<Rightarrow> 's option" where
  "unmarshal set_field zero data =
     (case parse_json data of None \<Rightarrow> None | Some j \<Rightarrow> decode_struct set_field j zero)"

definition unmarshal_hard_state :: "bytes \<Rightarrow> hard_state option" where
  "unmarshal_hard_state = unmarshal set_hard_state_field zero_hard_state"

subsection \<open>Entry\<close>

definition entry_json :: "entry \<Rightarrow> json" where
  "entry_json e = JObj
     [(ascii ''Index'', json_uint (e_index e)), (ascii ''Term'', json_uint (e_term e)),
      (ascii ''Data'', json_bytes (e_data e))]"

definition marshal_entry :: "entry \<Rightarrow> bytes" where
  "marshal_entry e = print_json (entry_json e)"

definition set_entry_field :: "bytes \<Rightarrow> json \<Rightarrow> entry \<Rightarrow> entry option" where
  "set_entry_field k v e =
     (if key_is ''Index'' k then map_option (\<lambda>x. e\<lparr>e_index := x\<rparr>) (decode_uint v (e_index e))
      else if key_is ''Term'' k then map_option (\<lambda>x. e\<lparr>e_term := x\<rparr>) (decode_uint v (e_term e))
      else if key_is ''Data'' k then map_option (\<lambda>x. e\<lparr>e_data := x\<rparr>) (decode_bytes v)
      else Some e)"

definition unmarshal_entry :: "bytes \<Rightarrow> entry option" where
  "unmarshal_entry = unmarshal set_entry_field zero_entry"

subsection \<open>Message\<close>

definition zero_message :: message where
  "zero_message = (message_of MsgPreVote 0 0)"

definition message_json :: "message \<Rightarrow> json" where
  "message_json m = JObj
     [(ascii ''Type'', JNum (show_nat (unat (type_byte (m_type m))))), (ascii ''From'', json_uint (m_from m)),
      (ascii ''To'', json_uint (m_to m)), (ascii ''Term'', json_uint (m_term m)),
      (ascii ''Index'', json_uint (m_index m)), (ascii ''LogTerm'', json_uint (m_log_term m)),
      (ascii ''Commit'', json_uint (m_commit m)), (ascii ''Reject'', JBool (m_reject m)),
      (ascii ''Entries'', if m_entries m = [] then JNull else JArr (map entry_json (m_entries m)))]"

definition marshal_message :: "message \<Rightarrow> bytes" where
  "marshal_message m = print_json (message_json m)"

definition decode_type :: "json \<Rightarrow> message_type \<Rightarrow> message_type option" where
  "decode_type v old = (case v of JNull \<Rightarrow> Some old | _ \<Rightarrow> map_option byte_type (decode_byte v))"

definition decode_entries :: "json \<Rightarrow> entry list option" where
  "decode_entries v = map_option (\<lambda>es. case es of None \<Rightarrow> [] | Some es \<Rightarrow> es)
     (decode_slice (\<lambda>j. decode_struct set_entry_field j zero_entry) v)"

definition set_message_field :: "bytes \<Rightarrow> json \<Rightarrow> message \<Rightarrow> message option" where
  "set_message_field k v m =
     (if key_is ''Type'' k then map_option (\<lambda>x. m\<lparr>m_type := x\<rparr>) (decode_type v (m_type m))
      else if key_is ''From'' k then map_option (\<lambda>x. m\<lparr>m_from := x\<rparr>) (decode_uint v (m_from m))
      else if key_is ''To'' k then map_option (\<lambda>x. m\<lparr>m_to := x\<rparr>) (decode_uint v (m_to m))
      else if key_is ''Term'' k then map_option (\<lambda>x. m\<lparr>m_term := x\<rparr>) (decode_uint v (m_term m))
      else if key_is ''Index'' k then map_option (\<lambda>x. m\<lparr>m_index := x\<rparr>) (decode_uint v (m_index m))
      else if key_is ''LogTerm'' k then map_option (\<lambda>x. m\<lparr>m_log_term := x\<rparr>) (decode_uint v (m_log_term m))
      else if key_is ''Commit'' k then map_option (\<lambda>x. m\<lparr>m_commit := x\<rparr>) (decode_uint v (m_commit m))
      else if key_is ''Reject'' k then map_option (\<lambda>x. m\<lparr>m_reject := x\<rparr>) (decode_bool v (m_reject m))
      else if key_is ''Entries'' k then map_option (\<lambda>x. m\<lparr>m_entries := x\<rparr>) (decode_entries v)
      else Some m)"

definition unmarshal_message :: "bytes \<Rightarrow> message option" where
  "unmarshal_message = unmarshal set_message_field zero_message"

subsection \<open>Round trips\<close>

lemmas field_names = key_is_def ascii_def fold_case_def

lemma unmarshal_print [simp]: "json_ok j \<Longrightarrow> unmarshal f z (print_json j) = decode_struct f j z"
  by (simp add: unmarshal_def parse_print)

lemma json_ok_hard_state [simp]: "json_ok (hard_state_json h)"
  by (simp add: hard_state_json_def)

lemma decode_hard_state_json: "decode_struct set_hard_state_field (hard_state_json h) zero_hard_state = Some h"
  by (simp add: hard_state_json_def set_hard_state_field_def zero_hard_state_def field_names)

lemma hard_state_roundtrip: "unmarshal_hard_state (marshal_hard_state h) = Some h"
  by (simp add: unmarshal_hard_state_def marshal_hard_state_def decode_hard_state_json)

lemma json_ok_entry [simp]: "json_ok (entry_json e)"
  by (simp add: entry_json_def)

lemma decode_entry_json: "decode_struct set_entry_field (entry_json e) zero_entry = Some e"
  by (simp add: entry_json_def set_entry_field_def zero_entry_def field_names)

lemma entry_roundtrip: "unmarshal_entry (marshal_entry e) = Some e"
  by (simp add: unmarshal_entry_def marshal_entry_def decode_entry_json)

lemma decode_type_json:
  "proper_type ty \<Longrightarrow> decode_type (JNum (show_nat (unat (type_byte ty)))) old = Some ty"
  by (simp add: decode_type_def show_nat_digits byte_bound)

lemma decode_entries_json:
  "decode_entries (if es = [] then JNull else JArr (map entry_json es)) = Some es"
  by (simp add: decode_entries_def decode_list_map decode_entry_json)

lemma json_ok_number [simp]: "json_ok (JNum (show_nat n))"
  using json_ok_uint[of "0"] show_nat_digits[of n] by (auto simp: is_num_char_def list_all_iff)

lemma json_ok_message: "json_ok (message_json m)"
  by (simp add: message_json_def del: json_ok.simps(1))

lemma message_roundtrip:
  assumes "proper_type (m_type m)"
  shows "unmarshal_message (marshal_message m) = Some m"
proof -
  have "unmarshal_message (marshal_message m) = decode_struct set_message_field (message_json m) zero_message"
    by (simp add: unmarshal_message_def marshal_message_def json_ok_message)
  also have "\<dots> = Some m"
    by (simp add: message_json_def set_message_field_def field_names decode_type_json[OF assms] decode_entries_json
        zero_message_def message_of_def del: json_slice_def)
  finally show ?thesis .
qed

interpretation hard_states: codec marshal_hard_state unmarshal_hard_state
  by unfold_locales (rule hard_state_roundtrip)

interpretation entries: codec marshal_entry unmarshal_entry
  by unfold_locales (rule entry_roundtrip)

end
