(* ===== verification/Raft_Storage.thy ===== *)
theory Raft_Storage
  imports Raft_Node Raft_Json Engine "HOL-Library.Multiset"
begin

section \<open>internal/raft/storage.go: saving and recovering a replica\<close>

text \<open>
  \<open>Persister\<close> saves the hard state under one key and each entry under a key made of its index.
  \<open>persist\<close> makes a sequence of calls to the store; \<open>os k\<close> says what the operating system does
  during the \<open>k\<close>-th. \<open>json.Marshal\<close> cannot fail on these structs. \<open>LoadHardState\<close> evaluates its
  result after the call that fills it, as the compiler orders it.
\<close>

datatype recover_error =
  NilPersister | FromRaft raft_error | FromStore storage_error | BadJson | CommitBeyondLog | RecoverPanic

definition hard_state_key :: bytes where
  "hard_state_key = ascii ''raft/hard-state''"

definition log_prefix :: bytes where
  "log_prefix = ascii ''raft/log/''"

definition log_end :: bytes where
  "log_end = ascii ''raft/log0''"

definition entry_key :: "u64 \<Rightarrow> bytes" where
  "entry_key i = log_prefix @ be_bytes 8 (unat i)"

fun put_entries :: "(nat \<Rightarrow> faults) \<Rightarrow> nat \<Rightarrow> entry list \<Rightarrow> db \<Rightarrow> (storage_error, db) outcome" where
  "put_entries os k [] d = Done d"
| "put_entries os k (e # es) d =
     and_then (db_put (os k) (entry_key (e_index e)) (marshal_entry e) d) (put_entries os (Suc k) es) id"

definition persist :: "(nat \<Rightarrow> faults) \<Rightarrow> ready_work \<Rightarrow> db \<Rightarrow> (storage_error, db) outcome" where
  "persist os r d =
     and_then (db_put (os 0) hard_state_key (marshal_hard_state (rd_hard_state r)) d)
       (\<lambda>d1. and_then (put_entries os 1 (rd_entries r) d1) (db_sync (os (Suc (length (rd_entries r))))) id) id"

definition load_hard_state :: "db \<Rightarrow> recover_error + hard_state" where
  "load_hard_state d =
     (case db_get hard_state_key d of
        Inl err \<Rightarrow> Inl (FromStore err)
      | Inr data \<Rightarrow> (case unmarshal_hard_state data of None \<Rightarrow> Inl BadJson | Some h \<Rightarrow> Inr h))"

fun unmarshal_entries :: "bytes list \<Rightarrow> entry list option" where
  "unmarshal_entries [] = Some []"
| "unmarshal_entries (v # vs) =
     (case unmarshal_entry v of None \<Rightarrow> None | Some e \<Rightarrow> map_option (Cons e) (unmarshal_entries vs))"

definition load_entries :: "db \<Rightarrow> recover_error + entry list" where
  "load_entries d =
     (case unmarshal_entries (map snd (db_scan log_prefix log_end d)) of
        None \<Rightarrow> Inl BadJson | Some es \<Rightarrow> Inr (sort_key e_index es))"

fun replay_entries :: "entry list \<Rightarrow> raft_log \<Rightarrow> (raft_error, raft_log) outcome" where
  "replay_entries [] l = Done l"
| "replay_entries (e # es) l =
     (if e_index e \<le> last_index l then replay_entries es l
      else and_then (log_append [e] l) (replay_entries es) id)"

definition restore :: "node \<Rightarrow> hard_state \<Rightarrow> db \<Rightarrow> recover_error + node" where
  \<comment> \<open>\<open>RecoverNode\<close> from \<open>LoadEntries\<close> on\<close>
  "restore n h d =
     (case load_entries d of
        Inl err \<Rightarrow> Inl err
      | Inr es \<Rightarrow>
          (case replay_entries es (nd_log n) of
             Panic \<Rightarrow> Inl RecoverPanic
           | Failed err l \<Rightarrow> Inl (FromRaft err)
           | Done l \<Rightarrow>
               if hs_commit h > last_index l then Inl CommitBeyondLog
               else Inr (recompute_membership
                      (n\<lparr>nd_term := hs_term h, nd_vote := hs_vote h,
                         nd_log := l\<lparr>committed := hs_commit h\<rparr>, nd_last_hard := h\<rparr>))))"

definition recover_node :: "config \<Rightarrow> db option \<Rightarrow> recover_error + node" where
  "recover_node c persister =
     (case persister of
        None \<Rightarrow> Inl NilPersister
      | Some d \<Rightarrow>
          (case new_node c of
             Inl err \<Rightarrow> Inl (FromRaft err)
           | Inr n \<Rightarrow>
               (case load_hard_state d of
                  Inl err \<Rightarrow> if err = FromStore KeyNotFound then restore n zero_hard_state d else Inl err
                | Inr h \<Rightarrow> restore n h d)))"

subsection \<open>Keys\<close>

lemma entry_key_inj: "entry_key i = entry_key j \<longleftrightarrow> i = j"
proof
  assume "entry_key i = entry_key j"
  then have "be_bytes 8 (unat i) = be_bytes 8 (unat j)" by (simp add: entry_key_def)
  then have "unat i = unat j"
    by (rule be_bytes_inj) (use unsigned_less[where ?'a=nat, of i] unsigned_less[where ?'a=nat, of j] in simp_all)
  then show "i = j" by (simp add: word_eq_unat)
qed simp

lemma prefix_le: "(xs :: bytes) \<le> xs @ ys"
proof -
  have "xs < xs @ y # zs" for y :: byte and zs
    by (induction xs) auto
  then show ?thesis by (cases ys) (auto intro: less_imp_le)
qed

lemma in_range_entry_key [simp]: "in_range log_prefix log_end (entry_key i)"
  by (simp add: in_range_def entry_key_def prefix_le) (simp add: log_prefix_def log_end_def ascii_def word_less_unat)

lemma hard_state_key_range: "\<not> in_range log_prefix log_end hard_state_key" "hard_state_key \<noteq> []" "entry_key i \<noteq> []"
  by (simp_all add: in_range_def log_prefix_def log_end_def hard_state_key_def ascii_def word_less_unat entry_key_def
      not_le[symmetric])

subsection \<open>What is stored is read back\<close>

text \<open>
  The abstract view of the store: a hard state and a partial map from indices to entries. Saving
  overwrites the map index by index; nothing ever removes an index.
\<close>

definition index_map :: "entry list \<Rightarrow> u64 \<Rightarrow> entry option" where
  \<comment> \<open>the last entry of the list with the index\<close>
  "index_map es = map_of (rev (map (\<lambda>e. (e_index e, e)) es))"

definition stores :: "hard_state \<Rightarrow> (u64 \<Rightarrow> entry option) \<Rightarrow> db \<Rightarrow> bool" where
  "stores h M d \<longleftrightarrow> good_db d \<and> Mapping.lookup (db_data d) hard_state_key = Some (marshal_hard_state h) \<and>
     (\<forall>i. Mapping.lookup (db_data d) (entry_key i) = map_option marshal_entry (M i)) \<and>
     (\<forall>k. in_range log_prefix log_end k \<longrightarrow> Mapping.lookup (db_data d) k \<noteq> None \<longrightarrow> (\<exists>i. k = entry_key i)) \<and>
     (\<forall>i e. M i = Some e \<longrightarrow> e_index e = i)"

definition stored_entries :: "(u64 \<Rightarrow> entry option) \<Rightarrow> entry list" where
  "stored_entries M = map (\<lambda>i. the (M i)) (sorted_list_of_set (dom M))"

lemma index_map_index: "index_map es i = Some e \<Longrightarrow> e_index e = i"
  by (auto simp: index_map_def dest!: map_of_SomeD)

lemma load_hard_state_stored: "stores h M d \<Longrightarrow> load_hard_state d = Inr h"
  using good_db_finite[of d] by (simp add: load_hard_state_def db_get_def stores_def hard_state_roundtrip)

lemma unmarshal_entries_map:
  "(\<And>v. v \<in> set vs \<Longrightarrow> unmarshal_entry (f v) = Some (g v)) \<Longrightarrow> unmarshal_entries (map f vs) = Some (map g vs)"
  by (induction vs) auto

lemma stored_entries_facts:
  assumes "\<And>i e. M i = Some e \<Longrightarrow> e_index e = i"
  shows "map e_index (stored_entries M) = sorted_list_of_set (dom M)" "distinct (stored_entries M)"
    "set (stored_entries M) = ran M"
proof -
  show idx: "map e_index (stored_entries M) = sorted_list_of_set (dom M)"
    unfolding stored_entries_def map_map
    by (rule map_idI) (use assms in auto)
  show "distinct (stored_entries M)"
    using idx by (metis distinct_map sorted_list_of_set.distinct_sorted_key_list_of_set)
  have "finite (dom M)" by simp
  then show "set (stored_entries M) = ran M"
    by (force simp: stored_entries_def ran_def dom_def image_iff)
qed

lemma load_entries_stored:
  assumes d: "stores h M d"
  shows "load_entries d = Inr (stored_entries M)"
proof -
  let ?lk = "Mapping.lookup (db_data d)"
  define ks where "ks = filter (in_range log_prefix log_end) (sorted_list_of_set (Mapping.keys (db_data d)))"
  define g where "g k = the (M (THE i. k = entry_key i))" for k
  have M: "\<And>i e. M i = Some e \<Longrightarrow> e_index e = i" using d by (simp add: stores_def)
  have fin: "finite (Mapping.keys (db_data d))" using good_db_finite d by (simp add: stores_def)
  have gi: "g (entry_key i) = the (M i)" for i
    by (simp add: g_def entry_key_inj)
  have keys: "set ks = entry_key ` dom M"
  proof -
    have "set ks = {k. in_range log_prefix log_end k \<and> ?lk k \<noteq> None}"
      using fin by (auto simp: ks_def keys_dom_lookup)
    also have "\<dots> = {entry_key i | i. ?lk (entry_key i) \<noteq> None}"
      using d in_range_entry_key unfolding stores_def by blast
    also have "\<dots> = entry_key ` dom M"
      using d by (simp add: stores_def) blast
    finally show ?thesis .
  qed
  have val: "Mapping.lookup_default [] (db_data d) k = marshal_entry (g k)" if "k \<in> set ks" for k
    using that d gi unfolding keys by (auto simp: stores_def lookup_default_def)
  have scan: "unmarshal_entries (map snd (db_scan log_prefix log_end d)) = Some (map g ks)"
    using val by (simp add: db_scan_def ks_def[symmetric] comp_def unmarshal_entries_map entry_roundtrip)
  have "inj_on g (set ks)"
  proof (rule inj_onI)
    fix k k' assume "k \<in> set ks" "k' \<in> set ks" "g k = g k'"
    then show "k = k'" using M gi unfolding keys by (metis domD imageE option.sel)
  qed
  then have "distinct (map g ks)" by (simp add: distinct_map ks_def)
  moreover have "set (map g ks) = set (stored_entries M)"
  proof -
    have "set (map g ks) = (\<lambda>i. the (M i)) ` dom M"
      unfolding set_map keys by (simp add: image_image gi)
    then show ?thesis by (simp add: stored_entries_def)
  qed
  moreover have idx: "map e_index (stored_entries M) = sorted_list_of_set (dom M)"
    using M by (rule stored_entries_facts(1))
  moreover have "distinct (map e_index (stored_entries M))" by (simp add: idx)
  then have "inj_on e_index (set (stored_entries M))" by (simp only: distinct_map)
  ultimately have "sort_key e_index (map g ks) = stored_entries M"
    by (intro map_sorted_distinct_set_unique[of e_index])
      (simp_all add: idx distinct_map[of e_index "sort_key e_index (map g ks)"])
  then show ?thesis by (simp add: load_entries_def scan)
qed

subsection \<open>Saving\<close>

definition ready_fits :: "ready_work \<Rightarrow> bool" where
  \<comment> \<open>no record exceeds the 32-bit length of the log format\<close>
  "ready_fits r \<longleftrightarrow> record_fits \<lparr>wr_key = hard_state_key, wr_value = marshal_hard_state (rd_hard_state r)\<rparr> \<and>
     (\<forall>e \<in> set (rd_entries r). record_fits \<lparr>wr_key = entry_key (e_index e), wr_value = marshal_entry e\<rparr>)"

lemma put_entries_puts:
  "put_entries os k es d = Done d' \<Longrightarrow>
   (\<forall>e \<in> set es. record_fits \<lparr>wr_key = entry_key (e_index e), wr_value = marshal_entry e\<rparr>) \<Longrightarrow>
   db_store.puts (map (\<lambda>e. (entry_key (e_index e), marshal_entry e)) es) d d'"
proof (induction es arbitrary: k d)
  case Nil
  then show ?case by (simp add: db_store.puts_Nil)
next
  case (Cons e es)
  then obtain d1 where d1: "db_put (os k) (entry_key (e_index e)) (marshal_entry e) d = Done d1"
    "put_entries os (Suc k) es d1 = Done d'"
    by (cases "db_put (os k) (entry_key (e_index e)) (marshal_entry e) d") auto
  then have "put_ok (entry_key (e_index e)) (marshal_entry e) d d1"
    using Cons.prems(2) by (auto simp: put_ok_def)
  then show ?case
    using Cons.IH[OF d1(2)] Cons.prems(2) by (auto intro: db_store.puts_Cons)
qed

lemma persist_puts:
  assumes "persist os r d = Done d'" "ready_fits r"
  obtains d1 where "db_store.puts ((hard_state_key, marshal_hard_state (rd_hard_state r)) #
      map (\<lambda>e. (entry_key (e_index e), marshal_entry e)) (rd_entries r)) d d1" "sync_ok d1 d'"
proof -
  obtain d0 where d0: "db_put (os 0) hard_state_key (marshal_hard_state (rd_hard_state r)) d = Done d0"
    and rest: "and_then (put_entries os 1 (rd_entries r) d0) (db_sync (os (Suc (length (rd_entries r))))) id = Done d'"
    using assms(1) by (cases "db_put (os 0) hard_state_key (marshal_hard_state (rd_hard_state r)) d") (auto simp: persist_def)
  obtain d1 where d1: "put_entries os 1 (rd_entries r) d0 = Done d1" "db_sync (os (Suc (length (rd_entries r)))) d1 = Done d'"
    using rest by (cases "put_entries os 1 (rd_entries r) d0") auto
  show ?thesis
  proof (rule that[of d1])
    show "sync_ok d1 d'" using d1(2) by (auto simp: sync_ok_def)
    show "db_store.puts ((hard_state_key, marshal_hard_state (rd_hard_state r)) #
        map (\<lambda>e. (entry_key (e_index e), marshal_entry e)) (rd_entries r)) d d1"
      using d0 put_entries_puts[OF d1(1)] assms(2)
      by (intro db_store.puts_Cons[of _ _ _ d0]) (auto simp: put_ok_def ready_fits_def)
  qed
qed

lemma index_map_keys:
  "map_of (rev (map (\<lambda>e. (entry_key (e_index e), marshal_entry e)) es)) (entry_key i) =
     map_option marshal_entry (index_map es i)"
  by (induction es rule: rev_induct) (auto simp: index_map_def entry_key_inj)

lemma entry_puts_keys:
  "map_of (rev (map (\<lambda>e. (entry_key (e_index e), marshal_entry e)) es)) k \<noteq> None \<Longrightarrow> \<exists>i. k = entry_key i"
  by (auto dest!: map_of_SomeD)

text \<open>Saving a Ready: the hard state is the new one, the entries are overwritten; a crash keeps it all.\<close>

lemma persist_stores:
  assumes M: "good_db d" "\<And>i. Mapping.lookup (db_data d) (entry_key i) = map_option marshal_entry (M i)"
    "\<And>k. in_range log_prefix log_end k \<Longrightarrow> Mapping.lookup (db_data d) k \<noteq> None \<Longrightarrow> \<exists>i. k = entry_key i"
    "\<And>i e. M i = Some e \<Longrightarrow> e_index e = i"
    and p: "persist os r d = Done d'" "ready_fits r"
  shows "stores (rd_hard_state r) (M ++ index_map (rd_entries r)) d'" and "synced_db d'"
proof -
  let ?kvs = "(hard_state_key, marshal_hard_state (rd_hard_state r)) #
      map (\<lambda>e. (entry_key (e_index e), marshal_entry e)) (rd_entries r)"
  obtain d1 where d1: "db_store.puts ?kvs d d1" "sync_ok d1 d'"
    using persist_puts[OF p] by blast
  have good1: "good_db d1 \<and> Mapping.lookup (db_data d1) = Mapping.lookup (db_data d) ++ map_of (rev ?kvs)"
    by (rule db_store.puts_visible[OF d1(1) M(1)])
  have sync: "good_db d'" "synced_db d'" "Mapping.lookup (db_data d') = Mapping.lookup (db_data d1)"
    using db_store.sync_keeps[OF conjunct1[OF good1] d1(2)] by auto
  have key: "entry_key i \<noteq> hard_state_key" for i
    using hard_state_key_range(1) in_range_entry_key by metis
  have view: "Mapping.lookup (db_data d') k = (Mapping.lookup (db_data d) ++ map_of (rev ?kvs)) k" for k
    using good1 sync(3) by simp
  have hs: "Mapping.lookup (db_data d') hard_state_key = Some (marshal_hard_state (rd_hard_state r))"
  proof -
    have "map_of (rev (map (\<lambda>e. (entry_key (e_index e), marshal_entry e)) (rd_entries r))) hard_state_key = None"
      using entry_puts_keys[of "rd_entries r" hard_state_key] key by metis
    then show ?thesis unfolding view by (simp add: map_add_def)
  qed
  have es: "Mapping.lookup (db_data d') (entry_key i) = map_option marshal_entry ((M ++ index_map (rd_entries r)) i)" for i
    unfolding view using M(2)[of i] key[of i] index_map_keys[of "rd_entries r" i]
    by (auto simp: map_add_def split: option.splits)
  have ks: "\<exists>i. k = entry_key i" if "in_range log_prefix log_end k" "Mapping.lookup (db_data d') k \<noteq> None" for k
    using that M(3)[OF that(1)] entry_puts_keys[of "rd_entries r" k] hard_state_key_range(1)
    unfolding view by (auto simp: map_add_def split: option.splits if_splits)
  have idx: "\<And>i e. (M ++ index_map (rd_entries r)) i = Some e \<Longrightarrow> e_index e = i"
    using M(4) index_map_index by (auto simp: map_add_def split: option.splits)
  show "stores (rd_hard_state r) (M ++ index_map (rd_entries r)) d'"
    using sync(1) hs es ks idx by (simp add: stores_def)
  show "synced_db d'" by (rule sync(2))
qed

lemma stores_restart: "stores h M d \<Longrightarrow> synced_db d \<Longrightarrow> restart_db d d' \<Longrightarrow> stores h M d'"
  using db_store.restart_keeps[of d d'] by (simp add: stores_def)

subsection \<open>A recovered log\<close>

lemma replay_entries_log:
  "log_wf l \<Longrightarrow> batch_at (length (entries l)) es \<Longrightarrow>
   replay_entries es l = Done (l\<lparr>entries := entries l @ es\<rparr>)"
proof (induction es arbitrary: l)
  case Nil
  then show ?case by simp
next
  case (Cons e es)
  let ?l = "l\<lparr>entries := entries l @ [e]\<rparr>"
  have b: "batch_at (length (entries l)) [e]" "batch_at (length (entries ?l)) es"
    using Cons.prems(2) by simp_all
  have app: "log_append [e] l = Done ?l"
    by (rule log_append_fresh[OF Cons.prems(1) b(1)])
  then have "log_wf ?l" using log_append_wf[OF Cons.prems(1), of "[e]"] by simp
  moreover have "\<not> e_index e \<le> last_index l"
    using b(1) length_entries[OF Cons.prems(1)] by (simp add: word_le_unat)
  ultimately show ?case
    using Cons.IH[of ?l] b(2) app by simp
qed

end
