(* ===== verification/Recovery.thy ===== *)
theory Recovery
  imports Raft_Storage Storage_Properties Node_Frame
begin

section \<open>Saving and recovering a replica\<close>

text \<open>
  What a restarted replica finds, as a function of what was saved: the stored entries are a list
  that each save overwrites from some index on, and \<open>RecoverNode\<close> rebuilds the log from that list.
\<close>

definition overlay :: "nat \<Rightarrow> entry list \<Rightarrow> entry list \<Rightarrow> entry list" where
  \<comment> \<open>the entries \<open>old\<close> (index 1 first) after \<open>new\<close> was saved at the indices \<open>k + 1, \<dots>\<close>\<close>
  "overlay k new old = take k old @ new @ drop (k + length new) old"

lemma index_map_snoc: "index_map (es @ [e]) i = (if e_index e = i then Some e else index_map es i)"
  by (simp add: index_map_def)

lemma index_map_batch:
  "batch_at k es \<Longrightarrow>
   index_map es i = (if k \<le> unat i \<and> unat i < k + length es then Some (es ! (unat i - k)) else None)"
proof (induction es rule: rev_induct)
  case Nil
  then show ?case by (simp add: index_map_def)
next
  case (snoc e es)
  then have "unat (e_index e) = k + length es" by (simp add: batch_at_append)
  then show ?case
    using snoc by (auto simp: index_map_snoc batch_at_append nth_append word_eq_unat)
qed

lemma batch_at_overlay:
  assumes "batch_at 1 old" "batch_at (Suc k) new" "k \<le> length old"
  shows "batch_at 1 (overlay k new old)"
proof -
  have "batch_at (Suc (k + length new)) (drop (k + length new) old)"
    using assms(1) by (auto simp: batch_at_def)
  moreover have "batch_at 1 (take k old)"
    using assms(1) by (auto simp: batch_at_def)
  ultimately show ?thesis
    using assms(2,3) by (simp add: overlay_def batch_at_append min_def)
qed

lemma index_map_overlay:
  assumes "batch_at 1 old" "batch_at (Suc k) new" "k \<le> length old"
  shows "index_map old ++ index_map new = index_map (overlay k new old)"
proof
  fix i
  show "(index_map old ++ index_map new) i = index_map (overlay k new old) i"
    using assms unfolding index_map_batch[OF batch_at_overlay[OF assms]] map_add_def
    by (auto simp: index_map_batch overlay_def nth_append min_def Suc_le_eq)
qed

lemma stored_entries_batch:
  assumes "batch_at 1 es"
  shows "stored_entries (index_map es) = es"
proof -
  have dom: "dom (index_map es) = set (map e_index es)"
    by (force simp: index_map_def dom_map_of_conv_image_fst)
  have "sorted_wrt (<) (map e_index es)"
    using assms by (auto simp: sorted_wrt_iff_nth_less batch_at_def word_less_unat)
  then have "sorted_list_of_set (dom (index_map es)) = map e_index es"
    unfolding dom by (intro sorted_list_of_set.idem_if_sorted_distinct) (auto simp: strict_sorted_iff)
  moreover have "the (index_map es (e_index (es ! j))) = es ! j" if "j < length es" for j
    using assms that by (simp add: index_map_batch) (simp add: batch_at_def)
  ultimately show ?thesis
    by (auto simp: stored_entries_def intro!: nth_equalityI)
qed

subsection \<open>Recovering\<close>

lemma restore_stored:
  assumes d: "stores h (index_map es) d" and es: "batch_at 1 es" and n: "nd_log n = new_log"
    and c: "unat (hs_commit h) \<le> length es"
  shows "restore n h d = Inr (recompute_membership
      (n\<lparr>nd_term := hs_term h, nd_vote := hs_vote h,
         nd_log := \<lparr>entries = zero_entry # es, committed = hs_commit h, applied = 0\<rparr>, nd_last_hard := h\<rparr>))"
proof -
  have load: "load_entries d = Inr es"
    using load_entries_stored[OF d] stored_entries_batch[OF es] by simp
  have replay: "replay_entries es new_log = Done (new_log\<lparr>entries := entries new_log @ es\<rparr>)"
    using replay_entries_log[OF new_log_wf] es by (simp add: new_log_def)
  have wf: "log_wf (new_log\<lparr>entries := entries new_log @ es\<rparr>)"
    using log_append_wf[OF new_log_wf, of es] log_append_fresh[OF new_log_wf, of es] es by (simp add: new_log_def)
  then have "\<not> last_index (new_log\<lparr>entries := entries new_log @ es\<rparr>) < hs_commit h"
    using length_entries[OF wf] c by (simp add: word_less_unat new_log_def)
  then show ?thesis
    by (simp add: restore_def load n replay) (simp add: new_log_def)
qed

lemma recover_stored:
  assumes "stores h (index_map es) d" "batch_at 1 es" "new_node c = Inr n0" "nd_log n0 = new_log" "unat (hs_commit h) \<le> length es"
  shows "recover_node c (Some d) = Inr (recompute_membership
      (n0\<lparr>nd_term := hs_term h, nd_vote := hs_vote h,
         nd_log := \<lparr>entries = zero_entry # es, committed = hs_commit h, applied = 0\<rparr>, nd_last_hard := h\<rparr>))"
  using restore_stored[OF assms(1,2,4,5)] load_hard_state_stored[OF assms(1)] assms(3)
  by (simp add: recover_node_def)

lemma new_node_log: "new_node c = Inr n \<Longrightarrow> nd_log n = new_log"
  by (auto simp: new_node_def recompute_membership_def split: if_splits prod.splits)

lemma stores_bare_view:
  assumes "stores h M d"
  shows "good_db d" "\<And>i. Mapping.lookup (db_data d) (entry_key i) = map_option marshal_entry (M i)"
    "\<And>k. in_range log_prefix log_end k \<Longrightarrow> Mapping.lookup (db_data d) k \<noteq> None \<Longrightarrow> \<exists>i. k = entry_key i"
    "\<And>i e. M i = Some e \<Longrightarrow> e_index e = i"
  using assms by (auto simp: stores_def)

lemma persist_over_stored:
  assumes "stores h (index_map old) d" "batch_at 1 old" "batch_at (Suc k) (rd_entries r)" "k \<le> length old"
    and "persist os r d = Done d'" "ready_fits r"
  shows "stores (rd_hard_state r) (index_map (overlay k (rd_entries r) old)) d'" and "synced_db d'"
  using persist_stores[OF stores_bare_view[OF assms(1)] assms(5,6)] index_map_overlay[OF assms(2-4)] by simp_all

lemma persist_fresh:
  assumes "db_holds [] 0 d" "persist os r d = Done d'" "ready_fits r"
  shows "stores (rd_hard_state r) (index_map (rd_entries r)) d'" and "synced_db d'"
proof -
  have "good_db d" unfolding good_db_def using assms(1) by blast
  moreover have "Mapping.lookup (db_data d) = Map.empty"
    using assms(1) by (auto simp: db_holds_def)
  ultimately show "stores (rd_hard_state r) (index_map (rd_entries r)) d'" "synced_db d'"
    using persist_stores[of d Map.empty, OF _ _ _ _ assms(2,3)] by simp_all
qed

subsection \<open>Any sequence of saves\<close>

fun persist_all :: "((nat \<Rightarrow> faults) \<times> ready_work) list \<Rightarrow> db \<Rightarrow> db option" where
  \<comment> \<open>every save returns a nil error\<close>
  "persist_all [] d = Some d"
| "persist_all ((os, r) # rs) d = (case persist os r d of Done d' \<Rightarrow> persist_all rs d' | _ \<Rightarrow> None)"

definition first_saved :: "ready_work \<Rightarrow> entry list \<Rightarrow> nat" where
  \<comment> \<open>how many entries come before the saved ones\<close>
  "first_saved r es = (case rd_entries r of [] \<Rightarrow> length es | e # _ \<Rightarrow> unat (e_index e) - 1)"

fun overlay_all :: "ready_work list \<Rightarrow> entry list \<Rightarrow> entry list" where
  "overlay_all [] es = es"
| "overlay_all (r # rs) es = overlay_all rs (overlay (first_saved r es) (rd_entries r) es)"

fun saves_fit :: "ready_work list \<Rightarrow> entry list \<Rightarrow> bool" where
  \<comment> \<open>each save is a contiguous batch that starts inside or right after what is there\<close>
  "saves_fit [] es \<longleftrightarrow> True"
| "saves_fit (r # rs) es \<longleftrightarrow> ready_fits r \<and> batch_at (Suc (first_saved r es)) (rd_entries r) \<and> first_saved r es \<le> length es \<and>
     saves_fit rs (overlay (first_saved r es) (rd_entries r) es)"

lemma persist_all_stores:
  "persist_all rs d = Some d' \<Longrightarrow> stores h (index_map es) d \<Longrightarrow> synced_db d \<Longrightarrow> batch_at 1 es \<Longrightarrow> saves_fit (map snd rs) es \<Longrightarrow>
   stores (last (h # map (rd_hard_state \<circ> snd) rs)) (index_map (overlay_all (map snd rs) es)) d' \<and> synced_db d' \<and>
   batch_at 1 (overlay_all (map snd rs) es)"
proof (induction rs d arbitrary: h es rule: persist_all.induct)
  case (1 d)
  then show ?case by simp
next
  case (2 os r rs d)
  obtain d1 where d1: "persist os r d = Done d1" "persist_all rs d1 = Some d'"
    using 2(2) by (auto split: outcome.splits)
  have fits: "ready_fits r" "batch_at (Suc (first_saved r es)) (rd_entries r)" "first_saved r es \<le> length es"
    "saves_fit (map snd rs) (overlay (first_saved r es) (rd_entries r) es)"
    using 2(6) by auto
  note st = persist_over_stored[OF 2(3,5) fits(2,3) d1(1) fits(1)]
  show ?case
    using 2(1)[OF d1 st batch_at_overlay[OF 2(5) fits(2,3)] fits(4)] by (simp split: if_splits)
qed

lemma recover_after_saves:
  assumes "op_dir opts \<noteq> ''''" "db_open no_faults opts None = Inr d" "persist_all (rs @ [(os, r)]) d = Some d1"
    and "saves_fit (map snd rs @ [r]) []" "es = overlay_all (map snd rs @ [r]) []"
  shows "synced_db d1" and "batch_at 1 es"
    and "restart_db d1 d2 \<Longrightarrow> new_node c = Inr n0 \<Longrightarrow> unat (hs_commit (rd_hard_state r)) \<le> length es \<Longrightarrow>
      recover_node c (Some d2) = Inr (recompute_membership
      (n0\<lparr>nd_term := hs_term (rd_hard_state r), nd_vote := hs_vote (rd_hard_state r),
         nd_log := \<lparr>entries = zero_entry # es, committed = hs_commit (rd_hard_state r), applied = 0\<rparr>,
         nd_last_hard := rd_hard_state r\<rparr>))"
proof -
  obtain os1 r1 rs' where rs: "rs @ [(os, r)] = (os1, r1) # rs'" by (cases rs) auto
  obtain d0 where d0: "persist os1 r1 d = Done d0" "persist_all rs' d0 = Some d1"
    using assms(3) by (auto simp: rs split: outcome.splits)
  have all: "map snd rs @ [r] = r1 # map snd rs'" using arg_cong[OF rs, of "map snd"] by simp
  have fits: "ready_fits r1" "batch_at 1 (rd_entries r1)" "saves_fit (map snd rs') (rd_entries r1)"
    using assms(4) unfolding all by (auto simp: overlay_def first_saved_def split: list.splits)
  have es: "overlay_all (map snd rs') (rd_entries r1) = es"
    unfolding assms(5) all by (simp add: overlay_def)
  note st = persist_fresh[OF db_open_fresh[OF assms(1,2)] d0(1) fits(1)]
  have "last (rd_hard_state r1 # map (rd_hard_state \<circ> snd) rs') = rd_hard_state r"
    using arg_cong[OF rs, of "\<lambda>xs. last (map (rd_hard_state \<circ> snd) xs)"] by simp
  then have st1: "stores (rd_hard_state r) (index_map es) d1" "synced_db d1" "batch_at 1 es"
    using persist_all_stores[OF d0(2) st fits(2,3)] es by simp_all
  show "synced_db d1" "batch_at 1 es" by (rule st1(2), rule st1(3))
  assume "restart_db d1 d2" "new_node c = Inr n0" "unat (hs_commit (rd_hard_state r)) \<le> length es"
  then show "recover_node c (Some d2) = Inr (recompute_membership
      (n0\<lparr>nd_term := hs_term (rd_hard_state r), nd_vote := hs_vote (rd_hard_state r),
         nd_log := \<lparr>entries = zero_entry # es, committed = hs_commit (rd_hard_state r), applied = 0\<rparr>,
         nd_last_hard := rd_hard_state r\<rparr>))"
    using stores_restart[OF st1(1,2)] st1(3) new_node_log by (intro recover_stored)
qed

subsection \<open>Two saves, executed\<close>

lemma persist_no_faults:
  assumes "\<not> db_closed d"
  shows "\<exists>d'. persist (\<lambda>_. no_faults) r d = Done d' \<and> \<not> db_closed d'"
proof -
  have put: "\<exists>d'. db_put no_faults k v d = Done d' \<and> \<not> db_closed d'" if "\<not> db_closed d" "k \<noteq> []" for k v d
    using that by (auto simp: db_put_def wal_append_def no_faults_def wal_sync_def Let_def)
  have puts: "\<not> db_closed d \<Longrightarrow> \<exists>d'. put_entries (\<lambda>_. no_faults) j es d = Done d' \<and> \<not> db_closed d'" for j es d
  proof (induction es arbitrary: j d)
    case (Cons e es)
    obtain d1 where d1: "db_put no_faults (entry_key (e_index e)) (marshal_entry e) d = Done d1" "\<not> db_closed d1"
      using put[OF Cons.prems hard_state_key_range(3)] by blast
    then show ?case using Cons.IH[OF d1(2)] by simp
  qed simp
  obtain d1 where d1: "db_put no_faults hard_state_key (marshal_hard_state (rd_hard_state r)) d = Done d1" "\<not> db_closed d1"
    using put[OF assms hard_state_key_range(2)] by blast
  obtain d2 where d2: "put_entries (\<lambda>_. no_faults) 1 (rd_entries r) d1 = Done d2" "\<not> db_closed d2"
    using puts[OF d1(2)] by blast
  have "\<exists>d'. db_sync no_faults d2 = Done d' \<and> \<not> db_closed d'"
    using d2(2) by (auto simp: db_sync_def wal_sync_def no_faults_def)
  then show ?thesis using d1 d2 by (auto simp: persist_def)
qed

lemma persist_all_no_faults:
  "\<not> db_closed d \<Longrightarrow> \<exists>d'. persist_all (map (\<lambda>r. (\<lambda>_. no_faults, r)) rs) d = Some d'"
proof (induction rs arbitrary: d)
  case (Cons r rs)
  obtain d1 where "persist (\<lambda>_. no_faults) r d = Done d1" "\<not> db_closed d1"
    using persist_no_faults[OF Cons.prems] by blast
  then show ?case using Cons.IH by auto
qed simp

lemma restart_exists:
  assumes "synced_db d"
  shows "\<exists>d'. restart_db d d'"
proof -
  obtain rs where rs: "db_holds rs (length rs) d" using assms by (auto simp: synced_db_def)
  let ?f = "\<lparr>f_bytes = f_bytes (w_file (db_wal d)), f_synced = length (f_bytes (w_file (db_wal d)))\<rparr>"
  have "crashed (w_file (db_wal d)) ?f"
    using rs by (auto simp: crashed_def db_holds_def wal_holds_def)
  then show ?thesis
    using db_reopen_holds[OF rs _ store_options_dir, of ?f] store_options_dir unfolding restart_db_def by blast
qed

definition follower_config :: config where
  "follower_config = \<lparr>c_id = 1, c_peers = [1, 2, 3], c_learners = [], c_election_tick = 3, c_heartbeat_tick = 1\<rparr>"

definition append_in_term :: "u64 \<Rightarrow> nat \<Rightarrow> message" where
  \<comment> \<open>from the leader 2 of term \<open>t\<close>: \<open>k\<close> entries of that term right after the placeholder\<close>
  "append_in_term t k =
     \<lparr>m_type = MsgAppend, m_from = 2, m_to = 1, m_term = t, m_index = 0, m_log_term = 0, m_commit = 0, m_reject = False,
      m_entries = map (\<lambda>i. \<lparr>e_index = of_nat i, e_term = t, e_data = [7]\<rparr>) [1..<Suc k]\<rparr>"

definition follow :: "(message \<times> message) \<Rightarrow> (node \<times> node) option" where
  \<comment> \<open>a fresh follower receives two messages; its state after each, \<open>Ready\<close> being served in between\<close>
  "follow ms =
     (case new_node follower_config of
        Inl err \<Rightarrow> None
      | Inr n0 \<Rightarrow>
          (case step sorted_range (fst ms) n0 of
             Done n1 \<Rightarrow> (case step sorted_range (snd ms) (advance n1) of Done n2 \<Rightarrow> Some (n1, n2) | _ \<Rightarrow> None)
           | _ \<Rightarrow> None))"

definition term_hard_state :: "u64 \<Rightarrow> hard_state" where
  "term_hard_state t = \<lparr>hs_term = t, hs_vote = 0, hs_commit = 0\<rparr>"

definition term_entries :: "u64 \<Rightarrow> nat \<Rightarrow> entry list" where
  "term_entries t k = map (\<lambda>i. \<lparr>e_index = of_nat i, e_term = t, e_data = [7]\<rparr>) [1..<Suc k]"

lemma conflicting_appends:
  "map_option (\<lambda>(n1, n2). ((rd_hard_state (ready n1), rd_entries (ready n1)), (rd_hard_state (ready n2), rd_entries (ready n2)),
     entries (nd_log n2))) (follow (append_in_term 1 2, append_in_term 2 1)) =
   Some ((term_hard_state 1, term_entries 1 2), (term_hard_state 2, term_entries 2 1), zero_entry # term_entries 2 1)"
  by code_simp

lemma short_records:
  "list_all (\<lambda>t. length (marshal_hard_state (term_hard_state t)) < 50) [1, 2]"
  "list_all (\<lambda>e. length (marshal_entry e) < 60) (term_entries 1 2 @ term_entries 2 1)"
  by code_simp+

definition plain_ready :: "u64 \<Rightarrow> nat \<Rightarrow> ready_work" where
  "plain_ready t k = \<lparr>rd_hard_state = term_hard_state t, rd_entries = term_entries t k, rd_committed_entries = [], rd_messages = []\<rparr>"

lemma fits_from_parts:
  assumes "rd_hard_state r = term_hard_state t" "rd_entries r = term_entries t k" "(t, k) \<in> {(1, 2), (2, 1)}"
  shows "ready_fits r"
proof -
  have h: "length (marshal_hard_state (term_hard_state t)) < 50"
    using short_records(1) assms(3) by auto
  have e: "length (marshal_entry e) < 60" if "e \<in> set (term_entries t k)" for e
    using short_records(2) assms(3) that unfolding list_all_iff by auto
  have key: "length hard_state_key < 50" "length (entry_key i) < 50" for i
    by (simp_all add: hard_state_key_def entry_key_def log_prefix_def ascii_def)
  show ?thesis
    unfolding ready_fits_def assms(1,2) record_fits_def
  proof (intro conjI ballI)
    fix x assume "x \<in> set (term_entries t k)"
    then show "4 + length (wr_key \<lparr>wr_key = entry_key (e_index x), wr_value = marshal_entry x\<rparr>) +
        length (wr_value \<lparr>wr_key = entry_key (e_index x), wr_value = marshal_entry x\<rparr>) < 2 ^ 32"
      using e[of x] key(2)[of "e_index x"] by simp
  qed (use h key(1) in simp)
qed

lemma two_saves:
  assumes "rd_hard_state r1 = term_hard_state 1" "rd_entries r1 = term_entries 1 2"
    and "rd_hard_state r2 = term_hard_state 2" "rd_entries r2 = term_entries 2 1"
  shows "saves_fit (map snd [(\<lambda>_ :: nat. no_faults, r1)] @ [r2]) []"
    and "map e_term (overlay_all (map snd [(\<lambda>_ :: nat. no_faults, r1)] @ [r2]) []) = [2, 1]"
    and "length (overlay_all (map snd [(\<lambda>_ :: nat. no_faults, r1)] @ [r2]) []) = 2"
  using fits_from_parts[OF assms(1,2)] fits_from_parts[OF assms(3,4)] assms
  by (simp_all add: first_saved_def term_entries_def overlay_def upt_rec)

text \<open>
  C10: open an empty directory, save any sequence of \<open>Ready\<close>s whose calls succeed, crash right after
  the last save, reopen and recover: the replica has the term and vote of the last save and exactly
  the saved entries, each save overwriting the earlier ones index by index, in a well-formed log that
  is committed as far as the last save said and not yet applied.
\<close>

theorem recovery_sees_every_save:
  assumes "op_dir opts \<noteq> ''''" "db_open no_faults opts None = Inr d" "persist_all (rs @ [(os, r)]) d = Some d1"
    and "restart_db d1 d2" "saves_fit (map snd rs @ [r]) []" "new_node c = Inr n0"
    and "unat (hs_commit (rd_hard_state r)) \<le> length (overlay_all (map snd rs @ [r]) [])"
  shows "\<exists>n. recover_node c (Some d2) = Inr n \<and> nd_id n = nd_id n0 \<and> nd_role n = Follower \<and>
    nd_term n = hs_term (rd_hard_state r) \<and> nd_vote n = hs_vote (rd_hard_state r) \<and>
    entries (nd_log n) = zero_entry # overlay_all (map snd rs @ [r]) [] \<and> log_wf (nd_log n) \<and>
    committed (nd_log n) = hs_commit (rd_hard_state r) \<and> applied (nd_log n) = 0"
proof -
  note rec = recover_after_saves[OF assms(1-3,5) refl]
  have "log_wf \<lparr>entries = zero_entry # overlay_all (map snd rs @ [r]) [], committed = c', applied = a\<rparr>" for c' a
    using log_append_wf[OF new_log_wf, of "overlay_all (map snd rs @ [r]) []"]
      log_append_fresh[OF new_log_wf, of "overlay_all (map snd rs @ [r]) []"] rec(2)
    by (simp add: new_log_def log_wf_def)
  moreover have "nd_role n0 = Follower"
    using assms(6) by (auto simp: new_node_def recompute_membership_eq split: if_splits)
  ultimately show ?thesis
    unfolding rec(3)[OF assms(4,6,7)] by (simp add: recompute_membership_eq)
qed

lemma recovery_sees_every_save_witness:
  "\<exists>d1 d2 n. persist_all [(\<lambda>_. no_faults, plain_ready 1 2), (\<lambda>_. no_faults, plain_ready 2 1)] empty_store = Some d1 \<and>
     restart_db d1 d2 \<and> recover_node follower_config (Some d2) = Inr n \<and> nd_term n = 2"
proof -
  let ?rs = "[(\<lambda>_ :: nat. no_faults, plain_ready 1 2)]"
  obtain d1 where d1: "persist_all (?rs @ [(\<lambda>_. no_faults, plain_ready 2 1)]) empty_store = Some d1"
    using persist_all_no_faults[of empty_store "[plain_ready 1 2, plain_ready 2 1]"] by (auto simp: empty_store_def)
  note saves = two_saves[of "plain_ready 1 2" "plain_ready 2 1", simplified plain_ready_def ready_work.simps, OF refl refl refl refl,
      folded plain_ready_def]
  obtain d2 where d2: "restart_db d1 d2"
    using restart_exists recover_after_saves(1)[OF store_options_dir open_empty d1 saves(1) refl] by blast
  obtain n0 where n0: "new_node follower_config = Inr n0"
    by (simp add: new_node_def follower_config_def)
  have "unat (hs_commit (rd_hard_state (plain_ready 2 1))) \<le> length (overlay_all (map snd ?rs @ [plain_ready 2 1]) [])"
    by (simp add: plain_ready_def term_hard_state_def)
  from recovery_sees_every_save[OF store_options_dir open_empty d1 d2 saves(1) n0 this] show ?thesis
    using d1 d2 by (auto simp: plain_ready_def term_hard_state_def)
qed

text \<open>
  C15: entries that a new leader overwrote come back after a restart. A fresh follower appends two
  entries of term 1, then receives the single entry of the leader of term 2 for index 1, which cuts
  its log to that entry; every \<open>Ready\<close> is saved without any fault. After a restart its log has the
  entry of term 2 followed by the dropped entry of term 1.
\<close>

theorem overwritten_entries_come_back:
  "\<exists>n1 n2 d1 d2 n. follow (append_in_term 1 2, append_in_term 2 1) = Some (n1, n2) \<and>
     persist_all [(\<lambda>_. no_faults, ready n1), (\<lambda>_. no_faults, ready n2)] empty_store = Some d1 \<and> restart_db d1 d2 \<and>
     recover_node follower_config (Some d2) = Inr n \<and>
     map e_term (entries (nd_log n2)) = [0, 2] \<and> map e_term (entries (nd_log n)) = [0, 2, 1]"
proof -
  obtain n1 n2 where n: "follow (append_in_term 1 2, append_in_term 2 1) = Some (n1, n2)"
    and parts: "rd_hard_state (ready n1) = term_hard_state 1" "rd_entries (ready n1) = term_entries 1 2"
      "rd_hard_state (ready n2) = term_hard_state 2" "rd_entries (ready n2) = term_entries 2 1"
    and log: "entries (nd_log n2) = zero_entry # term_entries 2 1"
    using conflicting_appends by (cases "follow (append_in_term 1 2, append_in_term 2 1)") auto
  let ?rs = "[(\<lambda>_ :: nat. no_faults, ready n1)]"
  obtain d1 where d1: "persist_all (?rs @ [(\<lambda>_. no_faults, ready n2)]) empty_store = Some d1"
    using persist_all_no_faults[of empty_store "[ready n1, ready n2]"] by (auto simp: empty_store_def)
  note saves = two_saves[OF parts]
  note rec = recover_after_saves[OF store_options_dir open_empty d1 saves(1) refl]
  obtain d2 where d2: "restart_db d1 d2"
    using restart_exists rec(1) by blast
  obtain n0 where n0: "new_node follower_config = Inr n0"
    by (simp add: new_node_def follower_config_def)
  have "unat (hs_commit (rd_hard_state (ready n2))) \<le> length (overlay_all (map snd ?rs @ [ready n2]) [])"
    by (simp add: parts term_hard_state_def)
  note found = rec(3)[OF d2 n0 this]
  show ?thesis
    by (intro exI[of _ n1] exI[of _ n2] exI[of _ d1] exI[of _ d2] exI conjI, rule n, use d1 in simp, rule d2, rule found)
      (use saves(2) in \<open>simp_all add: log term_entries_def recompute_membership_eq del: overlay_all.simps\<close>)
qed

subsection \<open>Other outcomes of RecoverNode\<close>

lemma restore_empty:
  assumes "db_data d = Mapping.empty" "new_node c = Inr n"
  shows "restore n zero_hard_state d = Inr n"
proof -
  have "load_entries d = Inr []"
    by (simp add: load_entries_def db_scan_def assms(1))
  then show ?thesis
    using assms(2)
    by (auto simp: restore_def new_node_def recompute_membership_eq zero_hard_state_def new_log_def split: if_splits)
qed

text \<open>
  without a persister \<open>RecoverNode\<close> fails; a configuration \<open>NewNode\<close> rejects is rejected with the
  same error; over an empty store it builds what \<open>NewNode\<close> builds; over a closed store it fails; and
  a saved commit index beyond the saved entries is reported instead of recovered.
\<close>

lemma recovery_edge_cases:
  "recover_node c None = Inl NilPersister \<and>
   (new_node c = Inl err \<longrightarrow> recover_node c (Some d) = Inl (FromRaft err)) \<and>
   (new_node c = Inr n \<and> \<not> db_closed d \<and> db_data d = Mapping.empty \<longrightarrow> recover_node c (Some d) = Inr n) \<and>
   (new_node c = Inr n \<and> db_closed d \<longrightarrow> recover_node c (Some d) = Inl (FromStore StoreClosed)) \<and>
   (new_node c = Inr n \<and> stores h (index_map es) d \<and> batch_at 1 es \<and> length es < unat (hs_commit h) \<longrightarrow>
      recover_node c (Some d) = Inl CommitBeyondLog)"
proof -
  have "recover_node c (Some d) = Inr n" if "new_node c = Inr n" "\<not> db_closed d" "db_data d = Mapping.empty"
    using that by (simp add: recover_node_def load_hard_state_def db_get_def restore_empty)
  moreover have "recover_node c (Some d) = Inl CommitBeyondLog"
    if n: "new_node c = Inr n" and d: "stores h (index_map es) d" and es: "batch_at 1 es" "length es < unat (hs_commit h)"
    using load_entries_stored[OF d] stored_entries_batch[OF es(1)] load_hard_state_stored[OF d] n es
      replay_entries_log[OF new_log_wf, of es] new_node_log[OF n] log_append_fresh[OF new_log_wf, of es]
      log_append_wf[OF new_log_wf, of es] length_entries[of "new_log\<lparr>entries := entries new_log @ es\<rparr>"]
    by (simp add: recover_node_def restore_def) (simp add: new_log_def word_less_unat)
  ultimately show ?thesis
    by (simp add: recover_node_def load_hard_state_def db_get_def)
qed

lemma recovery_edge_cases_witness:
  "\<exists>n. new_node follower_config = Inr n \<and> recover_node follower_config (Some empty_store) = Inr n"
proof -
  obtain n where "new_node follower_config = Inr n"
    by (simp add: new_node_def follower_config_def)
  then show ?thesis
    using recovery_edge_cases[of follower_config undefined empty_store n] by (simp add: empty_store_def)
qed

end
