(* ===== verification/Raft_Host.thy ===== *)
theory Raft_Host
  imports Recovery Network
begin

section \<open>internal/raft/host.go: a replica with its disk, its connections and its application\<close>

text \<open>
  \<open>Host\<close> owns a replica and does the work it queues: save, then send, then apply, then advance. The
  mutex makes its methods run one at a time, so each is one function. The application is the
  argument \<open>ap\<close> (the \<open>Apply\<close> callback): it changes a state of its own and says whether it
  succeeded. \<open>h_sent\<close> is the messages handed to \<open>transport.Send\<close>, whose errors \<open>driveLocked\<close> ignores;
  what happens to one there is in \<open>Raft_Tcp\<close>. Tick counts are Go \<open>int\<close>s and modelled without bounds.
\<close>

type_synonym 'a application = "entry \<Rightarrow> 'a \<Rightarrow> bool \<times> 'a"

record 'a host =
  h_node :: node
  h_db :: db                              \<comment> \<open>\<open>persister.db\<close>\<close>
  h_peers :: "(node_id, string) mapping"  \<comment> \<open>\<open>transport.peers\<close>\<close>
  h_sent :: "message list"
  h_app :: 'a

record host_config =
  hc_raft :: config
  hc_listen :: string
  hc_peers :: "(node_id, string) mapping"
  hc_persister :: "db option"
  hc_apply_given :: bool

datatype host_error =
  NodeError raft_error | SaveFailed storage_error | ApplyFailed | ConfigIncomplete | CannotRecover recover_error | ListenFailed

subsection \<open>NewHost\<close>

definition host_election_stagger :: "node_id \<Rightarrow> node_id list \<Rightarrow> int \<Rightarrow> int" where
  "host_election_stagger i peers base =
     (if base < 1 \<or> peers = [] then 1
      else let ordered = sort peers;
               position = length (takeWhile (\<lambda>p. p \<noteq> i) ordered)
           in if position < length ordered then 1 + int position * base * 4 div int (length ordered) else 1)"

definition new_host :: "bool \<Rightarrow> 'a \<Rightarrow> host_config \<Rightarrow> host_error + 'a host" where
  \<comment> \<open>the first argument says whether the address can be listened on\<close>
  "new_host can_listen app c =
     (if hc_persister c = None \<or> \<not> hc_apply_given c then Inl ConfigIncomplete
      else let rc = hc_raft c;
               rc' = rc\<lparr>c_election_tick := c_election_tick rc + host_election_stagger (c_id rc) (c_peers rc) (c_election_tick rc)\<rparr>
           in case recover_node rc' (hc_persister c) of
                Inl e \<Rightarrow> Inl (CannotRecover e)
              | Inr n \<Rightarrow> if \<not> can_listen then Inl ListenFailed
                         else Inr \<lparr>h_node = n, h_db = the (hc_persister c), h_peers = hc_peers c, h_sent = [], h_app = app\<rparr>)"

subsection \<open>driveLocked\<close>

fun apply_entries :: "'a application \<Rightarrow> entry list \<Rightarrow> 'a \<Rightarrow> bool \<times> 'a" where
  \<comment> \<open>stops at the first error\<close>
  "apply_entries ap [] a = (True, a)"
| "apply_entries ap (e # es) a =
     (if is_raft_internal_data (e_data e) then apply_entries ap es a
      else let (ok, a') = ap e a in if ok then apply_entries ap es a' else (False, a'))"

definition drive_locked :: "(nat \<Rightarrow> faults) \<Rightarrow> 'a application \<Rightarrow> 'a host \<Rightarrow> (host_error, 'a host) outcome" where
  "drive_locked os ap h =
     (let r = ready (h_node h)
      in if rd_entries r = [] \<and> rd_messages r = [] \<and> rd_committed_entries r = [] \<and>
            rd_hard_state r = nd_last_hard (h_node h) then Done h
         else case persist os r (h_db h) of
                Panic \<Rightarrow> Panic
              | Failed err d \<Rightarrow> Failed (SaveFailed err) (h\<lparr>h_db := d\<rparr>)
              | Done d \<Rightarrow>
                  let h1 = h\<lparr>h_db := d, h_sent := h_sent h @ rd_messages r\<rparr>;
                      (ok, a) = apply_entries ap (rd_committed_entries r) (h_app h1);
                      h2 = h1\<lparr>h_app := a\<rparr>
                  in if ok then Done (h2\<lparr>h_node := advance (h_node h2)\<rparr>) else Failed ApplyFailed h2)"

definition after_node :: "(nat \<Rightarrow> faults) \<Rightarrow> 'a application \<Rightarrow> 'a host \<Rightarrow> node_outcome \<Rightarrow> (host_error, 'a host) outcome" where
  \<comment> \<open>return the replica's error, or drive\<close>
  "after_node os ap h r =
     (case r of
        Panic \<Rightarrow> Panic
      | Failed err n \<Rightarrow> Failed (NodeError err) (h\<lparr>h_node := n\<rparr>)
      | Done n \<Rightarrow> drive_locked os ap (h\<lparr>h_node := n\<rparr>))"

definition host_tick :: "map_range \<Rightarrow> (nat \<Rightarrow> faults) \<Rightarrow> 'a application \<Rightarrow> 'a host \<Rightarrow> (host_error, 'a host) outcome" where
  "host_tick it os ap h = drive_locked os ap (h\<lparr>h_node := tick it (h_node h)\<rparr>)"

definition host_step ::
  "map_range \<Rightarrow> (nat \<Rightarrow> faults) \<Rightarrow> 'a application \<Rightarrow> message \<Rightarrow> 'a host \<Rightarrow> (host_error, 'a host) outcome" where
  "host_step it os ap m h = after_node os ap h (step it m (h_node h))"

definition host_propose :: "(nat \<Rightarrow> faults) \<Rightarrow> 'a application \<Rightarrow> bytes \<Rightarrow> 'a host \<Rightarrow> (host_error, 'a host) outcome" where
  "host_propose os ap data h = after_node os ap h (propose data (h_node h))"

definition host_propose_conf_change ::
  "map_range \<Rightarrow> (nat \<Rightarrow> faults) \<Rightarrow> 'a application \<Rightarrow> node_id list \<Rightarrow> node_id list \<Rightarrow> 'a host \<Rightarrow> (host_error, 'a host) outcome" where
  "host_propose_conf_change it os ap vs ls h = after_node os ap h (propose_conf_change it vs ls (h_node h))"

definition host_add_known_peer :: "node_id \<Rightarrow> 'a host \<Rightarrow> 'a host" where
  "host_add_known_peer i h = h\<lparr>h_node := add_known_peer i (h_node h)\<rparr>"

definition host_add_peer :: "node_id \<Rightarrow> string \<Rightarrow> 'a host \<Rightarrow> 'a host" where
  "host_add_peer i addr h = h\<lparr>h_peers := Mapping.update i addr (h_peers h)\<rparr>"

definition host_status :: "'a host \<Rightarrow> role \<times> u64" where
  "host_status h = status (h_node h)"

definition host_leader :: "'a host \<Rightarrow> node_id" where
  "host_leader h = nd_leader (h_node h)"

subsection \<open>What one drive does\<close>

definition idle :: "node \<Rightarrow> bool" where
  \<comment> \<open>nothing to save, send or apply\<close>
  "idle n \<longleftrightarrow> rd_entries (ready n) = [] \<and> rd_messages (ready n) = [] \<and> rd_committed_entries (ready n) = [] \<and>
     rd_hard_state (ready n) = nd_last_hard n"

text \<open>The four ways a drive ends.\<close>

lemma drive_cases:
  assumes "left_state (drive_locked os ap h) = Some h'"
  obtains (idle) "idle (h_node h)" "drive_locked os ap h = Done h" "h' = h"
  | (unsaved) err d where "\<not> idle (h_node h)" "persist os (ready (h_node h)) (h_db h) = Failed err d"
      "drive_locked os ap h = Failed (SaveFailed err) h'" "h' = h\<lparr>h_db := d\<rparr>"
  | (unapplied) d a where "\<not> idle (h_node h)" "persist os (ready (h_node h)) (h_db h) = Done d"
      "apply_entries ap (rd_committed_entries (ready (h_node h))) (h_app h) = (False, a)"
      "drive_locked os ap h = Failed ApplyFailed h'"
      "h' = h\<lparr>h_db := d, h_sent := h_sent h @ rd_messages (ready (h_node h)), h_app := a\<rparr>"
  | (driven) d a where "\<not> idle (h_node h)" "persist os (ready (h_node h)) (h_db h) = Done d"
      "apply_entries ap (rd_committed_entries (ready (h_node h))) (h_app h) = (True, a)"
      "drive_locked os ap h = Done h'"
      "h' = h\<lparr>h_db := d, h_sent := h_sent h @ rd_messages (ready (h_node h)), h_app := a, h_node := advance (h_node h)\<rparr>"
  using assms
  by (cases "persist os (ready (h_node h)) (h_db h)"; cases "apply_entries ap (rd_committed_entries (ready (h_node h))) (h_app h)")
    (auto simp: drive_locked_def idle_def Let_def split: if_splits)

lemma persist_neq_Panic: "persist os r d \<noteq> Panic"
proof -
  have put: "db_put os k v d \<noteq> Panic" for os k v d
    by (auto simp: db_put_def wal_append_def wal_sync_def Let_def split: prod.splits)
  have puts: "put_entries os j es d \<noteq> Panic" for os j es d
  proof (induction es arbitrary: j d)
    case (Cons e es)
    then show ?case
      using put by (cases "db_put (os j) (entry_key (e_index e)) (marshal_entry e) d") auto
  qed simp
  have sync: "db_sync os d \<noteq> Panic" for os d
    by (simp add: db_sync_def wal_sync_def)
  show ?thesis
    unfolding persist_def
    using put puts sync
    by (cases "db_put (os 0) hard_state_key (marshal_hard_state (rd_hard_state r)) d"; simp)
      (metis and_then.elims outcome.distinct(3,5) outcome.exhaust)
qed

lemma drive_never_panics: "drive_locked os ap h \<noteq> Panic"
  using persist_neq_Panic
  by (auto simp: drive_locked_def Let_def split: outcome.splits prod.splits)

end
