(* ===== verification/Host_Network.thy ===== *)
theory Host_Network
  imports Raft_Host
begin

section \<open>Hosts and the network model\<close>

text \<open>
  A host drives its replica the way a step of the network model does, as long as its application
  accepts the committed entries. \<open>logged_application\<close> is the contract: a relation between the entries
  applied so far and the state of the application that every successful application extends. For every
  application under the contract, each operation of a host leads the group of hosts to a state that
  the network reaches, with the relation kept.
\<close>

definition tracks :: "(entry list \<Rightarrow> 'a \<Rightarrow> bool) \<Rightarrow> (node_id \<Rightarrow> 'a host option) \<Rightarrow> net \<Rightarrow> bool" where
  \<comment> \<open>the hosts' replicas are the network's, what they sent is on its wire, what they applied fits their applications\<close>
  "tracks R hs s \<longleftrightarrow> (\<forall>i. net_node s i = map_option h_node (hs i)) \<and>
     (\<forall>i h. hs i = Some h \<longrightarrow> R (net_applied s i) (h_app h) \<and> (\<forall>m \<in> set (h_sent h). m \<in> set (net_wire s)))"

lemma tracksD:
  assumes "tracks R hs s" "hs i = Some h"
  shows "net_node s i = Some (h_node h)" "R (net_applied s i) (h_app h)" "\<forall>m \<in> set (h_sent h). m \<in> set (net_wire s)"
  using assms by (auto simp: tracks_def)

definition host_operations ::
  "'a application \<Rightarrow> node_id \<Rightarrow> map_range \<Rightarrow> (nat \<Rightarrow> faults) \<Rightarrow> net \<Rightarrow> 'a host \<Rightarrow> (host_error, 'a host) outcome set" where
  \<comment> \<open>a message is handed to a host only if it was sent, and sent to it\<close>
  "host_operations ap i it os s h =
     {host_tick it os ap h} \<union> {host_step it os ap m h | m. m \<in> set (net_wire s) \<and> m_to m = i} \<union>
     range (\<lambda>d. host_propose os ap d h) \<union>
     range (\<lambda>(vs, ls). host_propose_conf_change it os ap vs ls h) \<union> range (\<lambda>p. Done (host_add_known_peer p h))"

lemma tracks_put:
  assumes "tracks R hs s" "hs i = Some h" "h_node h' = n" "h_app h' = h_app h" "h_sent h' = h_sent h"
  shows "tracks R (hs(i \<mapsto> h')) (put_node i n s)"
  using assms unfolding tracks_def by simp

locale logged_application =
  fixes R :: "entry list \<Rightarrow> 'a \<Rightarrow> bool" and ap :: "'a application"
  assumes logs: "R xs a \<Longrightarrow> ap e a = (True, a') \<Longrightarrow> R (xs @ [e]) a'"
begin

lemma apply_logs:
  "R xs a \<Longrightarrow> apply_entries ap es a = (True, a') \<Longrightarrow> R (xs @ filter (\<lambda>e. \<not> is_raft_internal_data (e_data e)) es) a'"
proof (induction es arbitrary: xs a)
  case (Cons e es)
  show ?case
  proof (cases "is_raft_internal_data (e_data e)")
    case True
    then show ?thesis using Cons by simp
  next
    case False
    then obtain a1 where "ap e a = (True, a1)" "apply_entries ap es a1 = (True, a')"
      using Cons.prems(2) by (auto split: prod.splits if_splits)
    then show ?thesis using Cons.IH[of "xs @ [e]" a1] logs[OF Cons.prems(1)] False by simp
  qed
qed simp

lemma tracks_drive:
  assumes "tracks R hs s" "hs i = Some h" "left_state (drive_locked os ap (h\<lparr>h_node := n\<rparr>)) = Some h'"
    and "drive_locked os ap (h\<lparr>h_node := n\<rparr>) \<noteq> Failed ApplyFailed h'"
  shows "\<exists>s'. net_step\<^sup>*\<^sup>* (put_node i n s) s' \<and> tracks R (hs(i \<mapsto> h')) s'"
  using assms(3)
proof (cases rule: drive_cases)
  case idle
  then show ?thesis
    using tracks_put[OF assms(1,2), of h' n] by (intro exI[of _ "put_node i n s"]) simp
next
  case (unsaved err d)
  then show ?thesis
    using tracks_put[OF assms(1,2), of h' n] by (intro exI[of _ "put_node i n s"]) simp
next
  case (unapplied d a)
  then show ?thesis using assms(4) by simp
next
  case (driven d a)
  let ?s = "drive i n (put_node i n s)"
  have "net_step\<^sup>*\<^sup>* (put_node i n s) ?s"
    by (intro r_into_rtranclp net_step.driven) simp
  moreover have "tracks R (hs(i \<mapsto> h')) ?s"
  proof -
    have app: "net_applied ?s j = (if j = i then net_applied s i @
        filter (\<lambda>e. \<not> is_raft_internal_data (e_data e)) (rd_committed_entries (ready n)) else net_applied s j)" for j
      by (simp add: drive_def Let_def)
    have "rd_messages (ready n) = nd_msgs n" by (simp add: ready_def Let_def)
    then show ?thesis
      using driven(3,5) assms(1) tracksD(3)[OF assms(1,2)] apply_logs[OF tracksD(2)[OF assms(1,2)], of "rd_committed_entries (ready n)" a] app
      unfolding tracks_def by auto
  qed
  ultimately show ?thesis by blast
qed

lemma tracks_node_op:
  assumes "tracks R hs s" "hs i = Some h" "left_state (after_node os ap h r) = Some h'"
    and "after_node os ap h r \<noteq> Failed ApplyFailed h'"
    and "\<And>n. left_state r = Some n \<Longrightarrow> net_step s (put_node i n s)"
  shows "\<exists>s'. net_step\<^sup>*\<^sup>* s s' \<and> tracks R (hs(i \<mapsto> h')) s'"
proof (cases r)
  case (Done n)
  then show ?thesis
    using tracks_drive[OF assms(1,2), of os n h'] assms(3-5)
    by (auto simp: after_node_def intro: converse_rtranclp_into_rtranclp)
next
  case (Failed err n)
  then have "tracks R (hs(i \<mapsto> h')) (put_node i n s)"
    using tracks_put[OF assms(1,2), of h' n] assms(3) by (auto simp: after_node_def)
  then show ?thesis using Failed assms(5) by (auto intro!: exI[of _ "put_node i n s"])
next
  case Panic
  then show ?thesis using assms(3) by (simp add: after_node_def)
qed

lemma tracks_operation:
  assumes "tracks R hs s" "hs i = Some h" "map_order it" "r \<in> host_operations ap i it os s h" "left_state r = Some h'"
    and "r \<noteq> Failed ApplyFailed h'"
  shows "\<exists>s'. net_step\<^sup>*\<^sup>* s s' \<and> tracks R (hs(i \<mapsto> h')) s'"
proof -
  note n = tracksD(1)[OF assms(1,2)]
  consider "r = host_tick it os ap h"
    | m where "r = host_step it os ap m h" "m \<in> set (net_wire s)" "m_to m = i"
    | d where "r = host_propose os ap d h"
    | vs ls where "r = host_propose_conf_change it os ap vs ls h"
    | p where "r = Done (host_add_known_peer p h)"
    using assms(4) unfolding host_operations_def by auto
  then show ?thesis
  proof cases
    case 1
    then show ?thesis
      using tracks_drive[OF assms(1,2), of os "tick it (h_node h)" h'] net_step.ticked[OF n assms(3)] assms(5,6)
      by (auto simp: host_tick_def intro: converse_rtranclp_into_rtranclp)
  next
    case 2
    then show ?thesis
      using tracks_node_op[OF assms(1,2), of os "step it m (h_node h)" h'] net_step.delivered[OF 2(2) _ assms(3)] n assms(5,6)
      by (simp add: host_step_def)
  next
    case 3
    then show ?thesis
      using tracks_node_op[OF assms(1,2), of os "propose d (h_node h)" h'] net_step.proposed[OF n] assms(5,6)
      by (simp add: host_propose_def)
  next
    case 4
    then show ?thesis
      using tracks_node_op[OF assms(1,2), of os "propose_conf_change it vs ls (h_node h)" h'] net_step.reconfigured[OF n assms(3)] assms(5,6)
      by (simp add: host_propose_conf_change_def)
  next
    case 5
    then have "tracks R (hs(i \<mapsto> h')) (put_node i (add_known_peer p (h_node h)) s)"
      using tracks_put[OF assms(1,2), of h' "add_known_peer p (h_node h)"] assms(5) by (auto simp: host_add_known_peer_def)
    then show ?thesis using net_step.introduced[OF n] by blast
  qed
qed

end

subsection \<open>An application that records\<close>

definition recording :: "entry list application" where
  "recording e es = (True, es @ [e])"

interpretation recorder: logged_application "(=)" recording
  by unfold_locales (simp add: recording_def)

lemma apply_recording: "apply_entries recording es a = (True, a @ filter (\<lambda>e. \<not> is_raft_internal_data (e_data e)) es)"
  by (induction es arbitrary: a) (auto simp: recording_def)

lemma recording_drives: "drive_locked os recording h \<noteq> Failed ApplyFailed h'"
proof
  assume f: "drive_locked os recording h = Failed ApplyFailed h'"
  then have "left_state (drive_locked os recording h) = Some h'" by simp
  then show False by (cases rule: drive_cases) (use f in \<open>auto simp: apply_recording\<close>)
qed

lemma recording_after: "after_node os recording h r \<noteq> Failed ApplyFailed h'"
  by (cases r) (simp_all add: after_node_def recording_drives)

lemma recording_never_fails: "r \<in> host_operations recording i it os s h \<Longrightarrow> r \<noteq> Failed ApplyFailed h'"
  by (auto simp: recording_drives recording_after recording_drives[symmetric] recording_after[symmetric] host_operations_def host_tick_def host_step_def host_propose_def host_propose_conf_change_def)

end
