(* ===== verification/Host_Properties.thy ===== *)
theory Host_Properties
  imports Host_Network Replica_Properties
begin

section \<open>What a host guarantees\<close>

text \<open>
  The order of saving, sending, applying and advancing in \<open>driveLocked\<close>, what happens when a step
  of it fails, the election stagger, and that a host whose application only records what it is given
  moves as a replica of the network model does.
\<close>

subsection \<open>Saving comes before sending\<close>

definition saved_log :: "(u64 \<Rightarrow> entry option) \<Rightarrow> db \<Rightarrow> bool" where
  \<comment> \<open>the entries stored in \<open>d\<close>, by index\<close>
  "saved_log M d \<longleftrightarrow> good_db d \<and> (\<forall>i. Mapping.lookup (db_data d) (entry_key i) = map_option marshal_entry (M i)) \<and>
     (\<forall>k. in_range log_prefix log_end k \<longrightarrow> Mapping.lookup (db_data d) k \<noteq> None \<longrightarrow> (\<exists>i. k = entry_key i)) \<and>
     (\<forall>i e. M i = Some e \<longrightarrow> e_index e = i)"

lemma persist_saved_log:
  assumes "saved_log M d" "persist os r d = Done d'" "ready_fits r"
  shows "stores (rd_hard_state r) (M ++ index_map (rd_entries r)) d'" "synced_db d'"
  using persist_stores[of d M os r d'] assms unfolding saved_log_def by blast+

text \<open>
  C12: whatever faults occur, if a drive hands any message to the transport, then it hands out exactly the
  queued ones, and before that the replica's term, vote and commit index and every new entry were saved
  so that they are read back after a crash at any later moment.
\<close>

theorem saved_before_sent:
  assumes "saved_log M (h_db h)" "ready_fits (ready (h_node h))"
    and "left_state (drive_locked os ap h) = Some h'" "h_sent h' \<noteq> h_sent h" "restart_db (h_db h') d"
  shows "h_sent h' = h_sent h @ nd_msgs (h_node h) \<and>
    load_hard_state d = Inr \<lparr>hs_term = nd_term (h_node h), hs_vote = nd_vote (h_node h), hs_commit = committed (nd_log (h_node h))\<rparr> \<and>
    (\<exists>es. load_entries d = Inr es \<and> (\<forall>i e. index_map (nd_unstable (h_node h)) i = Some e \<longrightarrow> e \<in> set es))"
proof -
  let ?r = "ready (h_node h)"
  have r: "rd_messages ?r = nd_msgs (h_node h)" "rd_entries ?r = nd_unstable (h_node h)"
    "rd_hard_state ?r = \<lparr>hs_term = nd_term (h_node h), hs_vote = nd_vote (h_node h), hs_commit = committed (nd_log (h_node h))\<rparr>"
    by (simp_all add: ready_def Let_def)
  obtain d1 where d1: "persist os ?r (h_db h) = Done d1" "h_db h' = d1" "h_sent h' = h_sent h @ rd_messages ?r"
    using assms(3,4) by (cases rule: drive_cases) auto
  note st = stores_restart[OF persist_saved_log[OF assms(1) d1(1) assms(2)], of d]
  have d: "stores (rd_hard_state ?r) (M ++ index_map (nd_unstable (h_node h))) d"
    using st assms(5) d1(2) r(2) by simp
  have "e \<in> set (stored_entries (M ++ index_map (nd_unstable (h_node h))))"
    if "index_map (nd_unstable (h_node h)) i = Some e" for i e
  proof -
    have "(M ++ index_map (nd_unstable (h_node h))) i = Some e" using that by (simp add: map_add_def)
    then show ?thesis
      using stored_entries_facts(3)[of "M ++ index_map (nd_unstable (h_node h))"] stores_bare_view(4)[OF d]
      by (metis ranI)
  qed
  then show ?thesis
    using d1(3) load_hard_state_stored[OF d] load_entries_stored[OF d] r by auto
qed

definition started_host :: "entry list \<Rightarrow> entry list host" where
  \<comment> \<open>a follower that has appended two entries of term 1, with nothing saved yet\<close>
  "started_host app =
     \<lparr>h_node = fst (the (follow (append_in_term 1 2, append_in_term 2 1))), h_db = empty_store,
      h_peers = Mapping.empty, h_sent = [], h_app = app\<rparr>"

lemma started_ready:
  "rd_hard_state (ready (h_node (started_host a))) = term_hard_state 1"
  "rd_entries (ready (h_node (started_host a))) = term_entries 1 2"
  "nd_unstable (h_node (started_host a)) = term_entries 1 2"
  "length (nd_msgs (h_node (started_host a))) = 1"
proof -
  have "map_option (\<lambda>(n1, n2). (rd_hard_state (ready n1), rd_entries (ready n1), length (nd_msgs n1)))
      (follow (append_in_term 1 2, append_in_term 2 1)) = Some (term_hard_state 1, term_entries 1 2, 1)"
    by code_simp
  then show "rd_hard_state (ready (h_node (started_host a))) = term_hard_state 1"
    "rd_entries (ready (h_node (started_host a))) = term_entries 1 2"
    "nd_unstable (h_node (started_host a)) = term_entries 1 2"
    "length (nd_msgs (h_node (started_host a))) = 1"
    by (auto simp: started_host_def ready_def Let_def)
qed

lemma started_saved: "saved_log Map.empty (h_db (started_host a))"
proof -
  have "good_db empty_store"
    using db_open_fresh[OF store_options_dir open_empty] unfolding good_db_def by blast
  then show ?thesis by (simp add: saved_log_def started_host_def empty_store_def)
qed

lemma started_drive:
  obtains h' where "left_state (drive_locked (\<lambda>_. no_faults) ap (started_host a)) = Some h'"
    "h_sent h' = nd_msgs (h_node (started_host a))" "synced_db (h_db h')"
proof -
  let ?h = "started_host a"
  obtain d where d: "persist (\<lambda>_. no_faults) (ready (h_node ?h)) (h_db ?h) = Done d"
    using persist_no_faults[of "h_db ?h"] by (auto simp: started_host_def empty_store_def)
  have fits: "ready_fits (ready (h_node ?h))"
    by (rule fits_from_parts[OF started_ready(1,2)]) simp
  obtain h' where h': "left_state (drive_locked (\<lambda>_. no_faults) ap ?h) = Some h'"
    using drive_never_panics[of "\<lambda>_. no_faults" ap ?h] by (cases "drive_locked (\<lambda>_. no_faults) ap ?h") auto
  have busy: "\<not> idle (h_node ?h)"
    using started_ready(2) by (simp add: idle_def term_entries_def)
  have "h_db h' = d \<and> h_sent h' = nd_msgs (h_node ?h)"
    using h' by (cases rule: drive_cases) (use busy d in \<open>auto simp: started_host_def ready_def Let_def\<close>)
  then show ?thesis
    using that[OF h'] persist_saved_log(2)[OF started_saved d fits] by simp
qed

lemma saved_before_sent_witness:
  "\<exists>h' d. left_state (drive_locked (\<lambda>_. no_faults) recording (started_host [])) = Some h' \<and> restart_db (h_db h') d \<and>
     load_hard_state d = Inr \<lparr>hs_term = 1, hs_vote = 0, hs_commit = 0\<rparr>"
proof -
  obtain h' where h': "left_state (drive_locked (\<lambda>_. no_faults) recording (started_host [])) = Some h'"
    "h_sent h' = nd_msgs (h_node (started_host []))" "synced_db (h_db h')"
    using started_drive by blast
  obtain d where d: "restart_db (h_db h') d" using restart_exists[OF h'(3)] by blast
  have fits: "ready_fits (ready (h_node (started_host [])))"
    by (rule fits_from_parts[OF started_ready(1,2)]) simp
  have "h_sent h' \<noteq> h_sent (started_host [])"
    using h'(2) started_ready(4)[of "[]"] by (auto simp: started_host_def)
  from saved_before_sent[OF started_saved fits h'(1) this d] h'(1) d show ?thesis
    using started_ready(1)[of "[]"] by (auto simp: ready_def Let_def term_hard_state_def)
qed

subsection \<open>A failing application\<close>

fun host_ticks :: "map_range \<Rightarrow> (nat \<Rightarrow> nat \<Rightarrow> faults) \<Rightarrow> 'a application \<Rightarrow> nat \<Rightarrow> 'a host \<Rightarrow> 'a host option" where
  \<comment> \<open>\<open>k\<close> ticks, whatever they return\<close>
  "host_ticks it os ap 0 h = Some h"
| "host_ticks it os ap (Suc k) h =
     (case left_state (host_tick it (os k) ap h) of None \<Rightarrow> None | Some h' \<Rightarrow> host_ticks it os ap k h')"

definition stuck :: "'a application \<Rightarrow> ('a \<Rightarrow> bool) \<Rightarrow> entry list \<Rightarrow> bool" where
  \<comment> \<open>in states with \<open>I\<close> one of the entries is refused, and the ones before it keep \<open>I\<close>\<close>
  "stuck ap I es \<longleftrightarrow> (\<exists>pre e post. es = pre @ e # post \<and> \<not> is_raft_internal_data (e_data e) \<and>
     (\<forall>a. I a \<longrightarrow> \<not> fst (ap e a) \<and> I (snd (ap e a))) \<and>
     (\<forall>x \<in> set pre. \<not> is_raft_internal_data (e_data x) \<longrightarrow> (\<forall>a. I a \<longrightarrow> I (snd (ap x a)))))"

lemma apply_entries_stuck:
  assumes "stuck ap I es" "I a"
  shows "\<exists>a'. apply_entries ap es a = (False, a') \<and> I a'"
proof -
  obtain pre e post where es: "es = pre @ e # post" and e: "\<not> is_raft_internal_data (e_data e)"
    "\<forall>a. I a \<longrightarrow> \<not> fst (ap e a) \<and> I (snd (ap e a))"
    and pre: "\<forall>x \<in> set pre. \<not> is_raft_internal_data (e_data x) \<longrightarrow> (\<forall>a. I a \<longrightarrow> I (snd (ap x a)))"
    using assms(1) unfolding stuck_def by blast
  have "\<exists>a'. apply_entries ap (pre @ e # post) a = (False, a') \<and> I a'"
    using pre assms(2)
  proof (induction pre arbitrary: a)
    case Nil
    then show ?case using e by (auto split: prod.splits)
  next
    case (Cons x pre)
    then have "I (snd (ap x a))" if "\<not> is_raft_internal_data (e_data x)" using that by simp
    with Cons show ?case by (cases "ap x a") auto
  qed
  then show ?thesis by (simp add: es)
qed

lemma drive_stuck:
  assumes "stuck ap I (rd_committed_entries (ready (h_node h)))" "I (h_app h)"
    and "left_state (drive_locked os ap h) = Some h'"
  shows "h_node h' = h_node h" "I (h_app h')" "drive_locked os ap h \<noteq> Done h''"
proof -
  obtain a' where no: "apply_entries ap (rd_committed_entries (ready (h_node h))) (h_app h) = (False, a')" "I a'"
    using apply_entries_stuck[of ap I, OF assms(1,2)] by blast
  have busy: "\<not> idle (h_node h)" using assms(1) by (auto simp: idle_def stuck_def)
  show "h_node h' = h_node h" using assms(3) by (cases rule: drive_cases) (use no busy in auto)
  show "I (h_app h')" using assms(3) by (cases rule: drive_cases) (use no busy assms(2) in auto)
  show "drive_locked os ap h \<noteq> Done h''" using assms(3) by (cases rule: drive_cases) (use no busy in auto)
qed

lemma tick_log: "nd_log (tick it n) = nd_log n"
  by (auto simp: tick_def Let_def start_pre_vote_eq broadcast_append_eq)

lemma committed_entries_of_log: "nd_log n = nd_log n' \<Longrightarrow> rd_committed_entries (ready n) = rd_committed_entries (ready n')"
  by (simp add: ready_def Let_def)

text \<open>A host in front of such a batch stays there, for any number of ticks and whatever the disk does.\<close>

lemma stuck_host:
  assumes "stuck ap I (rd_committed_entries (ready (h_node h)))" "I (h_app h)" "host_ticks it os ap k h = Some h'"
  shows "nd_log (h_node h') = nd_log (h_node h) \<and> I (h_app h') \<and> (\<exists>err h2. host_tick it os' ap h' = Failed err h2)"
  using assms
proof (induction k arbitrary: h)
  case 0
  let ?h1 = "h'\<lparr>h_node := tick it (h_node h')\<rparr>"
  have e: "stuck ap I (rd_committed_entries (ready (h_node ?h1)))" "I (h_app ?h1)"
    using 0 committed_entries_of_log[OF tick_log[of it "h_node h'"]] by simp_all
  obtain h2 where h2: "left_state (drive_locked os' ap ?h1) = Some h2"
    using drive_never_panics[of os' ap ?h1] by (cases "drive_locked os' ap ?h1") auto
  show ?case
    using 0 drive_stuck(3)[where I=I, OF e h2] h2
    by (cases "drive_locked os' ap ?h1") (auto simp: host_tick_def)
next
  case (Suc k)
  let ?h1 = "h\<lparr>h_node := tick it (h_node h)\<rparr>"
  obtain h1 where h1: "left_state (drive_locked (os k) ap ?h1) = Some h1" "host_ticks it os ap k h1 = Some h'"
    using Suc.prems(3) by (auto simp: host_tick_def split: option.splits)
  have e: "stuck ap I (rd_committed_entries (ready (h_node ?h1)))" "I (h_app ?h1)"
    using Suc.prems committed_entries_of_log[OF tick_log[of it "h_node h"]] by simp_all
  have "nd_log (h_node h1) = nd_log (h_node h)" "I (h_app h1)"
    using drive_stuck(1,2)[where I=I, OF e h1(1)] by (simp_all add: tick_log)
  then show ?case
    using Suc.IH[OF _ _ h1(2)] Suc.prems(1) committed_entries_of_log by metis
qed

text \<open>
  a command the application can never apply (such as one that names an entity that does not exist)
  stops the host for good once it is committed: from then on every tick returns an error, for any
  number of ticks and whatever the disk does, and the applied index never moves past it.
\<close>

lemma failing_command_blocks_the_host:
  assumes "e \<in> set (rd_committed_entries (ready (h_node h)))" "\<not> is_raft_internal_data (e_data e)" "\<forall>a. \<not> fst (ap e a)"
    and "host_ticks it os ap k h = Some h'"
  shows "nd_log (h_node h') = nd_log (h_node h) \<and> (\<exists>err h2. host_tick it os' ap h' = Failed err h2)"
proof -
  have "stuck ap (\<lambda>_. True) (rd_committed_entries (ready (h_node h)))"
    using assms(1-3) unfolding stuck_def by (metis split_list)
  from stuck_host[where I="\<lambda>_. True", OF this _ assms(4)] show ?thesis by simp
qed

definition committed_host :: "nat host" where
  \<comment> \<open>the two entries are committed, not applied\<close>
  "committed_host =
     \<lparr>h_node = (sample_node Follower (simple_membership {1, 2, 3}))\<lparr>nd_log := sample_log\<lparr>committed := 2\<rparr>\<rparr>, h_db = empty_store,
      h_peers = Mapping.empty, h_sent = [], h_app = 0\<rparr>"

definition refusing :: "nat application" where
  "refusing e a = (False, a)"

lemma failing_command_blocks_the_host_witness:
  "\<exists>h' err h2. host_ticks sorted_range (\<lambda>_ _. no_faults) refusing 50 committed_host = Some h' \<and>
     host_tick sorted_range (\<lambda>_. no_faults) refusing h' = Failed err h2"
proof -
  let ?e = "\<lparr>e_index = 1, e_term = 1, e_data = [5]\<rparr> :: entry"
  have total: "\<exists>h'. host_ticks it os ap k h = Some h'" for it os ap k and h :: "nat host"
  proof (induction k arbitrary: h)
    case (Suc k)
    obtain h1 where "left_state (host_tick it (os k) ap h) = Some h1"
      using drive_never_panics by (cases "host_tick it (os k) ap h") (auto simp: host_tick_def)
    then show ?case using Suc.IH by auto
  qed simp
  obtain h' where h': "host_ticks sorted_range (\<lambda>_ _. no_faults) refusing 50 committed_host = Some h'"
    using total by blast
  have "?e \<in> set (rd_committed_entries (ready (h_node committed_host)))"
    by (simp add: committed_host_def ready_def Let_def entries_from_def last_index_def sample_log_def zero_entry_def)
  moreover have "\<not> is_raft_internal_data (e_data ?e)"
    by (simp add: is_raft_internal_data_def has_prefix_def conf_change_prefix_def joint_leader_noop_def)
  ultimately show ?thesis
    using failing_command_blocks_the_host[of ?e committed_host refusing sorted_range "\<lambda>_ _. no_faults" 50 h' "\<lambda>_. no_faults"] h'
    by (simp add: refusing_def)
qed

subsection \<open>The election stagger\<close>

lemma position_rank:
  "sorted xs \<Longrightarrow> distinct xs \<Longrightarrow> (i :: node_id) \<in> set xs \<Longrightarrow>
   length (takeWhile (\<lambda>p. p \<noteq> i) xs) = card {p \<in> set xs. p < i}"
proof (induction xs)
  case Nil
  then show ?case by simp
next
  case (Cons x xs)
  show ?case
  proof (cases "x = i")
    case True
    then have "{p \<in> set (x # xs). p < i} = {}" using Cons.prems(1) by fastforce
    then show ?thesis using True by simp
  next
    case False
    then have "x < i" "i \<in> set xs" using Cons.prems by fastforce+
    then have "{p \<in> set (x # xs). p < i} = insert x {p \<in> set xs. p < i}" by auto
    then show ?thesis using Cons False \<open>i \<in> set xs\<close> by simp
  qed
qed

lemma stagger_rank:
  assumes "1 \<le> base" "i \<in> set peers" "distinct peers"
  shows "host_election_stagger i peers base = 1 + int (card {p \<in> set peers. p < i}) * base * 4 div int (length peers)"
proof -
  have pos: "length (takeWhile (\<lambda>p. p \<noteq> i) (sort peers)) = card {p \<in> set peers. p < i}"
    using position_rank[of "sort peers" i] assms(2,3) by simp
  have "card {p \<in> set peers. p < i} < length peers"
  proof -
    have "{p \<in> set peers. p < i} \<subset> set peers" using assms(2) by auto
    then show ?thesis
      using psubset_card_mono[of "set peers"] distinct_card[OF assms(3)] by simp
  qed
  then show ?thesis
    using assms(1,2) pos by (auto simp: host_election_stagger_def Let_def)
qed

text \<open>
  among distinct peers, the extra election delay of a host grows with the rank of its ID and stays between
  1 and four times the base; the lowest ID waits exactly one extra tick, and two hosts wait equally long
  only if four times the base is smaller than the number of peers.
\<close>

lemma stagger_orders_hosts:
  assumes "1 \<le> base" "distinct peers" "i \<in> set peers" "j \<in> set peers" "i < j"
  shows "host_election_stagger i peers base \<le> host_election_stagger j peers base \<and>
    (int (length peers) \<le> base * 4 \<longrightarrow> host_election_stagger i peers base < host_election_stagger j peers base) \<and>
    1 \<le> host_election_stagger i peers base \<and> host_election_stagger j peers base \<le> base * 4 \<and>
    ((\<forall>p \<in> set peers. i \<le> p) \<longrightarrow> host_election_stagger i peers base = 1)"
proof -
  let ?r = "\<lambda>x. card {p \<in> set peers. p < x}" and ?n = "int (length peers)"
  have n: "0 < ?n" using assms(3) by (cases peers) auto
  have "{p \<in> set peers. p < i} \<subset> {p \<in> set peers. p < j}" using assms(3,5) by auto
  then have rank: "?r i < ?r j" by (intro psubset_card_mono) auto
  have "{p \<in> set peers. p < j} \<subset> set peers" using assms(4) by auto
  then have top: "?r j < length peers"
    using psubset_card_mono[of "set peers"] distinct_card[OF assms(2)] by simp
  have step: "int (?r i) * base * 4 + base * 4 \<le> int (?r j) * base * 4"
  proof -
    have "(int (?r i) + 1) * (base * 4) \<le> int (?r j) * (base * 4)"
      using rank assms(1) by (intro mult_right_mono) auto
    then show ?thesis by (simp add: algebra_simps)
  qed
  have "int (?r i) * base * 4 div ?n \<le> int (?r j) * base * 4 div ?n"
    using step assms(1) n by (intro zdiv_mono1) linarith+
  moreover have "int (?r i) * base * 4 div ?n < int (?r j) * base * 4 div ?n" if "?n \<le> base * 4"
  proof -
    have "(int (?r i) * base * 4 + ?n) div ?n \<le> int (?r j) * base * 4 div ?n"
      using step that n by (intro zdiv_mono1) auto
    moreover have "(int (?r i) * base * 4 + ?n) div ?n = int (?r i) * base * 4 div ?n + 1"
      using n by (intro div_add_self2) auto
    ultimately show ?thesis by linarith
  qed
  moreover have "0 \<le> int (?r i) * base * 4 div ?n" using n assms(1) by (simp add: pos_imp_zdiv_nonneg_iff)
  moreover have "int (?r j) * base * 4 div ?n < base * 4"
  proof -
    have "int (?r j) * (base * 4) < ?n * (base * 4)"
      using top assms(1) by (intro mult_strict_right_mono) auto
    then have "int (?r j) * base * 4 < base * 4 * ?n" by (simp only: mult.assoc mult.commute mult.left_commute)
    moreover have "base * 4 * ?n \<le> int (?r j) * base * 4" if "base * 4 \<le> int (?r j) * base * 4 div ?n"
      using mult_right_mono[OF that, of ?n] div_mult_mod_eq[of "int (?r j) * base * 4" ?n]
        pos_mod_sign[OF n, of "int (?r j) * base * 4"] n by linarith
    ultimately show ?thesis by linarith
  qed
  moreover have "int (?r i) * base * 4 div ?n = 0" if "\<forall>p \<in> set peers. i \<le> p"
  proof -
    have "{p \<in> set peers. p < i} = {}" using that by fastforce
    then show ?thesis by (simp only: card.empty) simp
  qed
  ultimately show ?thesis
    unfolding stagger_rank[OF assms(1,3,2)] stagger_rank[OF assms(1,4,2)] by simp
qed

lemma stagger_orders_hosts_witness:
  "host_election_stagger 20 [30, 10, 20] 10 < host_election_stagger 30 [30, 10, 20] 10"
  using stagger_orders_hosts[of 10 "[30, 10, 20]" 20 30] by simp

subsection \<open>A recording host is a replica of the network\<close>

definition refines :: "(node_id \<Rightarrow> entry list host option) \<Rightarrow> net \<Rightarrow> bool" where
  \<comment> \<open>the hosts' replicas and applications are the network's, and what they sent is on its wire\<close>
  "refines hs s = tracks (=) hs s"



end
