(* ===== verification/Raft_Tcp.thy ===== *)
theory Raft_Tcp
  imports Byte_Codec Raft_Json "HOL-Library.Sublist"
begin

section \<open>internal/raft/tcp.go: messages on connections\<close>

text \<open>
  Every message travels on its own connection as one frame: a 4-byte length and the JSON. What the
  network does is an argument: whether the dial and the deadline succeed, and how many bytes the
  connection takes before it fails. A goroutine of \<open>accept\<close> runs \<open>receive\<close> on what arrived; the handler
  is \<open>Host.Step\<close>, so \<open>receive\<close> returns the message it is called with, if it is called.
\<close>

definition max_message_bytes :: nat where
  "max_message_bytes = 16 * 2 ^ 20"

datatype transport_error =
  TransportIncomplete | ListenRefused | UnknownPeerAddress | MessageTooLarge | DialFailed | DeadlineFailed
| ConnectionBroken | ShortRead

record transport =
  tr_id :: node_id
  tr_peers :: "(node_id, string) mapping"
  tr_closed :: bool

record link =
  lk_dial :: bool
  lk_deadline :: bool
  lk_takes :: "nat option"   \<comment> \<open>\<open>None\<close>: everything; \<open>Some k\<close>: fails after \<open>k\<close> bytes\<close>

definition listen_tcp :: "bool \<Rightarrow> node_id \<Rightarrow> (node_id, string) mapping \<Rightarrow> bool \<Rightarrow> transport_error + transport" where
  \<comment> \<open>the first argument says whether the address can be listened on, the last whether a handler is given\<close>
  "listen_tcp can_listen i peers handler =
     (if i = 0 \<or> \<not> handler then Inl TransportIncomplete
      else if \<not> can_listen then Inl ListenRefused
      else Inr \<lparr>tr_id = i, tr_peers = peers, tr_closed = False\<rparr>)"

definition tr_add_peer :: "node_id \<Rightarrow> string \<Rightarrow> transport \<Rightarrow> transport" where
  "tr_add_peer i addr t = t\<lparr>tr_peers := Mapping.update i addr (tr_peers t)\<rparr>"

definition tr_close :: "transport \<Rightarrow> transport" where
  "tr_close t = t\<lparr>tr_closed := True\<rparr>"

fun conn_write :: "nat option \<Rightarrow> bytes \<Rightarrow> bool \<times> bytes \<times> nat option" where
  \<comment> \<open>success, the bytes that went out, and what the connection still takes\<close>
  "conn_write None bs = (True, bs, None)"
| "conn_write (Some k) bs = (length bs \<le> k, take k bs, Some (k - length bs))"

definition write_frame :: "nat option \<Rightarrow> bytes \<Rightarrow> transport_error option \<times> bytes" where
  "write_frame takes data =
     (if length data > max_message_bytes then (Some MessageTooLarge, [])
      else let (ok, out1, takes1) = conn_write takes (be_bytes 4 (length data))
           in if \<not> ok then (Some ConnectionBroken, out1)
              else let (ok, out2, takes2) = conn_write takes1 data
                   in (if ok then None else Some ConnectionBroken, out1 @ out2))"

definition read_frame :: "bytes \<Rightarrow> transport_error + bytes" where
  "read_frame inp =
     (if length inp < 4 then Inl ShortRead
      else let size = be_value (take 4 inp)
           in if size > max_message_bytes then Inl MessageTooLarge
              else if length (drop 4 inp) < size then Inl ShortRead
              else Inr (take size (drop 4 inp)))"

definition transport_send :: "link \<Rightarrow> message \<Rightarrow> transport \<Rightarrow> transport_error option \<times> bytes" where
  \<comment> \<open>the error \<open>Send\<close> returns and the bytes that reached the other end\<close>
  "transport_send lk m t =
     (case Mapping.lookup (tr_peers t) (m_to m) of
        None \<Rightarrow> (Some UnknownPeerAddress, [])
      | Some address \<Rightarrow>
          let data = marshal_message m
          in if length data > max_message_bytes then (Some MessageTooLarge, [])
             else if \<not> lk_dial lk then (Some DialFailed, [])
             else if \<not> lk_deadline lk then (Some DeadlineFailed, [])
             else write_frame (lk_takes lk) data)"

definition transport_receive :: "bytes \<Rightarrow> transport \<Rightarrow> message option" where
  "transport_receive inp t =
     (case read_frame inp of
        Inl e \<Rightarrow> None
      | Inr data \<Rightarrow>
          (case unmarshal_message data of
             None \<Rightarrow> None
           | Some m \<Rightarrow> if m_to m \<noteq> tr_id t then None else Some m))"

subsection \<open>Frames\<close>

lemma read_written:
  assumes "length data \<le> max_message_bytes"
  shows "read_frame (be_bytes 4 (length data) @ data @ rest) = Inr data"
proof -
  have "length data < 256 ^ 4" using assms by (simp add: max_message_bytes_def)
  then show ?thesis using assms by (simp add: read_frame_def)
qed

lemma read_cut:
  assumes "length data \<le> max_message_bytes" "strict_prefix part (be_bytes 4 (length data) @ data)"
  shows "read_frame part = Inl ShortRead"
proof -
  obtain u where u: "be_bytes 4 (length data) @ data = part @ u" "u \<noteq> []"
    using assms(2) by (auto simp: strict_prefix_def prefix_def)
  show ?thesis
  proof (cases "length part < 4")
    case True
    then show ?thesis by (simp add: read_frame_def)
  next
    case False
    have "take 4 part = be_bytes 4 (length data)"
      using False arg_cong[OF u(1), of "take 4"] by simp
    then have "be_value (take 4 part) = length data"
      using assms(1) by (simp add: max_message_bytes_def)
    moreover have "length (drop 4 part) < length data"
      using False arg_cong[OF u(1), of length] u(2) by (cases u) auto
    ultimately show ?thesis using False assms(1) by (simp add: read_frame_def)
  qed
qed

lemma write_frame_out:
  assumes "length data \<le> max_message_bytes"
  shows "write_frame None data = (None, be_bytes 4 (length data) @ data)"
    and "write_frame (Some k) data =
      (if 4 + length data \<le> k then None else Some ConnectionBroken, take k (be_bytes 4 (length data) @ data))"
  using assms by (auto simp: write_frame_def)

subsection \<open>What a receiver can rely on\<close>

text \<open>
  a message the code can build, of at most 16 MiB as JSON and addressed to a known peer, arrives
  exactly as sent over a link without faults, and only at the replica it is addressed to: every other
  transport drops it.
\<close>

lemma message_arrives_intact:
  assumes "proper_type (m_type m)" "Mapping.lookup (tr_peers t) (m_to m) \<noteq> None"
    and "length (marshal_message m) \<le> max_message_bytes" "lk_dial lk" "lk_deadline lk" "lk_takes lk = None"
  shows "\<exists>bs. transport_send lk m t = (None, bs) \<and>
    (\<forall>t'. transport_receive bs t' = (if tr_id t' = m_to m then Some m else None))"
proof -
  let ?bs = "be_bytes 4 (length (marshal_message m)) @ marshal_message m"
  have "transport_send lk m t = (None, ?bs)"
    using assms(2-6) write_frame_out(1)[OF assms(3)] by (auto simp: transport_send_def Let_def)
  moreover have "transport_receive ?bs t' = (if tr_id t' = m_to m then Some m else None)" for t'
    using read_written[OF assms(3), of "[]"] message_roundtrip[OF assms(1)] by (auto simp: transport_receive_def)
  ultimately show ?thesis by blast
qed

definition sample_message :: message where
  "sample_message = (message_of MsgAppend 2 4)\<lparr>m_from := 1, m_entries := [\<lparr>e_index = 3, e_term = 4, e_data = [99]\<rparr>]\<rparr>"

definition sample_transport :: "node_id \<Rightarrow> transport" where
  "sample_transport i = \<lparr>tr_id = i, tr_peers = Mapping.update 2 ''b'' (Mapping.update 1 ''a'' Mapping.empty), tr_closed = False\<rparr>"

lemma sample_message_short: "length (marshal_message sample_message) < 200"
  by code_simp

lemma sample_message_fits: "length (marshal_message sample_message) \<le> max_message_bytes"
  using sample_message_short by (simp add: max_message_bytes_def)

lemma sample_message_sel [simp]: "m_to sample_message = 2" "m_type sample_message = MsgAppend"
  by (simp_all add: sample_message_def)

lemma message_arrives_intact_witness:
  "\<exists>bs. transport_send \<lparr>lk_dial = True, lk_deadline = True, lk_takes = None\<rparr> sample_message (sample_transport 1) = (None, bs) \<and>
     transport_receive bs (sample_transport 2) = Some sample_message \<and> transport_receive bs (sample_transport 3) = None"
  using message_arrives_intact[of sample_message "sample_transport 1" "\<lparr>lk_dial = True, lk_deadline = True, lk_takes = None\<rparr>"]
    sample_message_fits by (fastforce simp: sample_transport_def)



text \<open>
  No input makes a receiver accept more than 16 MiB of payload, or hand its replica a message that
  is addressed to another one; a length above the limit is refused before anything is read.
\<close>

lemma receiver_is_guarded:
  "(\<forall>data. read_frame inp = Inr data \<longrightarrow> length data \<le> max_message_bytes) \<and>
   (4 \<le> length inp \<and> be_value (take 4 inp) > max_message_bytes \<longrightarrow> read_frame inp = Inl MessageTooLarge) \<and>
   (\<forall>m. transport_receive inp t = Some m \<longrightarrow> m_to m = tr_id t)"
  by (auto simp: read_frame_def transport_receive_def Let_def split: sum.splits option.splits if_splits)

lemma receiver_is_guarded_witness:
  "read_frame [1, 0, 0, 1] = Inl MessageTooLarge"
  using receiver_is_guarded[of "[1, 0, 0, 1]" "sample_transport 1"] by (simp add: be_value_def max_message_bytes_def)

end
