(* ===== verification/Raft_Cluster.thy ===== *)
theory Raft_Cluster
  imports Replica_Properties
begin

section \<open>internal/raft/cluster.go: a whole group in one process\<close>

text \<open>
  \<open>Cluster\<close> drives its replicas with direct calls and no disk. \<open>its\<close> gives the order of each walk
  over the node map (Go chooses a new one every time), \<open>it\<close> the order in which a replica walks
  its own sets. \<open>DeliverFiltered\<close> loops until a pass delivers nothing; a run that never ends is the
  value \<open>None\<close>. Like the code, it appends every committed entry to \<open>applied\<close>, Raft's own included.
\<close>

record cluster =
  cl_nodes :: "(node_id, node) mapping"
  cl_applied :: "(node_id, bytes list) mapping"

datatype cluster_error = EmptyCluster | BadReplica raft_error | UnknownTarget | StepFailed raft_error | UnknownLeader | ProposeFailed raft_error

type_synonym cluster_outcome = "(cluster_error, cluster) outcome"

subsection \<open>NewCluster\<close>

fun add_replicas :: "node_id list \<Rightarrow> int \<Rightarrow> node_id list \<Rightarrow> cluster \<Rightarrow> cluster_error + cluster" where
  \<comment> \<open>the loop, from a position on\<close>
  "add_replicas ids position [] c = Inr c"
| "add_replicas ids position (i # is) c =
     (case new_node \<lparr>c_id = i, c_peers = ids, c_learners = [], c_election_tick = 3 + position, c_heartbeat_tick = 1\<rparr> of
        Inl err \<Rightarrow> Inl (BadReplica err)
      | Inr n \<Rightarrow> add_replicas ids (position + 1) is (c\<lparr>cl_nodes := Mapping.update i n (cl_nodes c)\<rparr>))"

definition new_cluster :: "node_id list \<Rightarrow> cluster_error + cluster" where
  "new_cluster ids =
     (if ids = [] then Inl EmptyCluster
      else add_replicas ids 0 ids \<lparr>cl_nodes = Mapping.empty, cl_applied = Mapping.empty\<rparr>)"

subsection \<open>Delivering\<close>

definition put_replica :: "node_id \<Rightarrow> node \<Rightarrow> cluster \<Rightarrow> cluster" where
  "put_replica i n c = c\<lparr>cl_nodes := Mapping.update i n (cl_nodes c)\<rparr>"

fun deliver_messages :: "map_range \<Rightarrow> (message \<Rightarrow> bool) \<Rightarrow> message list \<Rightarrow> bool \<Rightarrow> cluster \<Rightarrow> (cluster_error, bool \<times> cluster) outcome" where
  \<comment> \<open>the loop over \<open>ready.Messages\<close>; the flag is \<open>progress\<close>\<close>
  "deliver_messages it dlv [] p c = Done (p, c)"
| "deliver_messages it dlv (m # ms) p c =
     (if \<not> dlv m then deliver_messages it dlv ms p c
      else case Mapping.lookup (cl_nodes c) (m_to m) of
             None \<Rightarrow> Failed UnknownTarget (p, c)
           | Some target \<Rightarrow>
               (case step it m target of
                  Panic \<Rightarrow> Panic
                | Failed err n \<Rightarrow> Failed (StepFailed err) (p, put_replica (m_to m) n c)
                | Done n \<Rightarrow> deliver_messages it dlv ms True (put_replica (m_to m) n c)))"

definition deliver_from :: "map_range \<Rightarrow> (message \<Rightarrow> bool) \<Rightarrow> node_id \<Rightarrow> bool \<Rightarrow> cluster \<Rightarrow> (cluster_error, bool \<times> cluster) outcome" where
  \<comment> \<open>the body of the loop over the nodes\<close>
  "deliver_from it dlv i p c =
     (case Mapping.lookup (cl_nodes c) i of
        None \<Rightarrow> Done (p, c)
      | Some n \<Rightarrow>
          let r = ready n
          in and_then (deliver_messages it dlv (rd_messages r) p c)
               (\<lambda>(p, c).
                  let c1 = (if rd_committed_entries r = [] then c
                            else c\<lparr>cl_applied := Mapping.update i
                              (Mapping.lookup_default [] (cl_applied c) i @ map e_data (rd_committed_entries r)) (cl_applied c)\<rparr>)
                  in Done (p, if rd_messages r \<noteq> [] \<or> rd_committed_entries r \<noteq> [] \<or> rd_entries r \<noteq> []
                              then put_replica i (advance (the (Mapping.lookup (cl_nodes c1) i))) c1 else c1)) id)"

fun deliver_pass :: "map_range \<Rightarrow> (message \<Rightarrow> bool) \<Rightarrow> node_id list \<Rightarrow> bool \<Rightarrow> cluster \<Rightarrow> (cluster_error, bool \<times> cluster) outcome" where
  "deliver_pass it dlv [] p c = Done (p, c)"
| "deliver_pass it dlv (i # is) p c =
     and_then (deliver_from it dlv i p c) (\<lambda>(p, c). deliver_pass it dlv is p c) id"

partial_function (option) deliver_loop ::
  "map_range \<Rightarrow> (nat \<Rightarrow> map_range) \<Rightarrow> (message \<Rightarrow> bool) \<Rightarrow> nat \<Rightarrow> cluster \<Rightarrow> cluster_outcome option" where
  \<comment> \<open>\<open>for progress := true; progress;\<close>\<close>
  "deliver_loop it its dlv k c =
     (case deliver_pass it dlv (its k (Mapping.keys (cl_nodes c))) False c of
        Panic \<Rightarrow> Some Panic
      | Failed err (p, c') \<Rightarrow> Some (Failed err c')
      | Done (p, c') \<Rightarrow> if p then deliver_loop it its dlv (Suc k) c' else Some (Done c'))"

declare deliver_loop.simps [code]

definition cluster_deliver_filtered ::
  "map_range \<Rightarrow> (nat \<Rightarrow> map_range) \<Rightarrow> (message \<Rightarrow> bool) \<Rightarrow> cluster \<Rightarrow> cluster_outcome option" where
  "cluster_deliver_filtered it its dlv c = deliver_loop it its dlv 0 c"

definition cluster_deliver :: "map_range \<Rightarrow> (nat \<Rightarrow> map_range) \<Rightarrow> cluster \<Rightarrow> cluster_outcome option" where
  "cluster_deliver it its c = cluster_deliver_filtered it its (\<lambda>_. True) c"

subsection \<open>The other methods\<close>

definition tick_all :: "map_range \<Rightarrow> cluster \<Rightarrow> cluster" where
  \<comment> \<open>every replica once; a tick touches no other replica, so the order does not matter\<close>
  "tick_all it c = c\<lparr>cl_nodes := Mapping.map_values (\<lambda>_. tick it) (cl_nodes c)\<rparr>"

definition cluster_tick_filtered ::
  "map_range \<Rightarrow> (nat \<Rightarrow> map_range) \<Rightarrow> (message \<Rightarrow> bool) \<Rightarrow> cluster \<Rightarrow> cluster_outcome option" where
  "cluster_tick_filtered it its dlv c = cluster_deliver_filtered it its dlv (tick_all it c)"

definition cluster_tick :: "map_range \<Rightarrow> (nat \<Rightarrow> map_range) \<Rightarrow> cluster \<Rightarrow> cluster_outcome option" where
  "cluster_tick it its c = cluster_deliver it its (tick_all it c)"

definition cluster_propose_filtered ::
  "map_range \<Rightarrow> (nat \<Rightarrow> map_range) \<Rightarrow> node_id \<Rightarrow> bytes \<Rightarrow> (message \<Rightarrow> bool) \<Rightarrow> cluster \<Rightarrow> cluster_outcome option" where
  "cluster_propose_filtered it its leader data dlv c =
     (case Mapping.lookup (cl_nodes c) leader of
        None \<Rightarrow> Some (Failed UnknownLeader c)
      | Some n \<Rightarrow>
          (case propose data n of
             Panic \<Rightarrow> Some Panic
           | Failed err n' \<Rightarrow> Some (Failed (ProposeFailed err) (put_replica leader n' c))
           | Done n' \<Rightarrow> cluster_deliver_filtered it its dlv (put_replica leader n' c)))"

definition cluster_propose ::
  "map_range \<Rightarrow> (nat \<Rightarrow> map_range) \<Rightarrow> node_id \<Rightarrow> bytes \<Rightarrow> cluster \<Rightarrow> cluster_outcome option" where
  "cluster_propose it its leader data c = cluster_propose_filtered it its leader data (\<lambda>_. True) c"

fun find_leader :: "node_id list \<Rightarrow> (node_id, node) mapping \<Rightarrow> (node_id \<times> u64) option \<Rightarrow> (node_id \<times> u64) option" where
  "find_leader [] ns found = found"
| "find_leader (i # is) ns found =
     (case Mapping.lookup ns i of
        None \<Rightarrow> find_leader is ns found
      | Some n \<Rightarrow>
          if nd_role n \<noteq> Leader then find_leader is ns found
          else find_leader is ns
            (case found of
               None \<Rightarrow> Some (i, nd_term n)
             | Some (l, t) \<Rightarrow> if nd_term n > t then Some (i, nd_term n) else Some (l, t)))"

definition cluster_leader :: "map_range \<Rightarrow> cluster \<Rightarrow> node_id option" where
  "cluster_leader it c = map_option fst (find_leader (it (Mapping.keys (cl_nodes c))) (cl_nodes c) None)"

definition cluster_applied :: "node_id \<Rightarrow> cluster \<Rightarrow> bytes list" where
  "cluster_applied i c = Mapping.lookup_default [] (cl_applied c) i"

end
