(* ===== verification/Cluster_Properties.thy ===== *)
theory Cluster_Properties
  imports Raft_Cluster
begin

section \<open>What a cluster shows\<close>

text \<open>
  Facts about \<open>Cluster\<close>: which replica \<open>Leader\<close> reports, that a replica that receives nothing commits
  nothing, and complete executions of a group of three.
\<close>

subsection \<open>Leader\<close>

definition leads_at :: "(node_id, node) mapping \<Rightarrow> node_id \<Rightarrow> u64 \<Rightarrow> bool" where
  "leads_at ns i t \<longleftrightarrow> (\<exists>n. Mapping.lookup ns i = Some n \<and> nd_role n = Leader \<and> nd_term n = t)"

definition better :: "(node_id, node) mapping \<Rightarrow> node_id \<Rightarrow> (node_id \<times> u64) option \<Rightarrow> (node_id \<times> u64) option" where
  \<comment> \<open>one round of the loop\<close>
  "better ns i found =
     (case Mapping.lookup ns i of
        None \<Rightarrow> found
      | Some n \<Rightarrow>
          if nd_role n \<noteq> Leader then found
          else (case found of None \<Rightarrow> Some (i, nd_term n)
                | Some (l, t) \<Rightarrow> if nd_term n > t then Some (i, nd_term n) else Some (l, t)))"

lemma find_leader_Cons: "find_leader (i # is) ns found = find_leader is ns (better ns i found)"
  by (auto simp: better_def split: option.splits)

lemma find_leader_best:
  "(\<And>l t. found = Some (l, t) \<Longrightarrow> leads_at ns l t) \<Longrightarrow>
   (find_leader is ns found = None \<longrightarrow> found = None \<and> (\<forall>i \<in> set is. \<forall>t. \<not> leads_at ns i t)) \<and>
   (\<forall>l t. find_leader is ns found = Some (l, t) \<longrightarrow> leads_at ns l t \<and>
      (\<forall>i \<in> set is. \<forall>t'. leads_at ns i t' \<longrightarrow> t' \<le> t) \<and> (\<forall>l' t'. found = Some (l', t') \<longrightarrow> t' \<le> t))"
proof (induction "is" arbitrary: found)
  case Nil
  then show ?case by auto
next
  case (Cons i "is")
  have valid: "leads_at ns l t" if "better ns i found = Some (l, t)" for l t
    using that Cons.prems by (auto simp: better_def leads_at_def split: option.splits if_splits)
  have grows: "found = Some (l', t') \<or> leads_at ns i t' \<Longrightarrow> \<exists>l t. better ns i found = Some (l, t) \<and> t' \<le> t" for l' t'
    by (auto simp: better_def leads_at_def split: option.splits)
  let ?b = "better ns i found"
  have none: "?b = None \<Longrightarrow> found = None \<and> (\<forall>t. \<not> leads_at ns i t)"
    by (auto simp: better_def leads_at_def split: option.splits if_splits)
  note IH = Cons.IH[of ?b, OF valid]
  have up: "t1 \<le> t" if r: "find_leader is ns ?b = Some (l, t)" and t1: "found = Some (l1, t1) \<or> leads_at ns i t1" for l t l1 t1
  proof -
    obtain l2 t2 where "?b = Some (l2, t2)" "t1 \<le> t2" using grows[OF t1] by blast
    then show ?thesis using IH r by (blast intro: order_trans)
  qed
  show ?case
    unfolding find_leader_Cons
  proof (intro conjI impI allI)
    assume "find_leader is ns ?b = None"
    then show "found = None" "\<forall>j \<in> set (i # is). \<forall>t. \<not> leads_at ns j t"
      using IH none by simp_all
  next
    fix l t assume some: "find_leader is ns ?b = Some (l, t)"
    then show "leads_at ns l t" using IH by blast
    show "\<forall>j \<in> set (i # is). \<forall>t'. leads_at ns j t' \<longrightarrow> t' \<le> t"
      using some IH up[OF some] by simp
    fix l' t' assume "found = Some (l', t')"
    then show "t' \<le> t" using up[OF some] by blast
  qed
qed

text \<open>
  in whatever order the map is walked, \<open>Leader\<close> reports a replica exactly when some replica has
  the leader role, and the one it reports has the highest term among those that do.
\<close>

lemma reported_leader_has_highest_term:
  assumes "map_order it"
  shows "(cluster_leader it c = None \<longleftrightarrow> (\<forall>i t. \<not> leads_at (cl_nodes c) i t)) \<and>
    (\<forall>l. cluster_leader it c = Some l \<longrightarrow>
       (\<exists>t. leads_at (cl_nodes c) l t \<and> (\<forall>i t'. leads_at (cl_nodes c) i t' \<longrightarrow> t' \<le> t)))"
proof -
  have key: "leads_at (cl_nodes c) i t \<Longrightarrow> i \<in> set (it (Mapping.keys (cl_nodes c)))" for i t
    using assms by (auto simp: leads_at_def map_orderD keys_dom_lookup)
  let ?r = "find_leader (it (Mapping.keys (cl_nodes c))) (cl_nodes c) None"
  have r: "?r = None \<longrightarrow> (\<forall>i t. \<not> leads_at (cl_nodes c) i t)"
    "?r = Some (l, t) \<longrightarrow> leads_at (cl_nodes c) l t \<and> (\<forall>i t'. leads_at (cl_nodes c) i t' \<longrightarrow> t' \<le> t)" for l t
    using find_leader_best[of None "cl_nodes c" "it (Mapping.keys (cl_nodes c))"] key by simp_all blast+
  show ?thesis
  proof (cases ?r)
    case None
    then show ?thesis using r(1) by (simp add: cluster_leader_def)
  next
    case (Some lt)
    then obtain l t where "?r = Some (l, t)" by (cases lt) simp
    then show ?thesis using r(2)[of l t] by (auto simp: cluster_leader_def)
  qed
qed

definition split_cluster :: cluster where
  \<comment> \<open>an old leader of term 2 and a newer one of term 5\<close>
  "split_cluster =
     \<lparr>cl_nodes = Mapping.update 1 (sample_node Leader (simple_membership {1, 2, 3}))
        (Mapping.update 2 ((sample_node Leader (simple_membership {1, 2, 3}))\<lparr>nd_id := 2, nd_term := 5\<rparr>) Mapping.empty),
      cl_applied = Mapping.empty\<rparr>"

lemma reported_leader_has_highest_term_witness: "cluster_leader sorted_range split_cluster = Some 2"
proof -
  have leads: "leads_at (cl_nodes split_cluster) i t \<longleftrightarrow> (i = 1 \<and> t = 2) \<or> (i = 2 \<and> t = 5)" for i t
    by (auto simp: leads_at_def split_cluster_def lookup_update')
  obtain l where "cluster_leader sorted_range split_cluster = Some l"
    using reported_leader_has_highest_term[OF sorted_range_order, of split_cluster] leads by fastforce
  then show ?thesis
    using reported_leader_has_highest_term[OF sorted_range_order, of split_cluster] leads by fastforce
qed

subsection \<open>Executions\<close>

fun cluster_ticks :: "map_range \<Rightarrow> nat \<Rightarrow> cluster \<Rightarrow> cluster_outcome option" where
  "cluster_ticks it 0 c = Some (Done c)"
| "cluster_ticks it (Suc k) c = (case cluster_tick it (\<lambda>_. it) c of Some (Done c') \<Rightarrow> cluster_ticks it k c' | r \<Rightarrow> r)"

definition elect_and_replicate :: "map_range \<Rightarrow> (node_id option \<times> bytes list list) option" where
  \<comment> \<open>three ticks of a group of three, a command to replica 1: the leader, and what each applied\<close>
  "elect_and_replicate it =
     (case new_cluster [1, 2, 3] of
        Inl e \<Rightarrow> None
      | Inr c \<Rightarrow>
          (case cluster_ticks it 3 c of
             Some (Done c1) \<Rightarrow>
               (case cluster_propose it (\<lambda>_. it) 1 [7] c1 of
                  Some (Done c2) \<Rightarrow> Some (cluster_leader it c1, map (\<lambda>i. cluster_applied i c2) [1, 2, 3])
                | _ \<Rightarrow> None)
           | _ \<Rightarrow> None))"

text \<open>
  a new group of three elects replica 1 within three ticks and a command proposed to it is applied
  exactly once by all three, with the maps walked upwards or downwards; every delivery ends.
\<close>

lemma cluster_elects_and_replicates:
  "elect_and_replicate sorted_range = Some (Some 1, [[[7]], [[7]], [[7]]]) \<and>
   elect_and_replicate (\<lambda>S. rev (sorted_range S)) = Some (Some 1, [[[7]], [[7]], [[7]]])"
  by code_simp

subsection \<open>A replica that receives nothing\<close>

definition settled :: "node_id \<Rightarrow> u64 \<Rightarrow> bytes list \<Rightarrow> cluster \<Rightarrow> bool" where
  \<comment> \<open>replica \<open>i\<close> is at commit index \<open>k\<close>, all applied, and has applied \<open>as\<close>\<close>
  "settled i k as c \<longleftrightarrow> cluster_applied i c = as \<and>
     (\<exists>n. Mapping.lookup (cl_nodes c) i = Some n \<and> committed (nd_log n) = k \<and> applied (nd_log n) = k)"

lemma settled_put_other: "j \<noteq> i \<Longrightarrow> settled i k as (put_replica j n c) = settled i k as c"
  by (simp add: settled_def put_replica_def cluster_applied_def lookup_update')

lemma deliver_messages_settled:
  "settled i k as c \<Longrightarrow> (\<And>m. dlv m \<Longrightarrow> m_to m \<noteq> i) \<Longrightarrow> left_state (deliver_messages it dlv ms p c) = Some (p', c') \<Longrightarrow>
   settled i k as c' \<and> Mapping.lookup (cl_nodes c') i = Mapping.lookup (cl_nodes c) i"
proof (induction it dlv ms p c rule: deliver_messages.induct)
  case (1 it dlv p c)
  then show ?case by simp
next
  case (2 it dlv m ms p c)
  show ?case
  proof (cases "dlv m")
    case False
    then show ?thesis using 2 by simp
  next
    case True
    then have other: "m_to m \<noteq> i" using 2(4) by blast
    have same: "Mapping.lookup (cl_nodes (put_replica (m_to m) n c)) i = Mapping.lookup (cl_nodes c) i" for n
      using other by (simp add: put_replica_def lookup_update')
    show ?thesis
      using 2(2-5) True other same
      by (auto simp: settled_put_other split: option.splits outcome.splits)
  qed
qed

lemma settled_ready: "Mapping.lookup (cl_nodes c) i = Some n \<Longrightarrow> settled i k as c \<Longrightarrow> rd_committed_entries (ready n) = []"
  by (auto simp: settled_def ready_def Let_def)

lemma deliver_from_settled:
  assumes "settled i k as c" "\<And>m. dlv m \<Longrightarrow> m_to m \<noteq> i" "left_state (deliver_from it dlv j p c) = Some (p', c')"
  shows "settled i k as c'"
proof (cases "Mapping.lookup (cl_nodes c) j")
  case None
  then show ?thesis using assms by (simp add: deliver_from_def)
next
  case (Some n)
  let ?r = "deliver_messages it dlv (rd_messages (ready n)) p c"
  obtain p1 c1 where left: "left_state ?r = Some (p1, c1)"
    using assms(3) Some by (cases ?r) (auto simp: deliver_from_def Let_def)
  then have c1: "settled i k as c1" "Mapping.lookup (cl_nodes c1) i = Mapping.lookup (cl_nodes c) i"
    using deliver_messages_settled[OF assms(1,2) left] by auto
  show ?thesis
  proof (cases "?r = Done (p1, c1)")
    case False
    then have "c' = c1"
      using assms(3) Some left by (cases ?r) (auto simp: deliver_from_def Let_def)
    then show ?thesis using c1(1) by simp
  next
    case ok: True
    show ?thesis
    proof (cases "j = i")
      case True
      then have "rd_committed_entries (ready n) = []"
        using settled_ready[OF _ assms(1)] Some by simp
      then have "c' = c1 \<or> c' = put_replica i (advance n) c1"
        using assms(3) Some ok True c1(2) by (auto simp: deliver_from_def Let_def split: if_splits)
      moreover have "settled i k as (put_replica i (advance n) c1)"
        using c1 Some True by (auto simp: settled_def put_replica_def cluster_applied_def advance_def)
      ultimately show ?thesis using c1(1) by auto
    next
      case False
      then show ?thesis
        using assms(3) Some ok c1(1)
        by (auto simp: deliver_from_def Let_def settled_put_other split: if_splits)
          (auto simp: settled_def put_replica_def cluster_applied_def lookup_default_update')
    qed
  qed
qed

lemma deliver_pass_settled:
  "settled i k as c \<Longrightarrow> (\<And>m. dlv m \<Longrightarrow> m_to m \<noteq> i) \<Longrightarrow> left_state (deliver_pass it dlv is p c) = Some (p', c') \<Longrightarrow>
   settled i k as c'"
proof (induction "is" arbitrary: p c)
  case Nil
  then show ?case by simp
next
  case (Cons j "is")
  obtain p1 c1 where left: "left_state (deliver_from it dlv j p c) = Some (p1, c1)"
    using Cons.prems(3) by (cases "deliver_from it dlv j p c") auto
  have "settled i k as c1" by (rule deliver_from_settled[OF Cons.prems(1,2) left])
  then show ?case
    using Cons.IH[OF _ Cons.prems(2)] Cons.prems(3) left
    by (cases "deliver_from it dlv j p c") auto
qed

lemma deliver_loop_settled:
  "deliver_loop it its dlv r c = Some res \<Longrightarrow> settled i k as c \<longrightarrow> (\<forall>m. dlv m \<longrightarrow> m_to m \<noteq> i) \<longrightarrow>
   (\<forall>c'. left_state res = Some c' \<longrightarrow> settled i k as c')"
proof (erule deliver_loop.raw_induct[where P = "\<lambda>it its dlv r c res. settled i k as c \<longrightarrow> (\<forall>m. dlv m \<longrightarrow> m_to m \<noteq> i) \<longrightarrow>
    (\<forall>c'. left_state res = Some c' \<longrightarrow> settled i k as c')", rotated])
  fix loop it its dlv r c res
  assume IH: "\<And>it its dlv r c res. loop it its dlv r c = Some res \<Longrightarrow> settled i k as c \<longrightarrow> (\<forall>m. dlv m \<longrightarrow> m_to m \<noteq> i) \<longrightarrow>
      (\<forall>c'. left_state res = Some c' \<longrightarrow> settled i k as c')"
    and step: "(case deliver_pass it dlv (its r (Mapping.keys (cl_nodes c))) False c of
        Done (p, c') \<Rightarrow> if p then loop it its dlv (Suc r) c' else Some (Done c')
      | Failed err (p, c') \<Rightarrow> Some (Failed err c') | Panic \<Rightarrow> Some Panic) = Some res"
  show "settled i k as c \<longrightarrow> (\<forall>m. dlv m \<longrightarrow> m_to m \<noteq> i) \<longrightarrow> (\<forall>c'. left_state res = Some c' \<longrightarrow> settled i k as c')"
  proof (intro impI allI)
    fix c' assume c: "settled i k as c" "\<forall>m. dlv m \<longrightarrow> m_to m \<noteq> i" "left_state res = Some c'"
    let ?p = "deliver_pass it dlv (its r (Mapping.keys (cl_nodes c))) False c"
    show "settled i k as c'"
    proof (cases ?p)
      case (Done pc)
      then obtain p c1 where pc: "?p = Done (p, c1)" by (cases pc) simp
      have "settled i k as c1"
        using deliver_pass_settled[OF c(1), of dlv it "its r (Mapping.keys (cl_nodes c))" False p c1] c(2) pc by simp
      then show ?thesis
        using IH[of it its dlv "Suc r" c1 res] step pc c(2,3) by (auto split: if_splits)
    next
      case (Failed err pc)
      then obtain p c1 where pc: "?p = Failed err (p, c1)" by (cases pc) simp
      then show ?thesis
        using deliver_pass_settled[OF c(1), of dlv it "its r (Mapping.keys (cl_nodes c))" False p c1] c(2,3) step by auto
    next
      case Panic
      then show ?thesis using step c(3) by auto
    qed
  qed
qed

text \<open>
  a leader to which no message is delivered commits nothing, however long the delivery runs and
  whatever order it takes: a command proposed to it stays in its log, its commit index stays where it
  was and nothing more is applied by it. Messages it sends may get through.
\<close>

lemma isolated_leader_commits_nothing:
  assumes "Mapping.lookup (cl_nodes c) i = Some n" "applied (nd_log n) = committed (nd_log n)" "node_wf n"
    and "\<forall>m. dlv m \<longrightarrow> m_to m \<noteq> i"
    and "cluster_propose_filtered it its i data dlv c = Some r" "left_state r = Some c'"
  shows "cluster_applied i c' = cluster_applied i c \<and>
    (\<exists>n'. Mapping.lookup (cl_nodes c') i = Some n' \<and> committed (nd_log n') = committed (nd_log n) \<and>
      applied (nd_log n') = committed (nd_log n))"
proof -
  have cursors: "committed (nd_log n') = committed (nd_log n) \<and> applied (nd_log n') = applied (nd_log n)"
    if "left_state (propose data n) = Some n'" for n'
    using that assms(3) by (auto simp: propose_def propose_internal_eq broadcast_append_eq node_wf_def split: if_splits)
  have put: "settled i (committed (nd_log n)) (cluster_applied i c) (put_replica i n' c)"
    if "left_state (propose data n) = Some n'" for n'
    using cursors[OF that] assms(2) by (simp add: settled_def put_replica_def cluster_applied_def)
  have "settled i (committed (nd_log n)) (cluster_applied i c) c'"
  proof (cases "propose data n")
    case (Done n')
    then show ?thesis
      using deliver_loop_settled[of it its dlv 0 "put_replica i n' c" r] put[of n'] assms(1,4,5,6)
      by (simp add: cluster_propose_filtered_def cluster_deliver_filtered_def)
  next
    case (Failed err n')
    then show ?thesis
      using put[of n'] assms(1,5,6) by (auto simp: cluster_propose_filtered_def)
  next
    case Panic
    then show ?thesis using assms(1,5,6) by (auto simp: cluster_propose_filtered_def)
  qed
  then show ?thesis unfolding settled_def by blast
qed

definition elected_cluster :: "cluster option" where
  "elected_cluster =
     (case new_cluster [1, 2, 3] of
        Inl e \<Rightarrow> None
      | Inr c \<Rightarrow> (case cluster_ticks sorted_range 3 c of Some (Done c1) \<Rightarrow> Some c1 | _ \<Rightarrow> None))"

definition cut_off :: "message \<Rightarrow> bool" where
  "cut_off m \<longleftrightarrow> m_to m \<noteq> 1"

lemma elected_cluster_cut_off:
  "case elected_cluster of
     None \<Rightarrow> False
   | Some c \<Rightarrow>
       (case Mapping.lookup (cl_nodes c) 1 of
          None \<Rightarrow> False
        | Some n \<Rightarrow> applied (nd_log n) = committed (nd_log n) \<and> entries (nd_log n) = [zero_entry] \<and> nd_role n = Leader \<and>
            \<not> nd_pre_vote n \<and>
            (case cluster_propose_filtered sorted_range (\<lambda>_. sorted_range) 1 [7] cut_off c of
               Some (Done c') \<Rightarrow> True | _ \<Rightarrow> False))"
  by code_simp

lemma isolated_leader_commits_nothing_witness:
  "\<exists>c c'. elected_cluster = Some c \<and>
     cluster_propose_filtered sorted_range (\<lambda>_. sorted_range) 1 [7] cut_off c = Some (Done c') \<and>
     cluster_applied 1 c' = cluster_applied 1 c"
proof -
  obtain c n c' where c: "elected_cluster = Some c" "Mapping.lookup (cl_nodes c) 1 = Some n"
    "applied (nd_log n) = committed (nd_log n)" "entries (nd_log n) = [zero_entry]" "nd_role n = Leader" "\<not> nd_pre_vote n"
    "cluster_propose_filtered sorted_range (\<lambda>_. sorted_range) 1 [7] cut_off c = Some (Done c')"
    using elected_cluster_cut_off by (auto split: option.splits outcome.splits)
  have "node_wf n" using c(4-6) by (simp add: node_wf_def log_wf_def)
  then show ?thesis
    using isolated_leader_commits_nothing[OF c(2,3) _ _ c(7)] c(1,7) by (auto simp: cut_off_def)
qed

end
