(* ===== verification/Float32.thy ===== *)
theory Float32
  imports Prelude "HOL-Library.Log_Nat"
begin

section \<open>Go's float32: the arithmetic the distance function uses\<close>

text \<open>
  Every finite \<open>float32\<close> is a multiple of \<open>2 ^ -149\<close>; \<open>Fin m\<close> is the value \<open>m * 2 ^ -149\<close>. The two
  zeros are one value here: the code only subtracts, multiplies, adds and compares, and none of these
  tells them apart. Results are rounded to 24 significant bits, ties to even, and overflow to an
  infinity. Go allows an implementation to fuse a product with an addition and round once; the model
  rounds every operation, as the amd64 compiler does by default. The order is Go's \<open><\<close> made total by
  putting NaN last; \<open>f32_less\<close> is Go's.
\<close>

datatype f32 = Fin int | Inf bool | Nan   \<comment> \<open>\<open>Inf True\<close> is the negative one\<close>

definition round_shift :: "int \<Rightarrow> nat \<Rightarrow> int" where
  \<comment> \<open>\<open>p / 2 ^ k\<close>, rounded to the nearest integer, ties to even\<close>
  "round_shift p k =
     (let q = p div 2 ^ k; r = p mod 2 ^ k
      in if 2 * r < 2 ^ k \<or> (2 * r = 2 ^ k \<and> even q) then q else q + 1)"

definition f32_limit :: int where
  \<comment> \<open>\<open>2 ^ 128\<close>, where the infinities start\<close>
  "f32_limit = 2 ^ 277"

definition round32 :: "nat \<Rightarrow> int \<Rightarrow> f32" where
  \<comment> \<open>the float nearest to \<open>p * 2 ^ -(149 + s)\<close>\<close>
  "round32 s p =
     (let k = max s (nat (bitlen \<bar>p\<bar> - 24));
          m = round_shift p k * 2 ^ (k - s)
      in if \<bar>m\<bar> \<ge> f32_limit then Inf (m < 0) else Fin m)"

fun f32_neg :: "f32 \<Rightarrow> f32" where
  "f32_neg (Fin m) = Fin (- m)"
| "f32_neg (Inf s) = Inf (\<not> s)"
| "f32_neg Nan = Nan"

fun f32_add :: "f32 \<Rightarrow> f32 \<Rightarrow> f32" where
  "f32_add (Fin a) (Fin b) = round32 0 (a + b)"
| "f32_add (Inf s) (Inf t) = (if s = t then Inf s else Nan)"
| "f32_add (Inf s) (Fin b) = Inf s"
| "f32_add (Fin a) (Inf t) = Inf t"
| "f32_add Nan y = Nan"
| "f32_add x Nan = Nan"

definition f32_sub :: "f32 \<Rightarrow> f32 \<Rightarrow> f32" where
  "f32_sub x y = f32_add x (f32_neg y)"

fun f32_mul :: "f32 \<Rightarrow> f32 \<Rightarrow> f32" where
  "f32_mul (Fin a) (Fin b) = round32 149 (a * b)"
| "f32_mul (Inf s) (Inf t) = Inf (s \<noteq> t)"
| "f32_mul (Inf s) (Fin b) = (if b = 0 then Nan else Inf (s \<noteq> (b < 0)))"
| "f32_mul (Fin a) (Inf t) = (if a = 0 then Nan else Inf (t \<noteq> (a < 0)))"
| "f32_mul Nan y = Nan"
| "f32_mul x Nan = Nan"

definition f32_of_int :: "int \<Rightarrow> f32" where
  "f32_of_int n = Fin (n * 2 ^ 149)"

fun finite32 :: "f32 \<Rightarrow> bool" where
  "finite32 (Fin m) \<longleftrightarrow> True"
| "finite32 _ \<longleftrightarrow> False"

subsection \<open>The order\<close>

fun f32_le :: "f32 \<Rightarrow> f32 \<Rightarrow> bool" where
  "f32_le (Fin a) (Fin b) \<longleftrightarrow> a \<le> b"
| "f32_le (Inf s) y \<longleftrightarrow> s \<or> y = Inf False \<or> y = Nan"
| "f32_le (Fin a) (Inf t) \<longleftrightarrow> \<not> t"
| "f32_le (Fin a) Nan \<longleftrightarrow> True"
| "f32_le Nan y \<longleftrightarrow> y = Nan"

instantiation f32 :: linorder
begin

definition less_eq_f32 :: "f32 \<Rightarrow> f32 \<Rightarrow> bool" where
  "x \<le> y \<longleftrightarrow> f32_le x y"

definition less_f32 :: "f32 \<Rightarrow> f32 \<Rightarrow> bool" where
  "x < y \<longleftrightarrow> f32_le x y \<and> x \<noteq> y"

instance
proof
  have refl: "f32_le x x" and antisym: "f32_le x y \<Longrightarrow> f32_le y x \<Longrightarrow> x = y"
    and trans: "f32_le x y \<Longrightarrow> f32_le y z \<Longrightarrow> f32_le x z" and total: "f32_le x y \<or> f32_le y x" for x y z
    by (cases x; cases y; cases z; force)+
  fix x y z :: f32
  show "(x < y) = (x \<le> y \<and> \<not> y \<le> x)"
    using refl antisym by (auto simp: less_eq_f32_def less_f32_def)
  show "x \<le> x" by (simp add: less_eq_f32_def refl)
  show "x \<le> y \<Longrightarrow> y \<le> z \<Longrightarrow> x \<le> z" unfolding less_eq_f32_def by (rule trans)
  show "x \<le> y \<Longrightarrow> y \<le> x \<Longrightarrow> x = y" unfolding less_eq_f32_def by (rule antisym)
  show "x \<le> y \<or> y \<le> x" unfolding less_eq_f32_def by (rule total)
qed

end

definition f32_less :: "f32 \<Rightarrow> f32 \<Rightarrow> bool" where
  "f32_less x y \<longleftrightarrow> x \<noteq> Nan \<and> y \<noteq> Nan \<and> x < y"

lemma f32_order_simps [simp]:
  "Fin a \<le> Fin b \<longleftrightarrow> a \<le> b" "Fin a < Fin b \<longleftrightarrow> a < b" "x \<le> Nan"
  "Fin a \<le> Inf t \<longleftrightarrow> \<not> t" "Inf s \<le> Fin b \<longleftrightarrow> s"
  by (cases x; auto simp: less_eq_f32_def less_f32_def)+

lemma f32_nonneg_cases:
  assumes "Fin 0 \<le> x" "x \<noteq> Nan"
  obtains m where "x = Fin m" "0 \<le> m" | "x = Inf False"
  using assms by (cases x) (auto simp: less_eq_f32_def)

subsection \<open>Rounding\<close>

lemma round_shift_exact: "2 ^ k dvd p \<Longrightarrow> round_shift p k = p div 2 ^ k"
  by (simp add: round_shift_def)

lemma round_shift_nonneg: "0 \<le> p \<Longrightarrow> 0 \<le> round_shift p k"
  by (auto simp: round_shift_def Let_def pos_imp_zdiv_nonneg_iff intro: add_nonneg_nonneg)

lemma round_shift_minus: "round_shift (- p) k = - round_shift p k"
proof (cases "p mod 2 ^ k = 0")
  case True
  then show ?thesis
    by (simp add: round_shift_def zdiv_zminus1_eq_if zmod_zminus1_eq_if)
next
  case False
  then have q: "- p div 2 ^ k = - (p div 2 ^ k) - 1" "- p mod 2 ^ k = 2 ^ k - p mod 2 ^ k"
    by (simp_all add: zdiv_zminus1_eq_if zmod_zminus1_eq_if)
  then show ?thesis
    by (auto simp: round_shift_def Let_def)
qed

lemma f32_limit_pos: "0 < f32_limit"
  by (simp add: f32_limit_def)

lemma round32_minus: "round32 s (- p) = f32_neg (round32 s p)"
proof -
  have m: "round_shift (- p) k * 2 ^ j = - (round_shift p k * 2 ^ j)" for k j
    by (simp only: round_shift_minus mult_minus_left)
  define m where "m = round_shift p (max s (nat (bitlen \<bar>p\<bar> - 24))) * 2 ^ (max s (nat (bitlen \<bar>p\<bar> - 24)) - s)"
  have "round32 s p = (if \<bar>m\<bar> \<ge> f32_limit then Inf (m < 0) else Fin m)"
    "round32 s (- p) = (if \<bar>m\<bar> \<ge> f32_limit then Inf (- m < 0) else Fin (- m))"
    by (simp_all only: round32_def Let_def m abs_minus_cancel m_def)
  then show ?thesis using f32_limit_pos by auto
qed

lemma round32_cases: "round32 s p \<noteq> Nan"
  by (simp add: round32_def Let_def)

lemma round32_nonneg: "0 \<le> p \<Longrightarrow> Fin 0 \<le> round32 s p"
proof -
  assume "0 \<le> p"
  then have "0 \<le> round_shift p k * 2 ^ j" for k j
    using round_shift_nonneg by simp
  then show ?thesis
    by (auto simp: round32_def Let_def not_less)
qed

text \<open>Numbers with at most 24 significant bits are kept.\<close>

lemma round32_exact:
  assumes "\<bar>n\<bar> < 2 ^ 24" "s \<le> e" "e < 240 + s"
  shows "round32 s (n * 2 ^ e) = Fin (n * 2 ^ (e - s))"
proof (cases "n = 0")
  case True
  then show ?thesis using f32_limit_pos by (simp add: round32_def round_shift_def)
next
  case False
  let ?p = "n * 2 ^ e" and ?k = "max s (nat (bitlen \<bar>n * 2 ^ e\<bar> - 24))"
  have "bitlen \<bar>?p\<bar> = bitlen \<bar>n\<bar> + e"
    using False by (simp add: abs_mult)
  moreover have "bitlen \<bar>n\<bar> \<le> 24"
    using assms(1) by (simp add: bitlen_le_iff_power)
  ultimately have "?k \<le> e" using assms(2) by simp
  have "s \<le> ?k" by simp
  define k where "k = ?k"
  have "(2::int) ^ e = 2 ^ (e - k) * 2 ^ k"
    using \<open>?k \<le> e\<close> by (simp add: k_def flip: power_add)
  then have "?p = (n * 2 ^ (e - k)) * 2 ^ k" by (simp only: mult.assoc)
  then have "round_shift ?p k = n * 2 ^ (e - k)"
    by (simp only: round_shift_exact dvd_triv_right) simp
  moreover have "(2::int) ^ (e - k) * 2 ^ (k - s) = 2 ^ (e - s)"
    using \<open>?k \<le> e\<close> \<open>s \<le> ?k\<close> by (simp add: k_def flip: power_add)
  ultimately have m: "round_shift ?p ?k * 2 ^ (?k - s) = n * 2 ^ (e - s)"
    unfolding k_def by (simp only: mult.assoc)
  have "\<bar>n * 2 ^ (e - s)\<bar> < 2 ^ 24 * 2 ^ (e - s)"
    using assms(1) by (simp add: abs_mult)
  also have "\<dots> = 2 ^ (24 + (e - s))"
    by (simp only: power_add)
  also have "\<dots> \<le> f32_limit"
    unfolding f32_limit_def using assms(2,3) by (intro power_increasing) auto
  finally show ?thesis
    using m by (simp add: round32_def Let_def)
qed

end
