(* ===== verification/Vector.thy ===== *)
theory Vector
  imports Float32
begin

section \<open>internal/vector: embeddings and their distance\<close>

text \<open>
  A vector is a list of 32-bit floats. \<open>l2_squared\<close> follows the two loops of \<open>L2Squared\<close>: eight
  components at a time, added in the order the expression has them, then the rest one by one.
\<close>

type_synonym vec = "f32 list"

datatype vector_error = DimensionMismatch | NonFinite

definition validate_dimension :: "int \<Rightarrow> vec \<Rightarrow> vector_error option" where
  "validate_dimension dimension v =
     (if int (length v) \<noteq> dimension then Some DimensionMismatch
      else if list_all finite32 v then None else Some NonFinite)"

definition sq :: "f32 \<Rightarrow> f32 \<Rightarrow> f32" where
  "sq x y = (let d = f32_sub x y in f32_mul d d)"

fun l2_tail :: "f32 \<Rightarrow> vec \<Rightarrow> vec \<Rightarrow> f32" where
  "l2_tail s (x # xs) (y # ys) = l2_tail (f32_add s (sq x y)) xs ys"
| "l2_tail s _ _ = s"

fun sum_left :: "f32 list \<Rightarrow> f32" where
  \<comment> \<open>\<open>x + y + z\<close> is \<open>(x + y) + z\<close>\<close>
  "sum_left [] = Fin 0"
| "sum_left (x # xs) = foldl f32_add x xs"

function l2_loop :: "f32 \<Rightarrow> vec \<Rightarrow> vec \<Rightarrow> f32" where
  "l2_loop s a b =
     (if length a < 8 then l2_tail s a b
      else l2_loop (f32_add s (sum_left (map2 sq (take 8 a) (take 8 b)))) (drop 8 a) (drop 8 b))"
  by pat_completeness auto
termination
  by (relation "measure (\<lambda>(s, a, b). length a)") auto

declare l2_loop.simps [simp del]

definition l2_squared :: "vec \<Rightarrow> vec \<Rightarrow> f32" where
  "l2_squared a b = (if length a \<noteq> length b then Nan else l2_loop (Fin 0) a b)"

subsection \<open>Distances of valid vectors\<close>

lemma f32_sub_swap: "finite32 x \<Longrightarrow> finite32 y \<Longrightarrow> f32_sub y x = f32_neg (f32_sub x y)"
proof (cases x; cases y)
  fix a b assume "x = Fin a" "y = Fin b"
  then show ?thesis using round32_minus[of 0 "a - b"] by (simp add: f32_sub_def)
qed auto

lemma f32_mul_neg: "f32_mul (f32_neg x) (f32_neg y) = f32_mul x y"
  by (cases x; cases y) auto

lemma sq_commute: "finite32 x \<Longrightarrow> finite32 y \<Longrightarrow> sq y x = sq x y"
  using f32_sub_swap[of x y] f32_mul_neg[of "f32_sub x y" "f32_sub x y"] by (simp add: sq_def Let_def)

definition distance_like :: "f32 \<Rightarrow> bool" where
  \<comment> \<open>a number that is not negative, or infinity\<close>
  "distance_like x \<longleftrightarrow> x \<noteq> Nan \<and> Fin 0 \<le> x"

lemma distance_like_cases: "distance_like x \<longleftrightarrow> (\<exists>m. x = Fin m \<and> 0 \<le> m) \<or> x = Inf False"
  by (cases x) (auto simp: distance_like_def)

lemma distance_like_round: "0 \<le> p \<Longrightarrow> distance_like (round32 s p)"
  by (simp add: distance_like_def round32_cases round32_nonneg)

lemma distance_like_add: "distance_like x \<Longrightarrow> distance_like y \<Longrightarrow> distance_like (f32_add x y)"
  using distance_like_round[of _ 0] by (auto simp: distance_like_cases[of x] distance_like_cases[of y])
    (auto simp: distance_like_cases)

lemma distance_like_square: "x \<noteq> Nan \<Longrightarrow> distance_like (f32_mul x x)"
  by (cases x) (auto simp: distance_like_round distance_like_cases[of "Inf False"])

lemma distance_like_sq: "finite32 x \<Longrightarrow> finite32 y \<Longrightarrow> distance_like (sq x y)"
  unfolding sq_def Let_def
  by (rule distance_like_square) (cases x; cases y; simp add: f32_sub_def round32_cases)

lemma distance_like_foldl: "distance_like x \<Longrightarrow> list_all distance_like xs \<Longrightarrow> distance_like (foldl f32_add x xs)"
  by (induction xs arbitrary: x) (auto simp: distance_like_add)

lemma distance_like_sum: "list_all distance_like xs \<Longrightarrow> distance_like (sum_left xs)"
  by (cases xs) (auto simp: distance_like_foldl distance_like_cases[of "Fin 0"])

lemma map2_sq_distance: "list_all finite32 a \<Longrightarrow> list_all finite32 b \<Longrightarrow> list_all distance_like (map2 sq a b)"
  by (auto simp: list_all_iff distance_like_sq elim!: in_set_zipE)

lemma map2_sq_commute:
  "length a = length b \<Longrightarrow> list_all finite32 a \<Longrightarrow> list_all finite32 b \<Longrightarrow> map2 sq b a = map2 sq a b"
  by (induction a b rule: list_induct2) (auto simp: sq_commute)

lemma l2_tail_distance:
  "distance_like s \<Longrightarrow> list_all finite32 a \<Longrightarrow> list_all finite32 b \<Longrightarrow> distance_like (l2_tail s a b)"
  by (induction s a b rule: l2_tail.induct) (auto simp: distance_like_add distance_like_sq)

lemma l2_tail_commute:
  "list_all finite32 a \<Longrightarrow> list_all finite32 b \<Longrightarrow> l2_tail s b a = l2_tail s a b"
  by (induction s a b rule: l2_tail.induct) (auto simp: sq_commute, (cases; simp)?)

lemma list_all_take: "list_all P xs \<Longrightarrow> list_all P (take n xs)"
  and list_all_drop: "list_all P xs \<Longrightarrow> list_all P (drop n xs)"
  by (auto simp: list_all_iff dest: in_set_takeD in_set_dropD)

lemma l2_loop_distance:
  "distance_like s \<Longrightarrow> list_all finite32 a \<Longrightarrow> list_all finite32 b \<Longrightarrow> distance_like (l2_loop s a b)"
proof (induction s a b rule: l2_loop.induct)
  case (1 s a b)
  then show ?case
    by (subst l2_loop.simps)
      (simp add: l2_tail_distance distance_like_add distance_like_sum map2_sq_distance list_all_take list_all_drop)
qed

lemma l2_loop_commute:
  "length a = length b \<Longrightarrow> list_all finite32 a \<Longrightarrow> list_all finite32 b \<Longrightarrow> l2_loop s b a = l2_loop s a b"
proof (induction s a b rule: l2_loop.induct)
  case (1 s a b)
  show ?case
  proof (cases "length a < 8")
    case True
    then show ?thesis using 1(2-4) by (simp add: l2_loop.simps[of s] l2_tail_commute)
  next
    case False
    then show ?thesis
      using 1 by (simp add: l2_loop.simps[of s] map2_sq_commute list_all_take list_all_drop)
  qed
qed

subsection \<open>Integer vectors\<close>

text \<open>Small integers are exact: the loop then computes the sum of the squares.\<close>

lemma add_exact:
  assumes "\<bar>m + n\<bar> < 2 ^ 24"
  shows "f32_add (f32_of_int m) (f32_of_int n) = f32_of_int (m + n)"
proof -
  have "f32_add (f32_of_int m) (f32_of_int n) = round32 0 ((m + n) * 2 ^ 149)"
    by (simp only: f32_of_int_def f32_add.simps distrib_right)
  also have "\<dots> = Fin ((m + n) * 2 ^ (149 - 0))"
    by (rule round32_exact[OF assms]) simp_all
  finally show ?thesis by (simp only: f32_of_int_def diff_zero)
qed

lemma sub_exact:
  assumes "\<bar>m - n\<bar> < 2 ^ 24"
  shows "f32_sub (f32_of_int m) (f32_of_int n) = f32_of_int (m - n)"
proof -
  have "f32_neg (f32_of_int n) = f32_of_int (- n)"
    by (simp only: f32_of_int_def f32_neg.simps mult_minus_left)
  then show ?thesis
    using add_exact[of m "- n"] assms by (simp add: f32_sub_def)
qed

lemma mul_exact:
  assumes "\<bar>m * n\<bar> < 2 ^ 24"
  shows "f32_mul (f32_of_int m) (f32_of_int n) = f32_of_int (m * n)"
proof -
  have "(m * 2 ^ 149) * (n * 2 ^ 149) = (m * n) * (2 ^ 149 * 2 ^ 149 :: int)"
    by (simp only: mult.assoc mult.left_commute)
  also have "\<dots> = (m * n) * 2 ^ (149 + 149)"
    by (simp only: power_add)
  finally have "f32_mul (f32_of_int m) (f32_of_int n) = round32 149 ((m * n) * 2 ^ (149 + 149))"
    by (simp only: f32_of_int_def f32_mul.simps)
  also have "\<dots> = Fin ((m * n) * 2 ^ (149 + 149 - 149))"
    by (rule round32_exact[OF assms]) simp_all
  finally show ?thesis by (simp only: f32_of_int_def add_diff_cancel_right')
qed

lemma sq_exact:
  assumes "(x - y)\<^sup>2 < 2 ^ 24"
  shows "sq (f32_of_int x) (f32_of_int y) = f32_of_int ((x - y)\<^sup>2)"
proof -
  have prod: "\<bar>(x - y) * (x - y)\<bar> < 2 ^ 24" using assms by (simp add: power2_eq_square)
  have "\<bar>x - y\<bar> * 1 \<le> (x - y)\<^sup>2"
  proof (cases "x = y")
    case False
    then have "\<bar>x - y\<bar> * 1 \<le> \<bar>x - y\<bar> * \<bar>x - y\<bar>" by (intro mult_left_mono) auto
    then show ?thesis by (simp only: abs_mult_self_eq power2_eq_square)
  qed simp
  then have "\<bar>x - y\<bar> < 2 ^ 24" using assms by simp
  then show ?thesis
    using mul_exact[OF prod] by (simp add: sq_def Let_def sub_exact power2_eq_square)
qed

definition squares :: "int list \<Rightarrow> int list \<Rightarrow> int" where
  \<comment> \<open>the squared distance of integer vectors\<close>
  "squares a b = sum_list (map2 (\<lambda>x y. (x - y)\<^sup>2) a b)"

lemma squares_nonneg: "0 \<le> squares a b"
  by (auto simp: squares_def intro!: sum_list_nonneg)

lemma squares_Cons: "squares (x # a) (y # b) = (x - y)\<^sup>2 + squares a b"
  by (simp add: squares_def)

lemma l2_tail_exact:
  "0 \<le> s \<Longrightarrow> length a = length b \<Longrightarrow> s + squares a b < 2 ^ 24 \<Longrightarrow>
   l2_tail (f32_of_int s) (map f32_of_int a) (map f32_of_int b) = f32_of_int (s + squares a b)"
proof (induction a arbitrary: b s)
  case Nil
  then show ?case by (simp add: squares_def)
next
  case (Cons x a)
  then obtain y b' where b: "b = y # b'" "length a = length b'" by (cases b) auto
  have le: "s + (x - y)\<^sup>2 + squares a b' < 2 ^ 24" using Cons.prems(3) by (simp add: b(1) squares_Cons)
  then have "(x - y)\<^sup>2 < 2 ^ 24" "\<bar>s + (x - y)\<^sup>2\<bar> < 2 ^ 24" "0 \<le> s + (x - y)\<^sup>2"
    using Cons.prems(1) squares_nonneg[of a b'] by (smt (verit) zero_le_power2)+
  then show ?case
    using Cons.IH[OF _ b(2) le] by (simp add: b(1) sq_exact add_exact squares_Cons add.assoc)
qed

lemma sum_left_exact:
  "xs \<noteq> [] \<Longrightarrow> \<forall>x \<in> set xs. 0 \<le> x \<Longrightarrow> sum_list xs < 2 ^ 24 \<Longrightarrow>
   sum_left (map f32_of_int xs) = f32_of_int (sum_list xs)"
proof -
  have "0 \<le> s \<Longrightarrow> \<forall>x \<in> set xs. 0 \<le> x \<Longrightarrow> s + sum_list xs < 2 ^ 24 \<Longrightarrow>
     foldl f32_add (f32_of_int s) (map f32_of_int xs) = f32_of_int (s + sum_list xs)" for s xs
  proof (induction xs arbitrary: s)
    case (Cons x xs)
    then have "0 \<le> sum_list xs" by (simp add: sum_list_nonneg)
    then show ?case using Cons by (simp add: add_exact add.assoc)
  qed simp
  from this[of "hd xs" "tl xs"]
  show "xs \<noteq> [] \<Longrightarrow> \<forall>x \<in> set xs. 0 \<le> x \<Longrightarrow> sum_list xs < 2 ^ 24 \<Longrightarrow> ?thesis"
    by (cases xs) auto
qed

lemma squares_split: "length a = length b \<Longrightarrow> squares a b = squares (take n a) (take n b) + squares (drop n a) (drop n b)"
proof -
  assume "length a = length b"
  then have "map2 f a b = map2 f (take n a) (take n b) @ map2 f (drop n a) (drop n b)" for f :: "int \<Rightarrow> int \<Rightarrow> int"
    by (metis append_take_drop_id take_map drop_map take_zip drop_zip)
  then show ?thesis by (simp add: squares_def)
qed

lemma map2_sq_exact:
  "length a = length b \<Longrightarrow> squares a b < 2 ^ 24 \<Longrightarrow>
   map2 sq (map f32_of_int a) (map f32_of_int b) = map f32_of_int (map2 (\<lambda>x y. (x - y)\<^sup>2) a b)"
proof (induction a b rule: list_induct2)
  case (Cons x a y b)
  then have "(x - y)\<^sup>2 < 2 ^ 24" "squares a b < 2 ^ 24"
    using squares_nonneg[of a b] by (simp_all add: squares_Cons) (smt (verit) zero_le_power2)+
  then show ?case using Cons.IH by (simp add: sq_exact)
qed simp

lemma l2_loop_exact:
  "0 \<le> s \<Longrightarrow> length a = length b \<Longrightarrow> s + squares a b < 2 ^ 24 \<Longrightarrow>
   l2_loop (f32_of_int s) (map f32_of_int a) (map f32_of_int b) = f32_of_int (s + squares a b)"
proof (induction "length a" arbitrary: s a b rule: less_induct)
  case less
  show ?case
  proof (cases "length a < 8")
    case True
    then show ?thesis using l2_tail_exact less.prems by (simp add: l2_loop.simps)
  next
    case False
    let ?a = "take 8 a" and ?b = "take 8 b"
    note split = squares_split[OF less.prems(2), of 8]
    have bound: "squares ?a ?b < 2 ^ 24" "s + squares ?a ?b + squares (drop 8 a) (drop 8 b) < 2 ^ 24"
      "\<bar>s + squares ?a ?b\<bar> < 2 ^ 24" "0 \<le> s + squares ?a ?b"
      using less.prems squares_nonneg[of ?a ?b] squares_nonneg[of "drop 8 a" "drop 8 b"] unfolding split by linarith+
    have "map2 (\<lambda>x y. (x - y)\<^sup>2) ?a ?b \<noteq> []" using False less.prems(2) by (cases a; cases b) auto
    moreover have nonneg: "\<forall>q \<in> set (map2 (\<lambda>x y. (x - y)\<^sup>2) ?a ?b). 0 \<le> q" by auto
    ultimately have "sum_left (map2 sq (map f32_of_int ?a) (map f32_of_int ?b)) = f32_of_int (squares ?a ?b)"
      using map2_sq_exact[of ?a ?b] sum_left_exact[OF _ nonneg] bound(1) less.prems(2)
      by (simp add: squares_def)
    then show ?thesis
      using less.hyps[of "drop 8 a" "s + squares ?a ?b" "drop 8 b"] False less.prems(2) bound split
      by (subst l2_loop.simps) (simp add: take_map drop_map add_exact add.assoc)
  qed
qed

subsection \<open>Distances the index relies on\<close>

lemma validate_None: "validate_dimension d v = None \<longleftrightarrow> int (length v) = d \<and> list_all finite32 v"
  by (simp add: validate_dimension_def)

lemma l2_squared_valid:
  assumes "validate_dimension d a = None" "validate_dimension d b = None"
  shows "distance_like (l2_squared a b)" "l2_squared b a = l2_squared a b"
proof -
  have len: "length a = length b" and fin: "list_all finite32 a" "list_all finite32 b"
    using assms by (auto simp: validate_None)
  then show "distance_like (l2_squared a b)"
    by (simp add: l2_squared_def l2_loop_distance distance_like_def[of "Fin 0"])
  show "l2_squared b a = l2_squared a b"
    using l2_loop_commute[OF len fin] len by (simp add: l2_squared_def)
qed

lemma sq_self: "finite32 x \<Longrightarrow> sq x x = Fin 0"
  using f32_limit_pos by (cases x) (simp_all add: sq_def f32_sub_def round32_def round_shift_def)

lemma add_zero: "f32_add (Fin 0) (Fin 0) = Fin 0"
  using f32_limit_pos by (simp add: round32_def round_shift_def)

lemma l2_tail_self: "list_all finite32 a \<Longrightarrow> l2_tail (Fin 0) a a = Fin 0"
  by (induction a) (simp_all only: l2_tail.simps list.pred_inject sq_self add_zero)

lemma sum_left_zero: "set xs \<subseteq> {Fin 0} \<Longrightarrow> sum_left xs = Fin 0"
proof -
  have "set xs \<subseteq> {Fin 0} \<Longrightarrow> foldl f32_add (Fin 0) xs = Fin 0" for xs
    by (induction xs) (simp_all del: f32_add.simps add: add_zero)
  then show "set xs \<subseteq> {Fin 0} \<Longrightarrow> sum_left xs = Fin 0" by (cases xs) auto
qed

lemma l2_loop_self: "list_all finite32 a \<Longrightarrow> l2_loop (Fin 0) a a = Fin 0"
proof (induction "length a" arbitrary: a rule: less_induct)
  case less
  have "set (map2 sq (take 8 a) (take 8 a)) \<subseteq> {Fin 0}"
    using less.prems sq_self by (auto simp: list_all_iff in_set_zip dest!: in_set_takeD nth_mem)
  then have "f32_add (Fin 0) (sum_left (map2 sq (take 8 a) (take 8 a))) = Fin 0"
    by (simp only: sum_left_zero add_zero)
  then show ?case
    using less l2_tail_self[of a] list_all_drop[of finite32 a 8] by (subst l2_loop.simps) simp
qed

text \<open>
  C39: For two vectors that \<open>ValidateDimension\<close> accepts for the same dimension, \<open>L2Squared\<close> is never NaN and
  never negative (it can be +Inf), it is symmetric, and the distance of a vector to itself is zero.
  Vectors of different lengths give NaN.
\<close>
theorem distance_of_valid_vectors:
  assumes "validate_dimension d a = None" "validate_dimension d b = None"
  shows "l2_squared a b \<noteq> Nan \<and> Fin 0 \<le> l2_squared a b \<and> l2_squared b a = l2_squared a b \<and>
    l2_squared a a = Fin 0 \<and> l2_squared a (x # b) = Nan"
proof (intro conjI)
  show "l2_squared a a = Fin 0" "l2_squared a (x # b) = Nan"
    using assms l2_loop_self[of a] by (auto simp: l2_squared_def validate_None)
qed (use l2_squared_valid[OF assms] in \<open>auto simp: distance_like_def\<close>)

theorem distance_of_valid_vectors_witness:
  "l2_squared [f32_of_int 1, f32_of_int 2] [f32_of_int 4, f32_of_int 6] = f32_of_int 25 \<and>
   l2_squared [f32_of_int 4, f32_of_int 6] [f32_of_int 1, f32_of_int 2] = f32_of_int 25"
proof -
  have "l2_squared [f32_of_int 4, f32_of_int 6] [f32_of_int 1, f32_of_int 2] = f32_of_int 25" by code_simp
  with distance_of_valid_vectors[of 2 "[f32_of_int 1, f32_of_int 2]" "[f32_of_int 4, f32_of_int 6]"]
  show ?thesis by (simp add: validate_None f32_of_int_def)
qed

text \<open>
  C38: The unrolled loop of \<open>L2Squared\<close> is the mathematical definition on integer vectors of any length: as
  long as the sum of the squared differences stays below \<open>2 ^ 24\<close>, no operation rounds and the result
  is exactly that sum.
\<close>
theorem distance_exact_on_integers:
  assumes "length a = length b" "squares a b < 2 ^ 24"
  shows "l2_squared (map f32_of_int a) (map f32_of_int b) = f32_of_int (\<Sum>(x, y) \<leftarrow> zip a b. (x - y)\<^sup>2)"
proof -
  have "Fin 0 = f32_of_int 0" by (simp add: f32_of_int_def)
  moreover have "l2_loop (f32_of_int 0) (map f32_of_int a) (map f32_of_int b) = f32_of_int (0 + squares a b)"
    by (rule l2_loop_exact) (use assms in auto)
  ultimately show ?thesis using assms(1) by (simp add: l2_squared_def squares_def)
qed

theorem distance_exact_on_integers_witness:
  "l2_squared (map f32_of_int [0..18]) (map f32_of_int (replicate 19 1)) = f32_of_int 1786"
proof -
  have "squares [0..18] (replicate 19 1) = 1786" by code_simp
  then show ?thesis
    using distance_exact_on_integers[of "[0..18]" "replicate 19 1"] by (simp add: squares_def)
qed

end
