(* ===== verification/Hnsw.thy ===== *)
theory Hnsw
  imports Vector "HOL-Library.Finite_Map" "HOL-Library.List_Lexorder" "HOL-Library.Product_Lexorder" "HOL-Library.Multiset"
begin

section \<open>internal/ann/hnsw.go: the graph index\<close>

text \<open>
  The graph is a finite map from IDs to nodes. The code shares nodes through pointers, but every node
  it changes is the one stored under its ID, so a change is an update of the map. A look-up of a
  missing node is a nil pointer, and its use a panic: the inner functions return \<open>None\<close> then.

  Parameters: \<open>draw c i\<close> is the level that the \<open>i\<close>-th call of \<open>level()\<close> returns for configuration \<open>c\<close>
  (a seeded generator and a floating-point logarithm of the standard library); \<open>it\<close> and \<open>lv\<close> are the
  orders in which \<open>range\<close> walks the nodes and the levels of a node. Lengths and limits are Go \<open>int\<close>s.
  \<open>sort.Slice\<close> sorts by distance and then by ID. Without NaN this is a total order on results that
  only ties equal ones, so any sorting function gives the same list.
\<close>

type_synonym 'k walk = "'k set \<Rightarrow> 'k list"

definition any_order :: "'k walk \<Rightarrow> bool" where
  \<comment> \<open>all that Go promises about \<open>range\<close>\<close>
  "any_order it \<longleftrightarrow> (\<forall>S. finite S \<longrightarrow> set (it S) = S \<and> distinct (it S))"

record hnsw_config =
  cf_dimension :: int
  cf_m :: int
  cf_ef_construction :: int
  cf_ef_search :: int
  cf_seed :: u64

record result =
  r_id :: bytes
  r_distance :: f32

record hnode =
  hn_id :: bytes
  hn_v :: vec
  hn_level :: int
  hn_neighbors :: "(int, bytes list) fmap"

type_synonym nodes = "(bytes, hnode) fmap"

record hnsw =
  h_cfg :: hnsw_config
  h_drawn :: nat            \<comment> \<open>\<open>rng\<close>: how many levels have been drawn\<close>
  h_nodes :: nodes
  h_entry :: bytes
  h_max_level :: int

datatype ann_error = InvalidConfig | EmptyId | BadVector vector_error | IdNotFound | BadK

definition new_hnsw :: "hnsw_config \<Rightarrow> ann_error + hnsw" where
  "new_hnsw c =
     (if cf_dimension c \<le> 0 \<or> cf_m c \<le> 0 \<or> cf_ef_construction c < cf_m c \<or> cf_ef_search c \<le> 0
      then Inl InvalidConfig
      else Inr \<lparr>h_cfg = c, h_drawn = 0, h_nodes = fmempty, h_entry = [], h_max_level = - 1\<rparr>)"

definition h_validate :: "hnsw \<Rightarrow> vec \<Rightarrow> vector_error option" where
  "h_validate h v = validate_dimension (cf_dimension (h_cfg h)) v"

subsection \<open>Helpers\<close>

definition links :: "hnode \<Rightarrow> int \<Rightarrow> bytes list" where
  \<comment> \<open>\<open>n.neighbors[l]\<close>, nil when absent\<close>
  "links n l = (case fmlookup (hn_neighbors n) l of None \<Rightarrow> [] | Some ids \<Rightarrow> ids)"

definition set_links :: "int \<Rightarrow> bytes list \<Rightarrow> hnode \<Rightarrow> hnode" where
  "set_links l ids n = n\<lparr>hn_neighbors := fmupd l ids (hn_neighbors n)\<rparr>"

definition result_key :: "result \<Rightarrow> f32 \<times> bytes" where
  "result_key r = (r_distance r, r_id r)"

definition sort_results :: "result list \<Rightarrow> result list" where
  "sort_results rs = sort_key result_key rs"

fun measure_from :: "nodes \<Rightarrow> vec \<Rightarrow> bytes list \<Rightarrow> result list option" where
  \<comment> \<open>the distances of the named nodes\<close>
  "measure_from ns q [] = Some []"
| "measure_from ns q (i # ids) =
     (case fmlookup ns i of
        None \<Rightarrow> None
      | Some n \<Rightarrow> map_option (Cons \<lparr>r_id = i, r_distance = l2_squared q (hn_v n)\<rparr>) (measure_from ns q ids))"

definition trim :: "int \<Rightarrow> bytes \<Rightarrow> int \<Rightarrow> nodes \<Rightarrow> nodes option" where
  "trim m i l ns =
     (case fmlookup ns i of
        None \<Rightarrow> None
      | Some n \<Rightarrow>
          map_option (\<lambda>rs. fmupd i (set_links l (map r_id (take (nat m) (sort_results rs))) n) ns)
            (measure_from ns (hn_v n) (links n l)))"

definition push_link :: "bytes \<Rightarrow> int \<Rightarrow> bytes \<Rightarrow> nodes \<Rightarrow> nodes option" where
  \<comment> \<open>\<open>a.neighbors[l] = append(a.neighbors[l], b.id)\<close>\<close>
  "push_link a l b ns =
     (case (fmlookup ns a, fmlookup ns b) of
        (Some n, Some n') \<Rightarrow> Some (fmupd a (set_links l (links n l @ [hn_id n']) n) ns)
      | _ \<Rightarrow> None)"

definition link_nodes :: "int \<Rightarrow> bytes \<Rightarrow> bytes \<Rightarrow> int \<Rightarrow> nodes \<Rightarrow> nodes option" where
  "link_nodes m a b l ns =
     Option.bind (push_link a l b ns) (\<lambda>ns1. Option.bind (push_link b l a ns1) (trim m b l))"

definition closest :: "bytes walk \<Rightarrow> vec \<Rightarrow> int \<Rightarrow> int \<Rightarrow> bytes set \<Rightarrow> nodes \<Rightarrow> result list" where
  "closest it q l limit skip ns =
     take (nat limit) (sort_results
       (concat (map (\<lambda>i. case fmlookup ns i of
            None \<Rightarrow> []
          | Some n \<Rightarrow> if i \<notin> skip \<and> l \<le> hn_level n then [\<lparr>r_id = i, r_distance = l2_squared q (hn_v n)\<rparr>] else [])
        (it (fset (fmdom ns))))))"

fun diverse :: "nodes \<Rightarrow> result \<Rightarrow> result list \<Rightarrow> bool option" where
  \<comment> \<open>no picked neighbour is closer to the candidate than the query is\<close>
  "diverse ns c [] = Some True"
| "diverse ns c (s # out) =
     (case (fmlookup ns (r_id c), fmlookup ns (r_id s)) of
        (Some nc, Some n) \<Rightarrow>
          if f32_less (l2_squared (hn_v nc) (hn_v n)) (r_distance c) then Some False else diverse ns c out
      | _ \<Rightarrow> None)"

fun select_diverse :: "nodes \<Rightarrow> result list \<Rightarrow> int \<Rightarrow> result list \<Rightarrow> result list option" where
  \<comment> \<open>the last argument is \<open>out\<close>\<close>
  "select_diverse ns [] m out = Some out"
| "select_diverse ns (c # cs) m out =
     (case diverse ns c out of
        None \<Rightarrow> None
      | Some keep \<Rightarrow>
          if keep then
            (if int (length (out @ [c])) = m then Some (out @ [c]) else select_diverse ns cs m (out @ [c]))
          else select_diverse ns cs m out)"

fun link_all :: "int \<Rightarrow> bytes \<Rightarrow> int \<Rightarrow> result list \<Rightarrow> nodes \<Rightarrow> nodes option" where
  "link_all m i l [] ns = Some ns"
| "link_all m i l (r # rs) ns = Option.bind (link_nodes m i (r_id r) l ns) (link_all m i l rs)"

definition connect :: "bytes walk \<Rightarrow> hnsw_config \<Rightarrow> bytes \<Rightarrow> vec \<Rightarrow> int \<Rightarrow> int \<Rightarrow> bytes set \<Rightarrow> nodes \<Rightarrow> nodes option" where
  \<comment> \<open>link node \<open>i\<close>, whose vector is \<open>v\<close>, to at most \<open>need\<close> diverse neighbours on level \<open>l\<close>\<close>
  "connect it c i v l need skip ns =
     Option.bind (select_diverse ns (closest it v l (cf_ef_construction c) skip ns) need [])
       (\<lambda>rs. link_all (cf_m c) i l rs ns)"

text \<open>Sorting is determined by the results alone, whatever order they come in.\<close>

lemma inj_result_key: "inj result_key"
  by (auto simp: inj_def result_key_def)

lemma sort_results_perm: "mset xs = mset ys \<Longrightarrow> sort_results xs = sort_results ys"
  unfolding sort_results_def
  by (rule sort_key_eq_sort_key) (simp_all add: inj_on_subset[OF inj_result_key])

lemma sort_results_simps [simp]:
  "set (sort_results rs) = set rs" "length (sort_results rs) = length rs" "sort_results [] = []"
  "sort_results rs = [] \<longleftrightarrow> rs = []"
  by (simp_all add: sort_results_def flip: length_0_conv)

definition ranked :: "result list \<Rightarrow> bool" where
  "ranked rs \<longleftrightarrow> sorted (map result_key rs)"

lemma ranked_sort [simp]: "ranked (sort_results rs)"
  by (simp add: ranked_def sort_results_def)

lemma ranked_take: "ranked rs \<Longrightarrow> ranked (take n rs)"
  by (simp add: ranked_def sorted_wrt_take flip: take_map)

lemma sort_ranked: "ranked rs \<Longrightarrow> sort_results rs = rs"
  by (simp add: ranked_def sort_results_def sort_key_id_if_sorted)

lemma ranked_Cons: "ranked (r # rs) \<Longrightarrow> s \<in> set rs \<Longrightarrow> r_distance r \<le> r_distance s"
  by (auto simp: ranked_def result_key_def less_eq_prod_def)

lemma ranked_last: "ranked rs \<Longrightarrow> r \<in> set rs \<Longrightarrow> r_distance r \<le> r_distance (last rs)"
proof (induction rs)
  case (Cons s rs)
  then have "ranked rs" by (simp add: ranked_def)
  with Cons ranked_Cons[of s rs "last rs"] show ?case by auto
qed simp

subsection \<open>Delete\<close>

fun drop_on_levels :: "int \<Rightarrow> bytes \<Rightarrow> bytes \<Rightarrow> int list \<Rightarrow> nodes \<Rightarrow> nodes option" where
  \<comment> \<open>forget the links of node \<open>i\<close> to \<open>gone\<close>, level by level\<close>
  "drop_on_levels m gone i [] ns = Some ns"
| "drop_on_levels m gone i (l # ls) ns =
     (case fmlookup ns i of
        None \<Rightarrow> None
      | Some n \<Rightarrow>
          Option.bind (trim m i l (fmupd i (set_links l (filter (\<lambda>b. b \<noteq> gone) (links n l)) n) ns))
            (drop_on_levels m gone i ls))"

fun drop_links :: "int walk \<Rightarrow> int \<Rightarrow> bytes \<Rightarrow> bytes list \<Rightarrow> nodes \<Rightarrow> nodes option" where
  "drop_links lv m gone [] ns = Some ns"
| "drop_links lv m gone (i # ids) ns =
     (case fmlookup ns i of
        None \<Rightarrow> None
      | Some n \<Rightarrow> Option.bind (drop_on_levels m gone i (lv (fset (fmdom (hn_neighbors n)))) ns) (drop_links lv m gone ids))"

function repair_node :: "bytes walk \<Rightarrow> hnsw_config \<Rightarrow> bytes \<Rightarrow> int \<Rightarrow> int \<Rightarrow> nodes \<Rightarrow> nodes option" where
  \<comment> \<open>levels \<open>l\<close> to \<open>hi\<close>, the level of the node\<close>
  "repair_node it c i l hi ns =
     (if hi < l then Some ns
      else case fmlookup ns i of
        None \<Rightarrow> None
      | Some n \<Rightarrow>
          let need = cf_m c - int (length (links n l))
          in if need \<le> 0 then repair_node it c i (l + 1) hi ns
             else Option.bind (connect it c i (hn_v n) l need (insert (hn_id n) (set (links n l))) ns)
                    (repair_node it c i (l + 1) hi))"
  by pat_completeness auto
termination
  by (relation "measure (\<lambda>(it, c, i, l, hi, ns). nat (hi + 1 - l))") auto

declare repair_node.simps [simp del]

fun repair :: "bytes walk \<Rightarrow> hnsw_config \<Rightarrow> bytes list \<Rightarrow> nodes \<Rightarrow> nodes option" where
  "repair it c [] ns = Some ns"
| "repair it c (i # ids) ns =
     (case fmlookup ns i of
        None \<Rightarrow> None
      | Some n \<Rightarrow> Option.bind (repair_node it c i 0 (hn_level n) ns) (repair it c ids))"

fun highest :: "nodes \<Rightarrow> bytes list \<Rightarrow> bytes \<times> int \<Rightarrow> (bytes \<times> int) option" where
  "highest ns [] e = Some e"
| "highest ns (i # ids) e =
     (case fmlookup ns i of
        None \<Rightarrow> None
      | Some n \<Rightarrow> highest ns ids (if snd e < hn_level n then (i, hn_level n) else e))"

definition sorted_ids :: "bytes walk \<Rightarrow> nodes \<Rightarrow> bytes list" where
  "sorted_ids it ns = sort (it (fset (fmdom ns)))"

definition h_delete :: "bytes walk \<Rightarrow> int walk \<Rightarrow> bytes \<Rightarrow> hnsw \<Rightarrow> (ann_error, hnsw) outcome" where
  "h_delete it lv i h =
     (if fmlookup (h_nodes h) i = None then Failed IdNotFound h
      else let c = h_cfg h; ns = fmdrop i (h_nodes h); ids = sorted_ids it ns
           in case Option.bind (drop_links lv (cf_m c) i (it (fset (fmdom ns))) ns) (repair it c ids) of
                None \<Rightarrow> Panic
              | Some ns' \<Rightarrow>
                  if h_entry h = i then
                    (case highest ns' ids ([], - 1) of
                       None \<Rightarrow> Panic
                     | Some (e, hi) \<Rightarrow> Done (h\<lparr>h_nodes := ns', h_entry := e, h_max_level := hi\<rparr>))
                  else Done (h\<lparr>h_nodes := ns'\<rparr>))"

subsection \<open>Insert\<close>

function connect_levels :: "bytes walk \<Rightarrow> hnsw_config \<Rightarrow> bytes \<Rightarrow> vec \<Rightarrow> int \<Rightarrow> nodes \<Rightarrow> nodes option" where
  \<comment> \<open>levels \<open>l\<close> down to zero\<close>
  "connect_levels it c i v l ns =
     (if l < 0 then Some ns
      else Option.bind (connect it c i v l (cf_m c) {i} ns) (connect_levels it c i v (l - 1)))"
  by pat_completeness auto
termination
  by (relation "measure (\<lambda>(it, c, i, v, l, ns). nat (l + 1))") auto

declare connect_levels.simps [simp del]

definition place :: "bytes walk \<Rightarrow> (hnsw_config \<Rightarrow> nat \<Rightarrow> int) \<Rightarrow> bytes \<Rightarrow> vec \<Rightarrow> hnsw \<Rightarrow> (ann_error, hnsw) outcome" where
  \<comment> \<open>\<open>Insert\<close> once the ID is free\<close>
  "place it draw i v h =
     (let level = draw (h_cfg h) (h_drawn h);
          n = \<lparr>hn_id = i, hn_v = v, hn_level = level, hn_neighbors = fmempty\<rparr>;
          h1 = h\<lparr>h_drawn := h_drawn h + 1, h_nodes := fmupd i n (h_nodes h)\<rparr>
      in if fmdom (h_nodes h) = {||} then Done (h1\<lparr>h_entry := i, h_max_level := level\<rparr>)
         else case connect_levels it (h_cfg h) i v (min level (h_max_level h)) (h_nodes h1) of
                None \<Rightarrow> Panic
              | Some ns \<Rightarrow>
                  let h2 = h1\<lparr>h_nodes := ns\<rparr>
                  in Done (if h_max_level h < level then h2\<lparr>h_entry := i, h_max_level := level\<rparr> else h2))"

definition h_insert ::
  "bytes walk \<Rightarrow> int walk \<Rightarrow> (hnsw_config \<Rightarrow> nat \<Rightarrow> int) \<Rightarrow> bytes \<Rightarrow> vec \<Rightarrow> hnsw \<Rightarrow> (ann_error, hnsw) outcome" where
  "h_insert it lv draw i v h =
     (if i = [] then Failed EmptyId h
      else case h_validate h v of
        Some e \<Rightarrow> Failed (BadVector e) h
      | None \<Rightarrow>
          if fmlookup (h_nodes h) i \<noteq> None then and_then (h_delete it lv i h) (place it draw i v) (\<lambda>s. s)
          else place it draw i v h)"

subsection \<open>Search\<close>

fun visit :: "nodes \<Rightarrow> vec \<Rightarrow> nat \<Rightarrow> bytes list \<Rightarrow> result list \<Rightarrow> result list \<Rightarrow> bytes set \<Rightarrow>
    (result list \<times> result list \<times> bytes set) option" where
  \<comment> \<open>the loop over the neighbours of a candidate: frontier, best and visited\<close>
  "visit ns q ef [] frontier best visited = Some (frontier, best, visited)"
| "visit ns q ef (b # bs) frontier best visited =
     (if b \<in> visited then visit ns q ef bs frontier best visited
      else case fmlookup ns b of
        None \<Rightarrow> visit ns q ef bs frontier best (insert b visited)
      | Some n \<Rightarrow>
          let r = \<lparr>r_id = b, r_distance = l2_squared q (hn_v n)\<rparr>
          in if ef \<le> length best \<and> best = [] then None
             else if length best < ef \<or> f32_less (r_distance r) (r_distance (last best))
             then visit ns q ef bs (frontier @ [r]) (take ef (sort_results (best @ [r]))) (insert b visited)
             else visit ns q ef bs frontier best (insert b visited))"

lemma visit_mono: "visit ns q ef bs frontier best visited = Some (f, b, v) \<Longrightarrow> visited \<subseteq> v"
proof (induction bs arbitrary: frontier best visited)
  case (Cons b' bs)
  from Cons.prems Cons.IH[of _ _ visited] Cons.IH[of _ _ "insert b' visited"] show ?case
    by (simp add: Let_def split: if_splits option.splits)
qed simp

lemma visit_progress:
  "visit ns q ef bs frontier best visited = Some (f, b, v) \<Longrightarrow>
   f = frontier \<or> \<not> fset (fmdom ns) \<inter> v \<subseteq> visited"
proof (induction bs arbitrary: frontier best visited)
  case (Cons b' bs)
  show ?case
  proof (cases "b' \<in> visited")
    case True
    then show ?thesis using Cons by simp
  next
    case fresh: False
    show ?thesis
    proof (cases "fmlookup ns b'")
      case None
      then have "b' \<notin> fset (fmdom ns)" by (simp add: fmdom_notI)
      then show ?thesis using Cons.IH[of frontier best "insert b' visited"] Cons.prems fresh None by auto
    next
      case (Some n)
      then have "b' \<in> fset (fmdom ns)" by (rule fmdomI)
      moreover have "b' \<in> v"
        using Cons.prems fresh Some visit_mono[of ns q ef bs _ _ "insert b' visited" f b v]
        by (simp add: Let_def split: if_splits)
      ultimately show ?thesis using fresh by blast
    qed
  qed
qed simp

function search_loop :: "nodes \<Rightarrow> vec \<Rightarrow> int \<Rightarrow> nat \<Rightarrow> result list \<Rightarrow> result list \<Rightarrow> bytes set \<Rightarrow> result list option" where
  "search_loop ns q l ef frontier best visited =
     (case sort_results frontier of
        [] \<Rightarrow> Some (sort_results best)
      | c # rest \<Rightarrow>
          let best1 = sort_results best
          in if ef \<le> length best1 \<and> best1 = [] then None
             else if ef \<le> length best1 \<and> f32_less (r_distance (last best1)) (r_distance c) then Some (sort_results best1)
             else case fmlookup ns (r_id c) of
               None \<Rightarrow> None
             | Some n \<Rightarrow>
                 (case visit ns q ef (links n l) rest best1 visited of
                    None \<Rightarrow> None
                  | Some (f, b, v) \<Rightarrow> search_loop ns q l ef f b v))"
  by pat_completeness auto
termination
proof (relation "measures [\<lambda>(ns, q, l, ef, f, b, v). card (fset (fmdom ns) - v), \<lambda>(ns, q, l, ef, f, b, v). length f]", simp, goal_cases)
  case (1 ns q l ef frontier best visited c rest best1 n x f y b v)
  then have "visited \<subseteq> v" and prog: "f = rest \<or> \<not> fset (fmdom ns) \<inter> v \<subseteq> visited"
    using visit_mono[of ns q ef "links n l" rest best1 visited f b v]
      visit_progress[of ns q ef "links n l" rest best1 visited f b v] by simp_all
  have len: "length frontier = Suc (length rest)"
    using 1(1) by (metis length_Cons length_sort sort_results_def)
  show ?case
  proof (cases "fset (fmdom ns) \<inter> v \<subseteq> visited")
    case True
    then have "fset (fmdom ns) - v = fset (fmdom ns) - visited" using \<open>visited \<subseteq> v\<close> by blast
    then show ?thesis using prog True len by simp
  next
    case False
    then have "fset (fmdom ns) - v \<subset> fset (fmdom ns) - visited" using \<open>visited \<subseteq> v\<close> by blast
    then show ?thesis by (simp add: psubset_card_mono)
  qed
qed

declare search_loop.simps [simp del]

definition search_layer :: "nodes \<Rightarrow> vec \<Rightarrow> bytes \<Rightarrow> int \<Rightarrow> nat \<Rightarrow> result list option" where
  "search_layer ns q entry l ef =
     (case fmlookup ns entry of
        None \<Rightarrow> Some []
      | Some n \<Rightarrow> let r = \<lparr>r_id = entry, r_distance = l2_squared q (hn_v n)\<rparr> in search_loop ns q l ef [r] [r] {entry})"

function descend :: "nodes \<Rightarrow> vec \<Rightarrow> bytes \<Rightarrow> int \<Rightarrow> bytes option" where
  \<comment> \<open>from level \<open>l\<close> down to level one\<close>
  "descend ns q entry l =
     (if l \<le> 0 then Some entry
      else case search_layer ns q entry l 1 of
        None \<Rightarrow> None
      | Some [] \<Rightarrow> descend ns q entry (l - 1)
      | Some (r # rs) \<Rightarrow> descend ns q (r_id r) (l - 1))"
  by pat_completeness auto
termination
  by (relation "measure (\<lambda>(ns, q, entry, l). nat l)") auto

declare descend.simps [simp del]

definition h_search :: "vec \<Rightarrow> int \<Rightarrow> int \<Rightarrow> hnsw \<Rightarrow> (ann_error, result list) outcome" where
  \<comment> \<open>a failing call returns no results\<close>
  "h_search q k ef h =
     (case h_validate h q of
        Some e \<Rightarrow> Failed (BadVector e) []
      | None \<Rightarrow>
          if k \<le> 0 then Failed BadK []
          else let ef' = (if ef \<le> 0 then cf_ef_search (h_cfg h) else ef)
               in if fmdom (h_nodes h) = {||} then Done []
                  else case descend (h_nodes h) q (h_entry h) (h_max_level h) of
                    None \<Rightarrow> Panic
                  | Some entry \<Rightarrow>
                      (case search_layer (h_nodes h) q entry 0 (nat ef') of
                         None \<Rightarrow> Panic
                       | Some rs \<Rightarrow> Done (take (nat k) rs)))"

end
