(* ===== verification/Hnsw_Search.thy ===== *)
theory Hnsw_Search
  imports Hnsw
begin

section \<open>What a search of the graph returns\<close>

text \<open>
  \<open>search_layer\<close> is proved against a specification of its result: the IDs are nodes reachable from
  the entry, with their distances, closest first; and the list is closed under links, up to nodes that
  are no closer than the worst of a full list. From this follows when a search is exact.
\<close>

definition result_of :: "nodes \<Rightarrow> vec \<Rightarrow> bytes \<Rightarrow> result" where
  "result_of ns q i = \<lparr>r_id = i, r_distance = l2_squared q (hn_v (the (fmlookup ns i)))\<rparr>"

definition edges :: "nodes \<Rightarrow> int \<Rightarrow> (bytes \<times> bytes) set" where
  "edges ns l = {(i, j). \<exists>n. fmlookup ns i = Some n \<and> j \<in> set (links n l) \<and> fmlookup ns j \<noteq> None}"

definition comparable :: "nodes \<Rightarrow> vec \<Rightarrow> bool" where
  \<comment> \<open>all distances to \<open>q\<close> are numbers\<close>
  "comparable ns q \<longleftrightarrow> (\<forall>i n. fmlookup ns i = Some n \<longrightarrow> l2_squared q (hn_v n) \<noteq> Nan)"

definition layer_spec :: "nodes \<Rightarrow> vec \<Rightarrow> bytes \<Rightarrow> int \<Rightarrow> nat \<Rightarrow> result list \<Rightarrow> bool" where
  "layer_spec ns q e l ef rs \<longleftrightarrow>
     rs \<noteq> [] \<and> length rs \<le> ef \<and> ranked rs \<and> distinct (map r_id rs) \<and>
     (\<forall>r \<in> set rs. r = result_of ns q (r_id r) \<and> fmlookup ns (r_id r) \<noteq> None \<and> (e, r_id r) \<in> (edges ns l)\<^sup>*) \<and>
     (\<forall>i \<in> insert e (edges ns l `` (r_id ` set rs)).
        result_of ns q i \<in> set rs \<or> length rs = ef \<and> r_distance (last rs) \<le> r_distance (result_of ns q i))"

subsection \<open>The invariant of the loop\<close>

definition search_inv ::
  "nodes \<Rightarrow> vec \<Rightarrow> bytes \<Rightarrow> int \<Rightarrow> nat \<Rightarrow> bytes set \<Rightarrow> result list \<Rightarrow> result list \<Rightarrow> bytes set \<Rightarrow> bool" where
  \<comment> \<open>\<open>todo\<close> are the neighbours of the current candidate that are still to be looked at\<close>
  "search_inv ns q e l ef todo frontier best visited \<longleftrightarrow>
     best \<noteq> [] \<and> length best \<le> ef \<and> distinct (map r_id best) \<and> e \<in> visited \<and>
     (\<forall>r \<in> set frontier \<union> set best. r_id r \<in> visited \<and> r = result_of ns q (r_id r) \<and>
        fmlookup ns (r_id r) \<noteq> None \<and> (e, r_id r) \<in> (edges ns l)\<^sup>*) \<and>
     (\<forall>r \<in> set best. r \<in> set frontier \<or> edges ns l `` {r_id r} \<subseteq> visited \<union> todo) \<and>
     (\<forall>i \<in> visited. fmlookup ns i \<noteq> None \<longrightarrow>
        result_of ns q i \<in> set best \<or>
        length best = ef \<and> (\<forall>r \<in> set best. r_distance r \<le> r_distance (result_of ns q i)))"

lemma distinct_sort_ids: "distinct (map r_id (sort_results rs)) \<longleftrightarrow> distinct (map r_id rs)"
proof -
  have "mset (map r_id (sort_results rs)) = mset (map r_id rs)"
    by (simp add: sort_results_def)
  then show ?thesis by (rule mset_eq_imp_distinct_iff)
qed

lemma search_inv_best:
  assumes "search_inv ns q e l ef todo frontier best visited"
  shows "search_inv ns q e l ef todo frontier (sort_results best) visited"
  using assms distinct_sort_ids[of best] unfolding search_inv_def sort_results_simps by blast

lemma result_of_id [simp]: "r_id (result_of ns q i) = i"
  by (simp add: result_of_def)

text \<open>Adding a result to the best list and cutting it back.\<close>

lemma kept_is_better:
  assumes "ranked rs" "r \<in> set (take n rs)" "s \<in> set rs" "s \<notin> set (take n rs)"
  shows "r_distance r \<le> r_distance s"
proof -
  have rs: "rs = take n rs @ drop n rs" by simp
  then have "s \<in> set (drop n rs)" using assms(3,4) by (metis Un_iff set_append)
  moreover have "sorted (map result_key (take n rs @ drop n rs))" using assms(1) by (simp add: ranked_def)
  ultimately have "result_key r \<le> result_key s"
    unfolding map_append sorted_append using assms(2) by (auto simp only: set_map)
  then show ?thesis by (auto simp: result_key_def less_eq_prod_def)
qed

lemma search_inv_add:
  assumes inv: "search_inv ns q e l ef (insert b' todo) frontier best visited" and "ranked best" "0 < ef"
    and new: "b' \<notin> visited" "fmlookup ns b' \<noteq> None" "(e, b') \<in> (edges ns l)\<^sup>*"
    and near: "length best < ef \<or> r_distance (result_of ns q b') < r_distance (last best)"
  shows "search_inv ns q e l ef todo (frontier @ [result_of ns q b'])
           (take ef (sort_results (best @ [result_of ns q b']))) (insert b' visited)"
proof -
  define r where "r = result_of ns q b'"
  define all where "all = sort_results (best @ [r])"
  have set_all: "set all = insert r (set best)" and len_all: "length all = Suc (length best)"
    by (simp_all add: all_def)
  have sub: "set (take ef all) \<subseteq> insert r (set best)" using set_take_subset[of ef all] by (simp add: set_all)
  have "r_id r \<notin> r_id ` set best" using inv new(1) unfolding search_inv_def r_def by auto
  then have "distinct (map r_id (best @ [r]))" using inv by (simp add: search_inv_def)
  then have "distinct (map r_id all)" by (simp only: all_def distinct_sort_ids)
  then have "distinct (map r_id (take ef all))" by (simp flip: take_map)
  moreover have "take ef all \<noteq> []" "length (take ef all) \<le> ef" using \<open>0 < ef\<close> len_all by auto
  moreover have "result_of ns q i \<in> set (take ef all) \<or>
      length (take ef all) = ef \<and> (\<forall>s \<in> set (take ef all). r_distance s \<le> r_distance (result_of ns q i))"
    if "i \<in> insert b' visited" "fmlookup ns i \<noteq> None" for i
  proof (cases "result_of ns q i \<in> set all")
    case True
    show ?thesis
    proof (cases "length all \<le> ef")
      case False
      then show ?thesis using True kept_is_better[of all _ ef "result_of ns q i"] by (auto simp: all_def)
    qed (use True in simp)
  next
    case False
    then have "i \<in> visited" "result_of ns q i \<notin> set best" using that(1) by (auto simp: set_all r_def)
    then have full: "length best = ef" "\<forall>s \<in> set best. r_distance s \<le> r_distance (result_of ns q i)"
      using inv that(2) unfolding search_inv_def by auto
    then have "r_distance r < r_distance (last best)" "best \<noteq> []"
      using near inv unfolding r_def search_inv_def by auto
    then have "r_distance r \<le> r_distance (result_of ns q i)" using full(2) last_in_set by force
    then show ?thesis using full sub len_all by auto
  qed
  ultimately show ?thesis
    using inv new sub unfolding search_inv_def r_def[symmetric] all_def[symmetric]
    by (auto simp: r_def)
qed

lemma search_inv_visit:
  assumes "comparable ns q" "search_inv ns q e l ef (set bs) frontier best visited" "ranked best"
    "\<forall>i \<in> set bs. fmlookup ns i \<noteq> None \<longrightarrow> (e, i) \<in> (edges ns l)\<^sup>*" "0 < ef"
  shows "\<exists>f b v. visit ns q ef bs frontier best visited = Some (f, b, v) \<and> ranked b \<and>
           search_inv ns q e l ef {} f b v"
  using assms(2-4)
proof (induction bs arbitrary: frontier best visited)
  case Nil
  then show ?case by simp
next
  case (Cons b' bs)
  have reach: "\<forall>i \<in> set bs. fmlookup ns i \<noteq> None \<longrightarrow> (e, i) \<in> (edges ns l)\<^sup>*"
    using Cons.prems(3) by simp
  have seen: "search_inv ns q e l ef (set bs) frontier best (insert b' visited)"
    if "b' \<in> visited \<or> fmlookup ns b' = None \<or>
      length best = ef \<and> (\<forall>r \<in> set best. r_distance r \<le> r_distance (result_of ns q b'))"
    using Cons.prems(1) that unfolding search_inv_def by (auto simp: insert_absorb)
  show ?case
  proof (cases "b' \<in> visited \<or> fmlookup ns b' = None")
    case True
    with Cons.IH[OF seen Cons.prems(2) reach] show ?thesis
      by (auto simp: insert_absorb split: option.splits)
  next
    case False
    then obtain n where n: "fmlookup ns b' = Some n" and fresh: "b' \<notin> visited" by auto
    define r where "r = result_of ns q b'"
    have r: "\<lparr>r_id = b', r_distance = l2_squared q (hn_v n)\<rparr> = r" by (simp add: r_def result_of_def n)
    have "best \<noteq> []" using Cons.prems(1) by (simp add: search_inv_def)
    have num: "r_distance r \<noteq> Nan" "r_distance (last best) \<noteq> Nan"
    proof -
      have d: "fmlookup ns i \<noteq> None \<Longrightarrow> r_distance (result_of ns q i) \<noteq> Nan" for i
        using assms(1) by (auto simp: comparable_def result_of_def)
      show "r_distance r \<noteq> Nan" using d n by (simp add: r_def)
      have "last best \<in> set best" using \<open>best \<noteq> []\<close> by simp
      then show "r_distance (last best) \<noteq> Nan" using d Cons.prems(1) unfolding search_inv_def by (metis UnCI)
    qed
    show ?thesis
    proof (cases "length best < ef \<or> r_distance r < r_distance (last best)")
      case True
      define best' where "best' = take ef (sort_results (best @ [r]))"
      have inv: "search_inv ns q e l ef (set bs) (frontier @ [r]) best' (insert b' visited)"
        using search_inv_add[of ns q e l ef b' "set bs" frontier best visited] Cons.prems \<open>0 < ef\<close> n fresh True
        by (simp add: best'_def r_def)
      then show ?thesis
        using Cons.IH[OF inv _ reach] True n fresh \<open>best \<noteq> []\<close> num
        by (simp add: Let_def r f32_less_def ranked_take best'_def)
    next
      case far: False
      then have "length best = ef \<and> (\<forall>s \<in> set best. r_distance s \<le> r_distance r)"
        using Cons.prems(1,2) ranked_last[of best] unfolding search_inv_def by (metis le_antisym linorder_not_less order_trans)
      then show ?thesis
        using Cons.IH[OF seen Cons.prems(2) reach] far n fresh \<open>best \<noteq> []\<close> num
        by (simp add: Let_def r f32_less_def flip: r_def)
    qed
  qed
qed

subsection \<open>One level\<close>

lemma search_inv_finished:
  assumes inv: "search_inv ns q e l ef {} frontier best visited" and "ranked best"
    and apart: "set best \<inter> set frontier = {}"
  shows "layer_spec ns q e l ef best"
proof -
  have "insert e (edges ns l `` (r_id ` set best)) \<subseteq> visited"
    using inv apart unfolding search_inv_def by auto
  moreover have "fmlookup ns e \<noteq> None"
  proof -
    have "best \<noteq> []" using inv by (simp add: search_inv_def)
    then obtain r where "r \<in> set best" using last_in_set by blast
    then have "(e, r_id r) \<in> (edges ns l)\<^sup>*" "fmlookup ns (r_id r) \<noteq> None"
      using inv by (auto simp: search_inv_def)
    then show ?thesis by (cases rule: converse_rtranclE) (auto simp: edges_def)
  qed
  ultimately have "\<forall>i \<in> insert e (edges ns l `` (r_id ` set best)). i \<in> visited \<and> fmlookup ns i \<noteq> None"
    by (auto simp: edges_def)
  then show ?thesis
    using inv \<open>ranked best\<close> unfolding layer_spec_def search_inv_def
    by (metis UnCI last_in_set)
qed

lemma search_inv_pop:
  assumes inv: "search_inv ns q e l ef {} frontier best visited" and "set frontier = insert c (set rest)"
    and n: "fmlookup ns (r_id c) = Some n"
  shows "search_inv ns q e l ef (set (links n l)) rest best visited"
    and "\<forall>i \<in> set (links n l). fmlookup ns i \<noteq> None \<longrightarrow> (e, i) \<in> (edges ns l)\<^sup>*"
proof -
  have "edges ns l `` {r_id c} \<subseteq> set (links n l)" using n by (auto simp: edges_def)
  then have "\<forall>r \<in> set best. r \<in> set rest \<or> edges ns l `` {r_id r} \<subseteq> visited \<union> set (links n l)"
    using inv assms(2) unfolding search_inv_def by fast
  then show "search_inv ns q e l ef (set (links n l)) rest best visited"
    using inv unfolding search_inv_def assms(2) by simp
  have "(e, r_id c) \<in> (edges ns l)\<^sup>*" using inv assms(2) unfolding search_inv_def by auto
  then show "\<forall>i \<in> set (links n l). fmlookup ns i \<noteq> None \<longrightarrow> (e, i) \<in> (edges ns l)\<^sup>*"
    using n by (auto simp: edges_def intro: rtrancl_into_rtrancl)
qed

lemma search_loop_spec:
  "search_inv ns q e l ef {} frontier best visited \<Longrightarrow> comparable ns q \<Longrightarrow> 0 < ef \<Longrightarrow>
    \<exists>rs. search_loop ns q l ef frontier best visited = Some rs \<and> layer_spec ns q e l ef rs"
proof (induction ns q l ef frontier best visited rule: search_loop.induct[case_names loop])
  case (loop ns q l ef frontier best visited)
  let ?best = "sort_results best"
  note inv = search_inv_best[OF loop.prems(1)]
  show ?case
  proof (cases "sort_results frontier")
    case Nil
    then show ?thesis
      using search_inv_finished[OF inv] by (subst search_loop.simps) simp
  next
    case (Cons c rest)
    have front: "set frontier = insert c (set rest)"
      using Cons by (metis list.simps(15) sort_results_simps(1))
    have "?best \<noteq> []" using loop.prems by (simp add: search_inv_def)
    show ?thesis
    proof (cases "ef \<le> length ?best \<and> f32_less (r_distance (last ?best)) (r_distance c)")
      case True
      have "set ?best \<inter> set frontier = {}"
      proof -
        have "r_distance s < r_distance c" if "s \<in> set ?best" for s
          using ranked_last[OF ranked_sort that] True by (auto simp: f32_less_def)
        moreover have "r_distance c \<le> r_distance s" if "s \<in> set frontier" for s
          using that front ranked_Cons[of c rest s] ranked_sort[of frontier] Cons by auto
        ultimately show ?thesis by force
      qed
      then show ?thesis
        using search_inv_finished[OF inv] True Cons \<open>?best \<noteq> []\<close>
        by (subst search_loop.simps) (simp add: Let_def sort_ranked)
    next
      case False
      obtain n where n: "fmlookup ns (r_id c) = Some n"
        using loop.prems front unfolding search_inv_def by auto
      note pop = search_inv_pop[OF inv front n]
      obtain f b v where vis: "visit ns q ef (links n l) rest ?best visited = Some (f, b, v)"
        and inv': "search_inv ns q e l ef {} f b v"
        using search_inv_visit[OF loop.prems(2) pop(1) ranked_sort pop(2) loop.prems(3)] by blast
      then obtain rs where "search_loop ns q l ef f b v = Some rs" "layer_spec ns q e l ef rs"
        using loop.IH[OF Cons refl _ False n vis] \<open>?best \<noteq> []\<close> loop.prems(2,3) by auto
      then show ?thesis
        using \<open>?best \<noteq> []\<close> False n Cons vis by (subst search_loop.simps) (auto simp: Let_def)
    qed
  qed
qed

lemma search_layer_spec:
  assumes "comparable ns q" "0 < ef" "fmlookup ns e \<noteq> None"
  shows "\<exists>rs. search_layer ns q e l ef = Some rs \<and> layer_spec ns q e l ef rs"
proof -
  have "search_inv ns q e l ef {} [result_of ns q e] [result_of ns q e] {e}"
    using assms(2,3) by (auto simp: search_inv_def)
  then show ?thesis
    using search_loop_spec[OF _ assms(1,2)] assms(3) by (auto simp: search_layer_def result_of_def Let_def)
qed

text \<open>When the list is not full it holds every reachable node.\<close>

lemma layer_spec_complete:
  assumes spec: "layer_spec ns q e l ef rs" and short: "length rs < ef"
  shows "set rs = result_of ns q ` ((edges ns l)\<^sup>* `` {e})"
proof
  show "set rs \<subseteq> result_of ns q ` ((edges ns l)\<^sup>* `` {e})"
    using spec by (fastforce simp: layer_spec_def)
  have "result_of ns q j \<in> set rs" if "(e, j) \<in> (edges ns l)\<^sup>*" for j
    using that
  proof (induction rule: rtrancl_induct)
    case base
    then show ?case using spec short by (simp add: layer_spec_def)
  next
    case (step i j)
    then have "j \<in> edges ns l `` (r_id ` set rs)" by (force intro: image_eqI[where x="result_of ns q i"])
    then show ?case using spec short by (auto simp: layer_spec_def)
  qed
  then show "result_of ns q ` ((edges ns l)\<^sup>* `` {e}) \<subseteq> set rs" by auto
qed

lemma layer_spec_all:
  assumes spec: "layer_spec ns q e l ef rs" and big: "fcard (fmdom ns) \<le> ef"
  shows "set rs = result_of ns q ` ((edges ns l)\<^sup>* `` {e})"
proof (cases "length rs < ef")
  case False
  let ?ids = "r_id ` set rs" and ?reach = "(edges ns l)\<^sup>* `` {e}"
  have sub: "?ids \<subseteq> fset (fmdom ns)" using spec by (auto simp: layer_spec_def fmlookup_dom_iff)
  have "card ?ids = length rs" using spec distinct_card[of "map r_id rs"] by (simp add: layer_spec_def)
  then have ids: "?ids = fset (fmdom ns)"
    using False spec big sub card_subset_eq[OF _ sub] card_mono[OF _ sub] by (simp add: layer_spec_def fcard.rep_eq)
  have "e \<in> fset (fmdom ns)"
  proof -
    have "rs \<noteq> []" using spec by (simp add: layer_spec_def)
    then obtain r where "r \<in> set rs" using last_in_set by blast
    then have "(e, r_id r) \<in> (edges ns l)\<^sup>*" "r_id r \<in> fset (fmdom ns)" using spec sub by (auto simp: layer_spec_def)
    then show ?thesis by (cases rule: converse_rtranclE) (auto simp: edges_def intro: fmdomI)
  qed
  then have "?reach \<subseteq> ?ids"
    unfolding ids by (auto elim: rtranclE simp: edges_def fmlookup_dom_iff)
  moreover have "?ids \<subseteq> ?reach" using spec by (auto simp: layer_spec_def)
  ultimately have "?ids = ?reach" by blast
  moreover have "set rs = result_of ns q ` ?ids"
    using spec by (force simp: layer_spec_def image_iff)
  ultimately show ?thesis by simp
qed (rule layer_spec_complete[OF spec])

subsection \<open>The walk down and the whole search\<close>

lemma descend_Some:
  "comparable ns q \<Longrightarrow> fmlookup ns e \<noteq> None \<Longrightarrow> \<exists>e'. descend ns q e l = Some e' \<and> fmlookup ns e' \<noteq> None"
proof (induction ns q e l rule: descend.induct)
  case (1 ns q e l)
  show ?case
  proof (cases "l \<le> 0")
    case True
    then show ?thesis using 1 by (subst descend.simps) simp
  next
    case False
    obtain rs where rs: "search_layer ns q e l 1 = Some rs" "layer_spec ns q e l 1 rs"
      using search_layer_spec[OF 1(3) zero_less_one 1(4)] by blast
    then obtain r rs' where "rs = r # rs'" "fmlookup ns (r_id r) \<noteq> None"
      by (cases rs) (auto simp: layer_spec_def)
    then show ?thesis using 1(2)[OF False rs(1)] 1(3) rs(1) False by (subst descend.simps) simp
  qed
qed

lemma h_search_spec:
  fixes ef :: int
  assumes "h_validate h q = None" "comparable (h_nodes h) q" "fmlookup (h_nodes h) (h_entry h) \<noteq> None"
    "0 < k" "0 < cf_ef_search (h_cfg h)"
  defines "w \<equiv> nat (if ef \<le> 0 then cf_ef_search (h_cfg h) else ef)"
  obtains e rs where "h_search q k ef h = Done (take (nat k) rs)" "fmlookup (h_nodes h) e \<noteq> None"
    "layer_spec (h_nodes h) q e 0 w rs"
proof -
  obtain e where e: "descend (h_nodes h) q (h_entry h) (h_max_level h) = Some e" "fmlookup (h_nodes h) e \<noteq> None"
    using descend_Some[OF assms(2,3)] by blast
  have "0 < w" using assms(5) by (simp add: w_def)
  then obtain rs where "search_layer (h_nodes h) q e 0 w = Some rs" "layer_spec (h_nodes h) q e 0 w rs"
    using search_layer_spec[OF assms(2) _ e(2)] by blast
  moreover have "fmdom (h_nodes h) \<noteq> {||}" using e(2) fmdomI by force
  ultimately show ?thesis
    using that e assms(1,4) by (simp add: h_search_def Let_def w_def)
qed

text \<open>The brute-force search a connected graph is compared with.\<close>

definition all_results :: "nodes \<Rightarrow> vec \<Rightarrow> result list" where
  "all_results ns q = sort_results (map (result_of ns q) (sorted_list_of_fset (fmdom ns)))"

lemma ranked_unique:
  assumes "ranked rs" "ranked rs'" "set rs = set rs'" "distinct rs" "distinct rs'"
  shows "rs = rs'"
proof -
  have "mset rs = mset rs'" using assms(3-5) by (simp add: set_eq_iff_mset_eq_distinct)
  then show ?thesis using sort_results_perm sort_ranked assms(1,2) by metis
qed

lemma layer_spec_exact:
  assumes spec: "layer_spec ns q e l ef rs" and big: "fcard (fmdom ns) \<le> ef"
    and conn: "(edges ns l)\<^sup>* `` {e} = fset (fmdom ns)"
  shows "rs = all_results ns q"
proof (rule ranked_unique)
  have d: "distinct (sorted_list_of_fset (fmdom ns))" by (simp add: sorted_list_of_fset.rep_eq)
  show "distinct (all_results ns q)"
    unfolding all_results_def sort_results_def distinct_sort distinct_map
    using d by (auto intro: inj_onI simp: result_of_def)
  show "distinct rs" using spec by (auto simp: layer_spec_def distinct_map)
  show "set rs = set (all_results ns q)"
    using layer_spec_all[OF spec big] conn by (simp add: all_results_def)
qed (use spec in \<open>auto simp: layer_spec_def all_results_def\<close>)

end
