(* ===== verification/Hnsw_Graph.thy ===== *)
theory Hnsw_Graph
  imports Hnsw_Search
begin

section \<open>How the operations change the graph\<close>

text \<open>
  Linking, trimming and repairing only change neighbour lists: the \<open>shape\<close> of the graph, that is the ID,
  vector and level of every node, stays. \<open>well_linked X\<close> says that every link leads to a node that
  exists on the link's level, except links to an ID in \<open>X\<close>; this is what keeps the look-ups of the
  code from hitting nil. The lemmas give the effect of each operation on \<open>links_at\<close>.
\<close>

definition shape :: "nodes \<Rightarrow> (bytes, bytes \<times> vec \<times> int) fmap" where
  "shape ns = fmmap (\<lambda>n. (hn_id n, hn_v n, hn_level n)) ns"

definition links_at :: "nodes \<Rightarrow> bytes \<Rightarrow> int \<Rightarrow> bytes list" where
  "links_at ns i l = (case fmlookup ns i of None \<Rightarrow> [] | Some n \<Rightarrow> links n l)"

definition on_level :: "nodes \<Rightarrow> bytes \<Rightarrow> int \<Rightarrow> bool" where
  \<comment> \<open>node \<open>i\<close> exists and appears on level \<open>l\<close>\<close>
  "on_level ns i l \<longleftrightarrow> (\<exists>n. fmlookup ns i = Some n \<and> l \<le> hn_level n)"

definition named :: "nodes \<Rightarrow> bool" where
  "named ns \<longleftrightarrow> (\<forall>i n. fmlookup ns i = Some n \<longrightarrow> hn_id n = i)"

definition well_linked :: "bytes set \<Rightarrow> nodes \<Rightarrow> bool" where
  "well_linked X ns \<longleftrightarrow> named ns \<and>
     (\<forall>i l. \<forall>b \<in> set (links_at ns i l). 0 \<le> l \<and> on_level ns i l \<and> b \<noteq> i \<and> (b \<in> X \<or> on_level ns b l))"

definition bounded :: "int \<Rightarrow> nodes \<Rightarrow> bool" where
  "bounded m ns \<longleftrightarrow> (\<forall>i l. int (length (links_at ns i l)) \<le> m)"

lemma links_set_links [simp]: "links (set_links l ids n) l' = (if l' = l then ids else links n l')"
  by (simp add: links_def set_links_def)

lemma set_links_fields [simp]:
  "hn_id (set_links l ids n) = hn_id n" "hn_v (set_links l ids n) = hn_v n" "hn_level (set_links l ids n) = hn_level n"
  by (simp_all add: set_links_def)

lemma links_at_upd [simp]:
  "links_at (fmupd i n ns) j l = (if j = i then links n l else links_at ns j l)"
  by (simp add: links_at_def)

lemma shape_lookup: "fmlookup (shape ns) i = map_option (\<lambda>n. (hn_id n, hn_v n, hn_level n)) (fmlookup ns i)"
  by (simp add: shape_def)

text \<open>Everything but the links depends on the shape alone.\<close>

lemma shape_dom: "shape ns' = shape ns \<Longrightarrow> fmdom ns' = fmdom ns"
  by (metis fmdom_map shape_def)

lemma shape_Some:
  assumes "shape ns' = shape ns" "fmlookup ns i = Some n"
  obtains n' where "fmlookup ns' i = Some n'" "hn_id n' = hn_id n" "hn_v n' = hn_v n" "hn_level n' = hn_level n"
  using assms shape_lookup[of ns i] shape_lookup[of ns' i] by (cases "fmlookup ns' i") auto

lemma shape_on_level: "shape ns' = shape ns \<Longrightarrow> on_level ns' i l = on_level ns i l"
  by (metis on_level_def shape_Some)

lemma shape_named: "shape ns' = shape ns \<Longrightarrow> named ns' = named ns"
  by (metis named_def shape_Some)

lemma shape_result_of: "shape ns' = shape ns \<Longrightarrow> result_of ns' q = result_of ns q"
proof
  fix i
  assume sh: "shape ns' = shape ns"
  show "result_of ns' q i = result_of ns q i"
  proof (cases "fmlookup ns i")
    case None
    then have "fmlookup ns' i = None" using sh by (metis fmlookup_dom_iff option.distinct(1) option.exhaust shape_dom)
    then show ?thesis using None by (simp add: result_of_def)
  next
    case (Some n)
    then show ?thesis using shape_Some[OF sh Some] by (metis option.sel result_of_def)
  qed
qed

lemma shape_upd: "fmlookup ns i = Some n \<Longrightarrow> shape (fmupd i (set_links l ids n) ns) = shape ns"
  by (rule fmap_ext) (auto simp: shape_lookup)

lemma well_linkedD:
  assumes "well_linked X ns" "b \<in> set (links_at ns i l)"
  shows "0 \<le> l" "on_level ns i l" "b \<noteq> i" "b \<in> X \<or> on_level ns b l"
  using assms by (auto simp: well_linked_def)

lemma on_level_Some: "on_level ns i l \<Longrightarrow> fmlookup ns i \<noteq> None"
  by (auto simp: on_level_def)

text \<open>Replacing one list.\<close>

lemma well_linked_upd:
  assumes "well_linked X ns" "fmlookup ns i = Some n"
    and "\<forall>b \<in> set ids. b \<in> set (links n l) \<or> 0 \<le> l \<and> l \<le> hn_level n \<and> b \<noteq> i \<and> on_level ns b l"
  shows "well_linked X (fmupd i (set_links l ids n) ns)"
proof -
  let ?ns = "fmupd i (set_links l ids n) ns"
  have sh: "shape ?ns = shape ns" using assms(2) by (rule shape_upd)
  have at: "links_at ns i l = links n l" using assms(2) by (simp add: links_at_def)
  have "0 \<le> l' \<and> on_level ns j l' \<and> b \<noteq> j \<and> (b \<in> X \<or> on_level ns b l')"
    if "b \<in> set (links_at ?ns j l')" for b j l'
  proof (cases "j = i \<and> l' = l")
    case True
    then have "b \<in> set ids" using that by simp
    then have "b \<in> set (links_at ns i l) \<or> 0 \<le> l \<and> l \<le> hn_level n \<and> b \<noteq> i \<and> on_level ns b l"
      using assms(3) by (auto simp: at)
    then show ?thesis
    proof
      assume "b \<in> set (links_at ns i l)"
      from well_linkedD[OF assms(1) this] show ?thesis using True by simp
    next
      assume "0 \<le> l \<and> l \<le> hn_level n \<and> b \<noteq> i \<and> on_level ns b l"
      then show ?thesis using True assms(2) by (simp add: on_level_def)
    qed
  next
    case False
    then have "b \<in> set (links_at ns j l')" using that assms(2) by (auto simp: links_at_def split: if_splits)
    then show ?thesis using well_linkedD[OF assms(1)] by blast
  qed
  then show ?thesis
    using assms(1) unfolding well_linked_def shape_on_level[OF sh] shape_named[OF sh] by blast
qed

subsection \<open>Linking two nodes\<close>

lemma measure_from_Some:
  "(\<forall>i \<in> set ids. fmlookup ns i \<noteq> None) \<Longrightarrow> measure_from ns q ids = Some (map (result_of ns q) ids)"
  by (induction ids) (auto simp: result_of_def)

lemma trim_Some:
  assumes "fmlookup ns i = Some n" "\<forall>b \<in> set (links n l). fmlookup ns b \<noteq> None"
  shows "trim m i l ns = Some (fmupd i (set_links l
    (map r_id (take (nat m) (sort_results (map (result_of ns (hn_v n)) (links n l))))) n) ns)"
  using assms by (simp add: trim_def measure_from_Some)

lemma trimmed_subset: "set (map r_id (take k (sort_results (map (result_of ns q) ids)))) \<subseteq> set ids"
  by (auto dest!: in_set_takeD)

lemma link_effect:
  assumes wl: "well_linked {} ns" and "0 < m" "a \<noteq> b" "0 \<le> l" "on_level ns a l" "on_level ns b l"
  obtains ns' where "link_nodes m a b l ns = Some ns'" "shape ns' = shape ns" "well_linked {} ns'"
    "links_at ns' a l = links_at ns a l @ [b]" "int (length (links_at ns' b l)) \<le> m"
    "\<And>i l'. (i, l') \<noteq> (a, l) \<Longrightarrow> (i, l') \<noteq> (b, l) \<Longrightarrow> links_at ns' i l' = links_at ns i l'"
proof -
  obtain na nb where na: "fmlookup ns a = Some na" "l \<le> hn_level na" and nb: "fmlookup ns b = Some nb" "l \<le> hn_level nb"
    using assms(5,6) by (auto simp: on_level_def)
  have ids: "hn_id na = a" "hn_id nb = b" using wl na nb by (auto simp: well_linked_def named_def)
  define ns1 where "ns1 = fmupd a (set_links l (links na l @ [b]) na) ns"
  define nb2 where "nb2 = set_links l (links nb l @ [a]) nb"
  define ns2 where "ns2 = fmupd b nb2 ns1"
  have p1: "push_link a l b ns = Some ns1" using na nb ids by (simp add: push_link_def ns1_def)
  have nb1: "fmlookup ns1 b = Some nb" using nb \<open>a \<noteq> b\<close> by (simp add: ns1_def)
  have p2: "push_link b l a ns1 = Some ns2"
    using ids nb1 by (simp add: push_link_def ns1_def ns2_def nb2_def)
  have sh1: "shape ns1 = shape ns" unfolding ns1_def using na(1) by (rule shape_upd)
  have sh2: "shape ns2 = shape ns" unfolding ns2_def nb2_def using shape_upd[OF nb1] sh1 by simp
  have wl1: "well_linked {} ns1"
    unfolding ns1_def by (rule well_linked_upd[OF wl na(1)]) (use assms na in auto)
  have wl2: "well_linked {} ns2"
    unfolding ns2_def nb2_def
    by (rule well_linked_upd[OF wl1 nb1]) (use assms nb shape_on_level[OF sh1] in auto)
  have nb2: "fmlookup ns2 b = Some nb2" by (simp add: ns2_def)
  have exist: "\<forall>c \<in> set (links nb2 l). fmlookup ns2 c \<noteq> None"
    by (rule ballI) (use well_linkedD(4)[OF wl2, of _ b l] nb2 in \<open>auto simp: links_at_def on_level_def\<close>)
  define ids' where "ids' = map r_id (take (nat m) (sort_results (map (result_of ns2 (hn_v nb2)) (links nb2 l))))"
  define ns' where "ns' = fmupd b (set_links l ids' nb2) ns2"
  have link: "link_nodes m a b l ns = Some ns'"
    using trim_Some[OF nb2 exist] by (simp add: link_nodes_def p1 p2 ns'_def ids'_def)
  have wl': "well_linked {} ns'"
    unfolding ns'_def using trimmed_subset[of "nat m" ns2 "hn_v nb2" "links nb2 l"]
    by (intro well_linked_upd[OF wl2 nb2]) (auto simp: ids'_def)
  have sh': "shape ns' = shape ns" unfolding ns'_def using shape_upd[OF nb2] sh2 by simp
  have la: "links na l' = links_at ns a l'" and lb: "links nb l' = links_at ns b l'" for l'
    using na nb by (simp_all add: links_at_def)
  have at: "links_at ns' i l' = (if i = b then if l' = l then ids' else links_at ns b l'
      else if i = a then if l' = l then links_at ns a l @ [b] else links_at ns a l' else links_at ns i l')" for i l'
    by (simp add: ns'_def ns2_def ns1_def nb2_def la lb)
  have "int (length ids') \<le> m" using \<open>0 < m\<close> by (simp add: ids'_def)
  then show ?thesis
    using that[OF link sh' wl'] \<open>a \<noteq> b\<close> unfolding at by auto
qed

subsection \<open>Connecting a node on a level\<close>

lemma link_all_effect:
  assumes "well_linked {} ns" "0 < m" "0 \<le> l" "on_level ns a l"
    "\<forall>r \<in> set rs. r_id r \<noteq> a \<and> on_level ns (r_id r) l"
  obtains ns' where "link_all m a l rs ns = Some ns'" "shape ns' = shape ns" "well_linked {} ns'"
    "links_at ns' a l = links_at ns a l @ map r_id rs" "\<And>l'. l' \<noteq> l \<Longrightarrow> links_at ns' a l' = links_at ns a l'"
    "\<And>i l'. (i, l') \<noteq> (a, l) \<Longrightarrow> int (length (links_at ns' i l')) \<le> max m (int (length (links_at ns i l')))"
  using assms
proof (induction rs arbitrary: ns thesis)
  case Nil
  then show ?case by simp
next
  case (Cons r rs)
  have r: "a \<noteq> r_id r" "on_level ns (r_id r) l" using Cons.prems(6) by auto
  obtain ns1 where ns1: "link_nodes m a (r_id r) l ns = Some ns1" "shape ns1 = shape ns" "well_linked {} ns1"
    "links_at ns1 a l = links_at ns a l @ [r_id r]" "int (length (links_at ns1 (r_id r) l)) \<le> m"
    "\<And>i l'. (i, l') \<noteq> (a, l) \<Longrightarrow> (i, l') \<noteq> (r_id r, l) \<Longrightarrow> links_at ns1 i l' = links_at ns i l'"
    using link_effect[OF Cons.prems(2,3) r(1) Cons.prems(4,5) r(2)] by blast
  have lv: "on_level ns1 a l" "\<forall>r \<in> set rs. r_id r \<noteq> a \<and> on_level ns1 (r_id r) l"
    using Cons.prems(5,6) by (auto simp: shape_on_level[OF ns1(2)])
  obtain ns' where ns': "link_all m a l rs ns1 = Some ns'" "shape ns' = shape ns1" "well_linked {} ns'"
    "links_at ns' a l = links_at ns1 a l @ map r_id rs" "\<And>l'. l' \<noteq> l \<Longrightarrow> links_at ns' a l' = links_at ns1 a l'"
    "\<And>i l'. (i, l') \<noteq> (a, l) \<Longrightarrow> int (length (links_at ns' i l')) \<le> max m (int (length (links_at ns1 i l')))"
    using Cons.IH[OF _ ns1(3) Cons.prems(3,4) lv] by blast
  have "int (length (links_at ns' i l')) \<le> max m (int (length (links_at ns i l')))" if "(i, l') \<noteq> (a, l)" for i l'
    using ns'(6)[OF that] ns1(5) ns1(6)[OF that] by (cases "(i, l') = (r_id r, l)") auto
  moreover have "links_at ns' a l' = links_at ns a l'" if "l' \<noteq> l" for l'
    using that ns'(5)[OF that] ns1(6)[of a l'] r(1) by simp
  ultimately show ?case
    using Cons.prems(1)[of ns'] ns'(1-4) ns1(1-4) by simp
qed

lemma diverse_Some:
  "fmlookup ns (r_id c) \<noteq> None \<Longrightarrow> \<forall>s \<in> set out. fmlookup ns (r_id s) \<noteq> None \<Longrightarrow> diverse ns c out \<noteq> None"
  by (induction out) auto

lemma select_diverse_effect:
  assumes "\<forall>r \<in> set cs \<union> set out. fmlookup ns (r_id r) \<noteq> None" "int (length out) < m"
  obtains rs where "select_diverse ns cs m out = Some rs" "set rs \<subseteq> set cs \<union> set out" "int (length rs) \<le> m"
  using assms
proof (induction cs arbitrary: out thesis)
  case Nil
  then show ?case by simp
next
  case (Cons c cs)
  obtain keep where keep: "diverse ns c out = Some keep" using diverse_Some[of ns c out] Cons.prems(2) by auto
  show ?case
  proof (cases "keep \<and> int (length (out @ [c])) = m")
    case True
    then show ?thesis using Cons.prems keep by auto
  next
    case False
    define out' where "out' = (if keep then out @ [c] else out)"
    have "\<forall>r \<in> set cs \<union> set out'. fmlookup ns (r_id r) \<noteq> None" "int (length out') < m"
      using Cons.prems(2,3) False by (auto simp: out'_def)
    then obtain rs where "select_diverse ns cs m out' = Some rs" "set rs \<subseteq> set cs \<union> set out'" "int (length rs) \<le> m"
      using Cons.IH by blast
    moreover have "select_diverse ns (c # cs) m out = select_diverse ns cs m out'"
      using keep False by (auto simp: out'_def)
    ultimately show ?thesis using Cons.prems(1)[of rs] by (auto simp: out'_def split: if_splits)
  qed
qed

lemma closest_in:
  assumes "any_order it" "r \<in> set (closest it q l limit skip ns)"
  shows "on_level ns (r_id r) l" "r_id r \<notin> skip"
proof -
  have "r \<in> set (concat (map (\<lambda>i. case fmlookup ns i of None \<Rightarrow> []
      | Some n \<Rightarrow> if i \<notin> skip \<and> l \<le> hn_level n then [\<lparr>r_id = i, r_distance = l2_squared q (hn_v n)\<rparr>] else [])
        (it (fset (fmdom ns)))))"
    using assms(2) unfolding closest_def by (auto dest!: in_set_takeD)
  then show "on_level ns (r_id r) l" "r_id r \<notin> skip"
    by (force simp: on_level_def split: option.splits if_splits)+
qed

lemma connect_effect:
  assumes "any_order it" "well_linked {} ns" "0 < cf_m c" "0 \<le> l" "on_level ns i l" "i \<in> skip" "0 < need"
  obtains ns' where "connect it c i v l need skip ns = Some ns'" "shape ns' = shape ns" "well_linked {} ns'"
    "int (length (links_at ns' i l)) \<le> int (length (links_at ns i l)) + need"
    "\<And>l'. l' \<noteq> l \<Longrightarrow> links_at ns' i l' = links_at ns i l'"
    "\<And>j l'. (j, l') \<noteq> (i, l) \<Longrightarrow> int (length (links_at ns' j l')) \<le> max (cf_m c) (int (length (links_at ns j l')))"
proof -
  let ?cs = "closest it v l (cf_ef_construction c) skip ns"
  have cs: "\<forall>r \<in> set ?cs. r_id r \<noteq> i \<and> on_level ns (r_id r) l"
    using closest_in[OF assms(1)] assms(6) by blast
  then have "\<forall>r \<in> set ?cs \<union> set []. fmlookup ns (r_id r) \<noteq> None"
    using on_level_Some by auto
  then obtain rs where rs: "select_diverse ns ?cs need [] = Some rs" "set rs \<subseteq> set ?cs" "int (length rs) \<le> need"
    using select_diverse_effect[of ?cs "[]" ns need] \<open>0 < need\<close> by auto
  have "\<forall>r \<in> set rs. r_id r \<noteq> i \<and> on_level ns (r_id r) l" using rs(2) cs by blast
  from link_all_effect[OF assms(2-5) this] obtain ns' where "link_all (cf_m c) i l rs ns = Some ns'"
    "shape ns' = shape ns" "well_linked {} ns'" "links_at ns' i l = links_at ns i l @ map r_id rs"
    "\<And>l'. l' \<noteq> l \<Longrightarrow> links_at ns' i l' = links_at ns i l'"
    "\<And>j l'. (j, l') \<noteq> (i, l) \<Longrightarrow> int (length (links_at ns' j l')) \<le> max (cf_m c) (int (length (links_at ns j l')))"
    by blast
  then show ?thesis using that rs by (simp add: connect_def)
qed

lemma connect_bounded:
  assumes "any_order it" "well_linked {} ns" "0 < cf_m c" "0 \<le> l" "on_level ns i l" "i \<in> skip" "0 < need"
    "bounded (cf_m c) ns" "need + int (length (links_at ns i l)) \<le> cf_m c"
  obtains ns' where "connect it c i v l need skip ns = Some ns'" "shape ns' = shape ns" "well_linked {} ns'"
    "bounded (cf_m c) ns'" "\<And>l'. l' \<noteq> l \<Longrightarrow> links_at ns' i l' = links_at ns i l'"
proof -
  from connect_effect[OF assms(1-7)] obtain ns' where ns': "connect it c i v l need skip ns = Some ns'"
    "shape ns' = shape ns" "well_linked {} ns'" "int (length (links_at ns' i l)) \<le> int (length (links_at ns i l)) + need"
    "\<And>l'. l' \<noteq> l \<Longrightarrow> links_at ns' i l' = links_at ns i l'"
    "\<And>j l'. (j, l') \<noteq> (i, l) \<Longrightarrow> int (length (links_at ns' j l')) \<le> max (cf_m c) (int (length (links_at ns j l')))"
    by blast
  have "int (length (links_at ns' j l')) \<le> cf_m c" for j l'
  proof (cases "(j, l') = (i, l)")
    case False
    have "int (length (links_at ns j l')) \<le> cf_m c" using assms(8) by (simp add: bounded_def)
    then show ?thesis using ns'(6)[OF False] by simp
  qed (use ns'(4) assms(9) in auto)
  then have "bounded (cf_m c) ns'" by (simp add: bounded_def)
  then show ?thesis using that ns'(1-3,5) by blast
qed

subsection \<open>Repairing after a deletion\<close>

lemma repair_node_effect:
  assumes "any_order it" "0 < cf_m c" "well_linked {} ns" "bounded (cf_m c) ns" "0 \<le> l" "on_level ns i hi"
  obtains ns' where "repair_node it c i l hi ns = Some ns'" "shape ns' = shape ns" "well_linked {} ns'" "bounded (cf_m c) ns'"
  using assms
proof (induction it c i l hi ns arbitrary: thesis rule: repair_node.induct)
  case (1 it c i l hi ns)
  show ?case
  proof (cases "hi < l")
    case True
    then show ?thesis using 1 by (simp add: repair_node.simps[of it c i l hi])
  next
    case False
    obtain n where n: "fmlookup ns i = Some n" "hi \<le> hn_level n" using 1 by (auto simp: on_level_def)
    then have ids: "hn_id n = i" and at: "links n l = links_at ns i l" and lv: "on_level ns i l"
      using 1 False by (auto simp: well_linked_def named_def links_at_def on_level_def)
    let ?need = "cf_m c - int (length (links n l))" and ?skip = "insert (hn_id n) (set (links n l))"
    show ?thesis
    proof (cases "?need \<le> 0")
      case True
      obtain ns' where "repair_node it c i (l + 1) hi ns = Some ns'" "shape ns' = shape ns" "well_linked {} ns'"
        "bounded (cf_m c) ns'"
        using 1(1)[OF False n(1) refl True] 1(4-9) by auto
      then show ?thesis using 1(3)[of ns'] True False n by (simp add: repair_node.simps[of it c i l hi] Let_def)
    next
      case need: False
      have pre: "i \<in> ?skip" "0 < ?need" "?need + int (length (links_at ns i l)) \<le> cf_m c"
        using need ids at by auto
      from connect_bounded[OF 1(4) 1(6) 1(5) 1(8) lv pre(1,2) 1(7) pre(3)]
      obtain ns1 where ns1: "connect it c i (hn_v n) l ?need ?skip ns = Some ns1" "shape ns1 = shape ns"
        "well_linked {} ns1" "bounded (cf_m c) ns1" by blast
      obtain ns' where "repair_node it c i (l + 1) hi ns1 = Some ns'" "shape ns' = shape ns1" "well_linked {} ns'"
        "bounded (cf_m c) ns'"
        using 1(2)[OF False n(1) refl need, of ns1] ns1(1) 1(4-9) ns1(3,4) shape_on_level[OF ns1(2)] by auto
      then show ?thesis
        using 1(3)[of ns'] ns1 need False n by (simp add: repair_node.simps[of it c i l hi] Let_def)
    qed
  qed
qed

lemma repair_effect:
  assumes "any_order it" "0 < cf_m c" "well_linked {} ns" "bounded (cf_m c) ns" "\<forall>i \<in> set ids. fmlookup ns i \<noteq> None"
  obtains ns' where "repair it c ids ns = Some ns'" "shape ns' = shape ns" "well_linked {} ns'" "bounded (cf_m c) ns'"
  using assms
proof (induction ids arbitrary: ns thesis)
  case Nil
  then show ?case by simp
next
  case (Cons i ids)
  then obtain n where n: "fmlookup ns i = Some n" by auto
  then have "on_level ns i (hn_level n)" by (simp add: on_level_def)
  from repair_node_effect[OF Cons.prems(2-5) order_refl this]
  obtain ns1 where ns1: "repair_node it c i 0 (hn_level n) ns = Some ns1" "shape ns1 = shape ns" "well_linked {} ns1"
    "bounded (cf_m c) ns1" by blast
  have "\<forall>j \<in> set ids. fmlookup ns1 j \<noteq> None" using Cons.prems(6) shape_dom[OF ns1(2)] by (metis fmlookup_dom_iff list.set_intros(2) option.distinct(1) option.exhaust)
  from Cons.IH[OF _ Cons.prems(2,3) ns1(3,4) this]
  obtain ns' where "repair it c ids ns1 = Some ns'" "shape ns' = shape ns1" "well_linked {} ns'" "bounded (cf_m c) ns'"
    by blast
  then show ?case using Cons.prems(1) n ns1 by simp
qed

subsection \<open>Inserting on every level\<close>

lemma connect_levels_effect:
  assumes "any_order it" "0 < cf_m c" "well_linked {} ns" "bounded (cf_m c) ns" "on_level ns i l"
    "\<And>l'. l' \<le> l \<Longrightarrow> links_at ns i l' = []"
  obtains ns' where "connect_levels it c i v l ns = Some ns'" "shape ns' = shape ns" "well_linked {} ns'" "bounded (cf_m c) ns'"
  using assms
proof (induction it c i v l ns arbitrary: thesis rule: connect_levels.induct)
  case (1 it c i v l ns)
  show ?case
  proof (cases "l < 0")
    case True
    then show ?thesis using 1 by (simp add: connect_levels.simps[of it c i v l])
  next
    case False
    obtain ns1 where ns1: "connect it c i v l (cf_m c) {i} ns = Some ns1" "shape ns1 = shape ns" "well_linked {} ns1"
      "bounded (cf_m c) ns1" "\<And>l'. l' \<noteq> l \<Longrightarrow> links_at ns1 i l' = links_at ns i l'"
      using connect_bounded[OF 1(3,5,4) _ 1(7), of "{i}" "cf_m c"] 1(4,6) 1(8)[OF order_refl] False by auto
    have "on_level ns i (l - 1)" using 1(7) by (force simp: on_level_def)
    then have "on_level ns1 i (l - 1)" by (simp add: shape_on_level[OF ns1(2)])
    moreover have "\<And>l'. l' \<le> l - 1 \<Longrightarrow> links_at ns1 i l' = []"
      using ns1(5) 1(8) by simp
    ultimately have rest: "on_level ns1 i (l - 1)" "\<And>l'. l' \<le> l - 1 \<Longrightarrow> links_at ns1 i l' = []"
      by blast+
    from 1(1)[OF False ns1(1) _ 1(3,4) ns1(3,4) rest]
    obtain ns' where "connect_levels it c i v (l - 1) ns1 = Some ns'" "shape ns' = shape ns1" "well_linked {} ns'"
      "bounded (cf_m c) ns'" by blast
    then show ?thesis
      using 1(2)[of ns'] ns1 False by (simp add: connect_levels.simps[of it c i v l])
  qed
qed

end
