(* ===== verification/Hnsw_Index.thy ===== *)
theory Hnsw_Index
  imports Hnsw_Graph
begin

section \<open>The invariant of the index and the effect of its operations\<close>

text \<open>
  \<open>hnsw_ok\<close> is what \<open>NewHNSW\<close> establishes and every operation keeps. \<open>dropped\<close> is the first half of
  \<open>Delete\<close> as one map over the nodes, which shows that the order of its two loops does not matter;
  \<open>closest_order\<close> and \<open>sorted_ids_order\<close> show the same for the other places that range over a map.
\<close>

subsection \<open>Dropping the links to a deleted node\<close>

definition cut_links :: "int \<Rightarrow> bytes \<Rightarrow> nodes \<Rightarrow> hnode \<Rightarrow> bytes list \<Rightarrow> bytes list" where
  "cut_links m gone ns n ids =
     map r_id (take (nat m) (sort_results (map (result_of ns (hn_v n)) (filter (\<lambda>b. b \<noteq> gone) ids))))"

definition cut_level :: "int \<Rightarrow> bytes \<Rightarrow> nodes \<Rightarrow> int \<Rightarrow> hnode \<Rightarrow> hnode" where
  "cut_level m gone ns l n = set_links l (cut_links m gone ns n (links n l)) n"

definition dropped :: "int \<Rightarrow> bytes \<Rightarrow> nodes \<Rightarrow> nodes" where
  "dropped m gone ns = fmmap (\<lambda>n. n\<lparr>hn_neighbors := fmmap (cut_links m gone ns n) (hn_neighbors n)\<rparr>) ns"

lemma cut_level_fields [simp]:
  "hn_id (cut_level m gone ns l n) = hn_id n" "hn_v (cut_level m gone ns l n) = hn_v n"
  "hn_level (cut_level m gone ns l n) = hn_level n"
  "links (cut_level m gone ns l n) l' = (if l' = l then cut_links m gone ns n (links n l) else links n l')"
  by (simp_all add: cut_level_def)

lemma cut_links_subset: "set (cut_links m gone ns n ids) \<subseteq> {b \<in> set ids. b \<noteq> gone}"
  using trimmed_subset[of "nat m" ns "hn_v n" "filter (\<lambda>b. b \<noteq> gone) ids"] by (auto simp: cut_links_def)

lemma cut_links_shape:
  assumes "shape ns' = shape ns"
  shows "cut_links m gone ns' = cut_links m gone ns"
  by (intro ext) (simp only: cut_links_def shape_result_of[OF assms])

lemma cut_level_shape:
  assumes "shape ns' = shape ns"
  shows "cut_level m gone ns' = cut_level m gone ns"
  by (intro ext) (simp only: cut_level_def cut_links_shape[OF assms])

lemma shape_upd_fields:
  "fmlookup ns i = Some n \<Longrightarrow> hn_id n' = hn_id n \<Longrightarrow> hn_v n' = hn_v n \<Longrightarrow> hn_level n' = hn_level n \<Longrightarrow>
   shape (fmupd i n' ns) = shape ns"
  by (rule fmap_ext) (auto simp: shape_lookup)

lemma drop_on_levels_eq:
  "fmlookup ns i = Some n \<Longrightarrow> \<forall>l. \<forall>b \<in> set (links n l). b = gone \<or> fmlookup ns b \<noteq> None \<Longrightarrow>
   drop_on_levels m gone i ls ns = Some (fmupd i (fold (cut_level m gone ns) ls n) ns)"
proof (induction ls arbitrary: n ns)
  case Nil
  have "fmupd i n ns = ns" by (rule fmap_ext) (use Nil in auto)
  then show ?case by simp
next
  case (Cons l ls)
  define n1 where "n1 = set_links l (filter (\<lambda>b. b \<noteq> gone) (links n l)) n"
  define ns1 where "ns1 = fmupd i n1 ns"
  define n2 where "n2 = cut_level m gone ns l n"
  define ns2 where "ns2 = fmupd i n2 ns"
  have sh1: "shape ns1 = shape ns" unfolding ns1_def n1_def using Cons.prems(1) by (rule shape_upd)
  have dom1: "fmlookup ns1 b \<noteq> None \<longleftrightarrow> fmlookup ns b \<noteq> None" for b
    using shape_dom[OF sh1] by (metis fmlookup_dom_iff option.distinct(1) option.exhaust)
  have ex: "\<forall>b \<in> set (links n1 l). fmlookup ns1 b \<noteq> None"
    unfolding dom1 using Cons.prems(2) by (auto simp: n1_def)
  have "fmlookup ns1 i = Some n1" by (simp add: ns1_def)
  from trim_Some[OF this ex, of m]
  have "trim m i l ns1 = Some (fmupd i (set_links l (cut_links m gone ns n (links n l)) n1) ns1)"
    by (simp add: n1_def cut_links_def shape_result_of[OF sh1])
  also have "fmupd i (set_links l (cut_links m gone ns n (links n l)) n1) ns1 = ns2"
    by (rule fmap_ext) (auto simp: ns1_def ns2_def n2_def n1_def cut_level_def set_links_def intro!: fmap_ext)
  finally have trim: "trim m i l ns1 = Some ns2" .
  have sh2: "shape ns2 = shape ns" unfolding ns2_def using Cons.prems(1) by (rule shape_upd_fields) (simp_all add: n2_def)
  have dom2: "fmlookup ns2 b \<noteq> None \<longleftrightarrow> fmlookup ns b \<noteq> None" for b
    using shape_dom[OF sh2] by (metis fmlookup_dom_iff option.distinct(1) option.exhaust)
  have "drop_on_levels m gone i ls ns2 = Some (fmupd i (fold (cut_level m gone ns2) ls n2) ns2)"
  proof (rule Cons.IH)
    show "fmlookup ns2 i = Some n2" by (simp add: ns2_def)
    show "\<forall>l'. \<forall>b \<in> set (links n2 l'). b = gone \<or> fmlookup ns2 b \<noteq> None"
      unfolding dom2 using Cons.prems(2) cut_links_subset[of m gone ns n "links n l"] by (auto simp: n2_def)
  qed
  moreover have "fmupd i x ns2 = fmupd i x ns" for x by (simp add: ns2_def fmap_ext)
  ultimately show ?case
    using Cons.prems(1) trim by (simp add: ns1_def n1_def n2_def cut_level_shape[OF sh2])
qed

lemma fold_cut_level:
  "distinct ls \<Longrightarrow> set ls \<subseteq> fset (fmdom (hn_neighbors n)) \<Longrightarrow>
   fold (cut_level m gone ns) ls n =
     n\<lparr>hn_neighbors := fmmap_keys (\<lambda>l ids. if l \<in> set ls then cut_links m gone ns n ids else ids) (hn_neighbors n)\<rparr>"
proof (induction ls arbitrary: n)
  case Nil
  have "fmmap_keys (\<lambda>l ids. ids) (hn_neighbors n) = hn_neighbors n" by (rule fmap_ext) (simp add: option.map_ident)
  then show ?case by simp
next
  case (Cons l ls)
  let ?n = "cut_level m gone ns l n"
  have cut: "cut_links m gone ns ?n = cut_links m gone ns n" by (simp add: cut_links_def fun_eq_iff)
  have l: "l \<in> fset (fmdom (hn_neighbors n))" using Cons.prems(2) by simp
  have "set ls \<subseteq> fset (fmdom (hn_neighbors ?n))"
    using Cons.prems(2) by (auto simp: cut_level_def set_links_def)
  then have "fold (cut_level m gone ns) ls ?n =
    ?n\<lparr>hn_neighbors := fmmap_keys (\<lambda>l ids. if l \<in> set ls then cut_links m gone ns n ids else ids) (hn_neighbors ?n)\<rparr>"
    using Cons.IH[of ?n] Cons.prems(1) unfolding cut by simp
  moreover have "fmmap_keys (\<lambda>l ids. if l \<in> set ls then cut_links m gone ns n ids else ids) (hn_neighbors ?n) =
    fmmap_keys (\<lambda>l' ids. if l' \<in> set (l # ls) then cut_links m gone ns n ids else ids) (hn_neighbors n)"
    using Cons.prems(1) l
    by (intro fmap_ext) (auto simp: cut_level_def set_links_def links_def fmlookup_dom_iff split: option.splits)
  moreover have "?n\<lparr>hn_neighbors := x\<rparr> = n\<lparr>hn_neighbors := x\<rparr>" for x
    by (simp add: cut_level_def set_links_def)
  ultimately show ?case by simp
qed

definition cut_node :: "int \<Rightarrow> bytes \<Rightarrow> nodes \<Rightarrow> hnode \<Rightarrow> hnode" where
  "cut_node m gone ns n = n\<lparr>hn_neighbors := fmmap (cut_links m gone ns n) (hn_neighbors n)\<rparr>"

lemma fold_cut_all:
  assumes "any_order lv"
  shows "fold (cut_level m gone ns) (lv (fset (fmdom (hn_neighbors n)))) n = cut_node m gone ns n"
proof -
  have "fmmap_keys (\<lambda>l ids. if l \<in> fset (fmdom (hn_neighbors n)) then cut_links m gone ns n ids else ids) (hn_neighbors n) =
      fmmap (cut_links m gone ns n) (hn_neighbors n)"
    by (rule fmap_ext) (auto simp: fmlookup_dom_iff intro!: map_option_cong)
  then show ?thesis
    using assms fold_cut_level[of "lv (fset (fmdom (hn_neighbors n)))" n] by (simp add: any_order_def cut_node_def)
qed

lemma cut_node_shape:
  assumes "shape ns' = shape ns"
  shows "cut_node m gone ns' = cut_node m gone ns"
  by (intro ext) (simp only: cut_node_def cut_links_shape[OF assms])

lemma drop_links_lookup:
  "any_order lv \<Longrightarrow> distinct ids \<Longrightarrow>
   \<forall>i \<in> set ids. \<exists>n. fmlookup ns i = Some n \<and> (\<forall>l. \<forall>b \<in> set (links n l). b = gone \<or> fmlookup ns b \<noteq> None) \<Longrightarrow>
   \<exists>ns'. drop_links lv m gone ids ns = Some ns' \<and>
     (\<forall>j. fmlookup ns' j = (if j \<in> set ids then map_option (cut_node m gone ns) (fmlookup ns j) else fmlookup ns j))"
proof (induction ids arbitrary: ns)
  case (Cons i ids)
  obtain n where n: "fmlookup ns i = Some n" "\<forall>l. \<forall>b \<in> set (links n l). b = gone \<or> fmlookup ns b \<noteq> None"
    using Cons.prems(3) by auto
  define ns1 where "ns1 = fmupd i (cut_node m gone ns n) ns"
  have step: "drop_links lv m gone (i # ids) ns = drop_links lv m gone ids ns1"
    using n drop_on_levels_eq[OF n] fold_cut_all[OF Cons.prems(1)] by (simp add: ns1_def)
  have sh: "shape ns1 = shape ns"
    unfolding ns1_def using n(1) by (rule shape_upd_fields) (simp_all add: cut_node_def)
  have "fmlookup ns1 b \<noteq> None \<longleftrightarrow> fmlookup ns b \<noteq> None" for b
    using shape_dom[OF sh] by (metis fmlookup_dom_iff option.distinct(1) option.exhaust)
  moreover have "fmlookup ns1 j = fmlookup ns j" if "j \<in> set ids" for j
    using that Cons.prems(2) by (auto simp: ns1_def)
  ultimately have "\<forall>j \<in> set ids. \<exists>n. fmlookup ns1 j = Some n \<and> (\<forall>l. \<forall>b \<in> set (links n l). b = gone \<or> fmlookup ns1 b \<noteq> None)"
    using Cons.prems(3) by auto
  from Cons.IH[OF Cons.prems(1) _ this] Cons.prems(2) obtain ns' where "drop_links lv m gone ids ns1 = Some ns'"
    "\<And>j. fmlookup ns' j = (if j \<in> set ids then map_option (cut_node m gone ns1) (fmlookup ns1 j) else fmlookup ns1 j)"
    by auto
  then show ?case
    unfolding step using n(1) Cons.prems(2)
    by (intro exI[of _ ns']) (auto simp: cut_node_shape[OF sh], auto simp: ns1_def)
qed simp

lemma drop_links_eq:
  assumes "any_order it" "any_order lv" "well_linked {gone} ns"
  shows "drop_links lv m gone (it (fset (fmdom ns))) ns = Some (dropped m gone ns)"
proof -
  have ids: "set (it (fset (fmdom ns))) = fset (fmdom ns)" "distinct (it (fset (fmdom ns)))"
    using assms(1) by (auto simp: any_order_def)
  have "\<exists>n. fmlookup ns i = Some n \<and> (\<forall>l. \<forall>b \<in> set (links n l). b = gone \<or> fmlookup ns b \<noteq> None)"
    if "i \<in> fset (fmdom ns)" for i
  proof -
    obtain n where n: "fmlookup ns i = Some n" using \<open>i \<in> _\<close> by (auto simp: fmlookup_dom_iff)
    have "b = gone \<or> fmlookup ns b \<noteq> None" if "b \<in> set (links n l)" for b l
      using well_linkedD(4)[OF assms(3), of b i l] that n on_level_Some by (auto simp: links_at_def)
    then show ?thesis using n by blast
  qed
  then obtain ns' where ns': "drop_links lv m gone (it (fset (fmdom ns))) ns = Some ns'"
    "\<And>j. fmlookup ns' j = (if j \<in> fset (fmdom ns) then map_option (cut_node m gone ns) (fmlookup ns j) else fmlookup ns j)"
    using drop_links_lookup[OF assms(2) ids(2), of ns gone m] ids(1) by auto
  have "ns' = dropped m gone ns"
  proof (rule fmap_ext)
    show "fmlookup ns' j = fmlookup (dropped m gone ns) j" for j
      using ns'(2)[of j] by (cases "fmlookup ns j") (auto simp: dropped_def cut_node_def fmlookup_dom_iff)
  qed
  then show ?thesis using ns'(1) by simp
qed

lemma links_dropped: "links_at (dropped m gone ns) i l = (case fmlookup ns i of None \<Rightarrow> []
     | Some n \<Rightarrow> cut_links m gone ns n (links n l))"
  by (simp add: links_at_def dropped_def links_def cut_links_def split: option.splits)

lemma dropped_props:
  assumes "well_linked {gone} ns" "0 < m"
  shows "shape (dropped m gone ns) = shape ns" "well_linked {} (dropped m gone ns)" "bounded m (dropped m gone ns)"
proof -
  show sh: "shape (dropped m gone ns) = shape ns"
    by (rule fmap_ext) (auto simp: shape_lookup dropped_def option.map_comp o_def intro!: map_option_cong)
  have sub: "b \<in> set (links_at ns i l) \<and> b \<noteq> gone" if "b \<in> set (links_at (dropped m gone ns) i l)" for b i l
    using that cut_links_subset[of m gone ns "the (fmlookup ns i)" "links (the (fmlookup ns i)) l"]
    by (cases "fmlookup ns i") (auto simp: links_dropped links_at_def[of ns])
  have "0 \<le> l \<and> on_level ns i l \<and> b \<noteq> i \<and> (b \<in> {} \<or> on_level ns b l)"
    if "b \<in> set (links_at (dropped m gone ns) i l)" for b i l
    using well_linkedD[OF assms(1), of b i l] sub[OF that] by blast
  then show "well_linked {} (dropped m gone ns)"
    using assms(1) unfolding well_linked_def shape_on_level[OF sh] shape_named[OF sh] by blast
  show "bounded m (dropped m gone ns)"
    using assms(2) by (auto simp: bounded_def links_dropped cut_links_def split: option.splits)
qed

subsection \<open>The order of map iteration\<close>

lemma any_orderD: "any_order it \<Longrightarrow> set (it (fset S)) = fset S" "any_order it \<Longrightarrow> distinct (it (fset S))"
  by (simp_all add: any_order_def)

lemma any_order_sorted: "any_order it \<Longrightarrow> mset (it (fset S)) = mset (sorted_list_of_set (fset S))"
  by (simp add: any_orderD flip: set_eq_iff_mset_eq_distinct)

lemma sorted_set_any_order: "any_order sorted_list_of_set"
  by (simp add: any_order_def)

text \<open>Every order gives what walking in sorted order gives.\<close>

lemma closest_order:
  assumes "any_order it"
  shows "closest it = closest sorted_list_of_set"
proof -
  have m: "mset (concat (map f xs)) = \<Sum>\<^sub># (image_mset (mset \<circ> f) (mset xs))" for f :: "bytes \<Rightarrow> result list" and xs
    by (induction xs) auto
  show ?thesis
    unfolding closest_def by (intro ext arg_cong[where f="take _"] sort_results_perm) (simp only: m any_order_sorted[OF assms])
qed

lemma sorted_ids_order:
  assumes "any_order it"
  shows "sorted_ids it ns = sorted_list_of_fset (fmdom ns)"
proof (rule sorted_distinct_set_unique)
  show "sorted (sorted_ids it ns)" "distinct (sorted_ids it ns)"
    "sorted (sorted_list_of_fset (fmdom ns))" "distinct (sorted_list_of_fset (fmdom ns))"
    "set (sorted_ids it ns) = set (sorted_list_of_fset (fmdom ns))"
    using any_orderD[OF assms, of "fmdom ns"] by (simp_all add: sorted_ids_def sorted_list_of_fset.rep_eq)
qed

lemma connect_order:
  assumes "any_order it"
  shows "connect it c i v l need skip ns = connect sorted_list_of_set c i v l need skip ns"
  by (simp only: connect_def closest_order[OF assms])

lemma repair_node_order: "any_order it \<Longrightarrow> repair_node it c i l hi ns = repair_node sorted_list_of_set c i l hi ns"
proof (induction it c i l hi ns rule: repair_node.induct)
  case (1 it c i l hi ns)
  show ?case
    unfolding repair_node.simps[of it c i l hi ns] repair_node.simps[of sorted_list_of_set c i l hi ns] Let_def
    using 1 by (auto simp: connect_order[OF 1(3)] intro!: option.case_cong bind_option_cong split: option.split)
qed

lemma repair_order: "any_order it \<Longrightarrow> repair it c ids ns = repair sorted_list_of_set c ids ns"
proof (induction ids arbitrary: ns)
  case (Cons i ids)
  have "repair it c ids = repair sorted_list_of_set c ids" using Cons by blast
  then show ?case by (simp add: repair_node_order[OF Cons.prems] split: option.split)
qed simp

lemma connect_levels_order:
  "any_order it \<Longrightarrow> connect_levels it c i v l ns = connect_levels sorted_list_of_set c i v l ns"
proof (induction it c i v l ns rule: connect_levels.induct)
  case (1 it c i v l ns)
  show ?case
    unfolding connect_levels.simps[of it c i v l ns] connect_levels.simps[of sorted_list_of_set c i v l ns]
    using 1 by (auto simp: connect_order[OF 1(2)] intro!: bind_option_cong)
qed

subsection \<open>The invariant\<close>

definition nodes_ok :: "hnsw_config \<Rightarrow> nodes \<Rightarrow> bool" where
  "nodes_ok c ns \<longleftrightarrow> (\<forall>i n. fmlookup ns i = Some n \<longrightarrow>
     i \<noteq> [] \<and> validate_dimension (cf_dimension c) (hn_v n) = None \<and> 0 \<le> hn_level n)"

definition entry_ok :: "nodes \<Rightarrow> bytes \<times> int \<Rightarrow> bool" where
  \<comment> \<open>the entry is a node of the highest level\<close>
  "entry_ok ns e \<longleftrightarrow>
     (if fmdom ns = {||} then e = ([], - 1)
      else \<exists>n. fmlookup ns (fst e) = Some n \<and> hn_level n = snd e \<and> (\<forall>j n'. fmlookup ns j = Some n' \<longrightarrow> hn_level n' \<le> snd e))"

definition hnsw_ok :: "hnsw \<Rightarrow> bool" where
  "hnsw_ok h \<longleftrightarrow> new_hnsw (h_cfg h) \<noteq> Inl InvalidConfig \<and> well_linked {} (h_nodes h) \<and>
     bounded (cf_m (h_cfg h)) (h_nodes h) \<and> nodes_ok (h_cfg h) (h_nodes h) \<and> entry_ok (h_nodes h) (h_entry h, h_max_level h)"

lemma hnsw_okD:
  assumes "hnsw_ok h"
  shows "0 < cf_dimension (h_cfg h)" "0 < cf_m (h_cfg h)" "cf_m (h_cfg h) \<le> cf_ef_construction (h_cfg h)" "0 < cf_ef_search (h_cfg h)"
  using assms by (auto simp: hnsw_ok_def new_hnsw_def split: if_splits)

lemma shape_nodes_ok: "shape ns' = shape ns \<Longrightarrow> nodes_ok c ns' = nodes_ok c ns"
  unfolding nodes_ok_def by (metis shape_Some)

lemma dom_nonempty: "fmlookup ns i = Some n \<Longrightarrow> fmdom ns \<noteq> {||}"
  using fmdomI by fastforce

lemma entry_ok_shape:
  assumes sh: "shape ns' = shape ns" and ok: "entry_ok ns e"
  shows "entry_ok ns' e"
proof (cases "fmdom ns = {||}")
  case True
  then show ?thesis using ok by (simp add: entry_ok_def shape_dom[OF sh])
next
  case False
  then obtain n where "fmlookup ns (fst e) = Some n" "hn_level n = snd e" and le: "\<And>j n'. fmlookup ns j = Some n' \<Longrightarrow> hn_level n' \<le> snd e"
    using ok by (auto simp: entry_ok_def)
  then obtain n' where n': "fmlookup ns' (fst e) = Some n'" "hn_level n' = snd e" using shape_Some[OF sh] by metis
  have "hn_level m \<le> snd e" if "fmlookup ns' j = Some m" for j m
    using shape_Some[OF sh[symmetric] that] le by metis
  then show ?thesis using n' False by (simp add: entry_ok_def shape_dom[OF sh])
qed

lemma shape_entry_ok:
  assumes "shape ns' = shape ns"
  shows "entry_ok ns' e = entry_ok ns e"
  using entry_ok_shape[OF assms] entry_ok_shape[OF assms[symmetric]] by blast

lemma new_hnsw_ok: "new_hnsw c = Inr h \<Longrightarrow> hnsw_ok h \<and> h_nodes h = fmempty \<and> h_cfg h = c"
  by (auto simp: hnsw_ok_def new_hnsw_def well_linked_def bounded_def nodes_ok_def entry_ok_def named_def links_at_def
      split: if_splits)

lemma highest_spec:
  "\<forall>i \<in> set ids. fmlookup ns i \<noteq> None \<Longrightarrow> \<exists>e'. highest ns ids e = Some e' \<and> snd e \<le> snd e' \<and>
     (e' = e \<or> (\<exists>n. fst e' \<in> set ids \<and> fmlookup ns (fst e') = Some n \<and> hn_level n = snd e')) \<and>
     (\<forall>i \<in> set ids. \<forall>n. fmlookup ns i = Some n \<longrightarrow> hn_level n \<le> snd e')"
proof (induction ids arbitrary: e)
  case (Cons i ids)
  then obtain n where n: "fmlookup ns i = Some n" by auto
  let ?e = "if snd e < hn_level n then (i, hn_level n) else e"
  have "\<exists>e'. highest ns ids ?e = Some e' \<and> snd ?e \<le> snd e' \<and>
     (e' = ?e \<or> (\<exists>n. fst e' \<in> set ids \<and> fmlookup ns (fst e') = Some n \<and> hn_level n = snd e')) \<and>
     (\<forall>i \<in> set ids. \<forall>n. fmlookup ns i = Some n \<longrightarrow> hn_level n \<le> snd e')"
    by (rule Cons.IH) (use Cons.prems in simp)
  then obtain e' where "highest ns ids ?e = Some e'" "snd ?e \<le> snd e'"
    "e' = ?e \<or> (\<exists>n. fst e' \<in> set ids \<and> fmlookup ns (fst e') = Some n \<and> hn_level n = snd e')"
    "\<forall>i \<in> set ids. \<forall>n. fmlookup ns i = Some n \<longrightarrow> hn_level n \<le> snd e'" by blast
  then show ?case using n by (intro exI[of _ e']) (auto split: if_splits)
qed simp

lemma highest_entry_ok:
  assumes "set ids = fset (fmdom ns)" "nodes_ok c ns"
  obtains e where "highest ns ids ([], - 1) = Some e" "entry_ok ns e"
proof -
  have ids: "\<forall>i \<in> set ids. fmlookup ns i \<noteq> None" using assms(1) by (auto simp: fmlookup_dom_iff)
  obtain e where e: "highest ns ids ([], - 1) = Some e"
    "e = ([], - 1) \<or> (\<exists>n. fst e \<in> set ids \<and> fmlookup ns (fst e) = Some n \<and> hn_level n = snd e)"
    "\<forall>i \<in> set ids. \<forall>n. fmlookup ns i = Some n \<longrightarrow> hn_level n \<le> snd e"
    using highest_spec[OF ids, of "([], - 1)"] by auto
  have all: "hn_level n \<le> snd e" if "fmlookup ns j = Some n" for j n
    using e(3) that assms(1) by (auto simp: fmlookup_dom_iff)
  have "entry_ok ns e"
  proof (cases "fmdom ns = {||}")
    case True
    then show ?thesis using assms(1) e(1) by (simp add: entry_ok_def)
  next
    case False
    then obtain j n where n: "fmlookup ns j = Some n" by (metis fmap_ext fmdom_empty fmempty_lookup option.exhaust)
    then have "0 \<le> snd e" using all[OF n] assms(2) by (force simp: nodes_ok_def)
    then show ?thesis using e(2) all False by (auto simp: entry_ok_def)
  qed
  then show ?thesis using e(1) that by blast
qed

subsection \<open>Delete\<close>

lemma well_linked_drop: "well_linked {} ns \<Longrightarrow> well_linked {i} (fmdrop i ns)"
proof -
  assume wl: "well_linked {} ns"
  have at: "links_at (fmdrop i ns) j l = (if j = i then [] else links_at ns j l)" for j l
    by (simp add: links_at_def)
  have "on_level (fmdrop i ns) j l \<longleftrightarrow> j \<noteq> i \<and> on_level ns j l" for j l
    by (auto simp: on_level_def)
  then show ?thesis using wl unfolding well_linked_def at named_def by (auto split: if_splits)
qed

lemma h_delete_effect:
  assumes ok: "hnsw_ok h" and i: "fmlookup (h_nodes h) i \<noteq> None" and "any_order it" "any_order lv"
  obtains h' where "h_delete it lv i h = Done h'" "hnsw_ok h'" "shape (h_nodes h') = fmdrop i (shape (h_nodes h))"
    "h_cfg h' = h_cfg h" "h_drawn h' = h_drawn h"
    "h_delete sorted_list_of_set sorted_list_of_set i h = Done h'"
proof -
  let ?c = "h_cfg h" and ?ns = "fmdrop i (h_nodes h)" and ?ids = "sorted_list_of_fset (fmdom (fmdrop i (h_nodes h)))"
  have wl: "well_linked {i} ?ns" using ok by (simp add: hnsw_ok_def well_linked_drop)
  note m = hnsw_okD(2)[OF ok]
  note D = dropped_props[OF wl m]
  have ids: "\<forall>j \<in> set ?ids. fmlookup (dropped (cf_m ?c) i ?ns) j \<noteq> None"
    using shape_dom[OF D(1)] by (auto simp: fmlookup_dom_iff simp del: fmdom_drop)
  from repair_effect[OF sorted_set_any_order m D(2,3) ids] obtain ns' where
    ns': "repair sorted_list_of_set ?c ?ids (dropped (cf_m ?c) i ?ns) = Some ns'" "shape ns' = shape ?ns"
    "well_linked {} ns'" "bounded (cf_m ?c) ns'" using D(1) by metis
  have nodes: "nodes_ok ?c ns'"
    using ok unfolding shape_nodes_ok[OF ns'(2)] by (auto simp: hnsw_ok_def nodes_ok_def)
  have dom: "set ?ids = fset (fmdom ns')" using shape_dom[OF ns'(2)] by simp
  obtain e where e: "highest ns' ?ids ([], - 1) = Some e" "entry_ok ns' e"
    using highest_entry_ok[OF dom nodes] by blast
  define h' where "h' = (if h_entry h = i then h\<lparr>h_nodes := ns', h_entry := fst e, h_max_level := snd e\<rparr> else h\<lparr>h_nodes := ns'\<rparr>)"
  have run: "h_delete it lv i h = Done h'" if "any_order it" "any_order lv" for it lv
    using i e(1) ns'(1) drop_links_eq[OF that wl] sorted_ids_order[OF that(1)] repair_order[OF that(1)]
    by (cases e) (auto simp: h_delete_def Let_def h'_def)
  have "entry_ok ns' (h_entry h', h_max_level h')"
  proof (cases "h_entry h = i")
    case True
    then show ?thesis using e(2) by (simp add: h'_def)
  next
    case False
    have "entry_ok (h_nodes h) (h_entry h, h_max_level h)" using ok by (simp add: hnsw_ok_def)
    moreover have "fmdom (h_nodes h) \<noteq> {||}"
      using i by (cases "fmlookup (h_nodes h) i") (simp_all add: dom_nonempty)
    ultimately obtain n where n: "fmlookup (h_nodes h) (h_entry h) = Some n" "hn_level n = h_max_level h"
      and le: "\<forall>j n'. fmlookup (h_nodes h) j = Some n' \<longrightarrow> hn_level n' \<le> h_max_level h"
      by (auto simp: entry_ok_def)
    then have "fmlookup ?ns (h_entry h) = Some n" using False by simp
    then have "entry_ok ?ns (h_entry h, h_max_level h)"
      using n(2) le dom_nonempty[of ?ns] unfolding entry_ok_def by (auto simp del: fmdom_drop split: if_splits)
    then show ?thesis using False by (simp add: h'_def shape_entry_ok[OF ns'(2)])
  qed
  then have "hnsw_ok h'"
    using ok ns'(3,4) nodes by (auto simp: hnsw_ok_def h'_def)
  moreover have "shape (h_nodes h') = fmdrop i (shape (h_nodes h))"
    using ns'(2) by (auto simp: h'_def shape_lookup intro!: fmap_ext)
  moreover have "h_cfg h' = h_cfg h" "h_drawn h' = h_drawn h" by (simp_all add: h'_def)
  ultimately show ?thesis
    using that[of h'] run[OF assms(3,4)] run[OF sorted_set_any_order sorted_set_any_order] by blast
qed

lemma h_delete_missing: "fmlookup (h_nodes h) i = None \<Longrightarrow> h_delete it lv i h = Failed IdNotFound h"
  by (simp add: h_delete_def)

subsection \<open>Insert\<close>

lemma fresh_node_linked:
  assumes ok: "hnsw_ok h" and new: "fmlookup (h_nodes h) i = None"
    and n: "hn_id n = i" "hn_neighbors n = fmempty"
  shows "well_linked {} (fmupd i n (h_nodes h))" "bounded (cf_m (h_cfg h)) (fmupd i n (h_nodes h))"
    "links_at (fmupd i n (h_nodes h)) i l = []"
proof -
  have empty: "links n l = []" for l by (simp add: links_def n(2))
  show "links_at (fmupd i n (h_nodes h)) i l = []" by (simp add: empty)
  have wl: "well_linked {} (h_nodes h)" using ok by (simp add: hnsw_ok_def)
  have lv: "on_level (h_nodes h) j l \<Longrightarrow> on_level (fmupd i n (h_nodes h)) j l" for j l
    using new by (auto simp: on_level_def)
  show "well_linked {} (fmupd i n (h_nodes h))"
    unfolding well_linked_def
  proof (intro conjI allI ballI)
    show "named (fmupd i n (h_nodes h))" using wl n(1) by (auto simp: well_linked_def named_def)
  next
    fix j l b assume "b \<in> set (links_at (fmupd i n (h_nodes h)) j l)"
    then have b: "b \<in> set (links_at (h_nodes h) j l)" by (simp add: empty split: if_splits)
    from well_linkedD[OF wl b] show "0 \<le> l" "on_level (fmupd i n (h_nodes h)) j l" "b \<noteq> j"
      "b \<in> {} \<or> on_level (fmupd i n (h_nodes h)) b l" using lv by auto
  qed
  show "bounded (cf_m (h_cfg h)) (fmupd i n (h_nodes h))"
    using ok hnsw_okD(2)[OF ok] by (auto simp: hnsw_ok_def bounded_def empty)
qed

lemma place_effect:
  assumes ok: "hnsw_ok h" and i: "i \<noteq> []" "fmlookup (h_nodes h) i = None" and v: "h_validate h v = None"
    and lv: "0 \<le> draw (h_cfg h) (h_drawn h)" and it: "any_order it"
  obtains h' where "place it draw i v h = Done h'" "hnsw_ok h'"
    "shape (h_nodes h') = fmupd i (i, v, draw (h_cfg h) (h_drawn h)) (shape (h_nodes h))"
    "h_cfg h' = h_cfg h" "h_drawn h' = Suc (h_drawn h)" "place sorted_list_of_set draw i v h = Done h'"
proof -
  let ?level = "draw (h_cfg h) (h_drawn h)"
  define n where "n = \<lparr>hn_id = i, hn_v = v, hn_level = ?level, hn_neighbors = fmempty\<rparr>"
  define ns where "ns = fmupd i n (h_nodes h)"
  have n: "hn_id n = i" "hn_neighbors n = fmempty" by (simp_all add: n_def)
  note fresh = fresh_node_linked[OF ok i(2) n, folded ns_def]
  have nodes: "nodes_ok (h_cfg h) ns"
    using ok i(1) v lv by (auto simp: hnsw_ok_def nodes_ok_def ns_def n_def h_validate_def)
  have sh: "shape ns = fmupd i (i, v, ?level) (shape (h_nodes h))"
    by (rule fmap_ext) (auto simp: shape_lookup ns_def n_def)
  have entry: "entry_ok (h_nodes h) (h_entry h, h_max_level h)" using ok by (simp add: hnsw_ok_def)
  show ?thesis
  proof (cases "fmdom (h_nodes h) = {||}")
    case True
    let ?h = "h\<lparr>h_drawn := h_drawn h + 1, h_nodes := ns, h_entry := i, h_max_level := ?level\<rparr>"
    have "h_nodes h = fmempty" using True by (metis fmap_ext fmdom_notD fmempty_lookup fempty_iff)
    then have "entry_ok ns (i, ?level)" by (auto simp: entry_ok_def ns_def n_def split: if_splits)
    then have "hnsw_ok ?h" using ok fresh(1,2) nodes by (simp add: hnsw_ok_def)
    moreover have "place it draw i v h = Done ?h" for it
      using True by (simp add: place_def Let_def ns_def n_def)
    ultimately show ?thesis using that[of ?h] sh by simp
  next
    case False
    then have old: "\<forall>j n'. fmlookup (h_nodes h) j = Some n' \<longrightarrow> hn_level n' \<le> h_max_level h"
      and "\<exists>n'. fmlookup (h_nodes h) (h_entry h) = Some n' \<and> hn_level n' = h_max_level h"
      using entry by (auto simp: entry_ok_def)
    then obtain n0 where n0: "fmlookup (h_nodes h) (h_entry h) = Some n0" "hn_level n0 = h_max_level h" by blast
    have "on_level ns i (min ?level (h_max_level h))" by (simp add: on_level_def ns_def n_def)
    from connect_levels_effect[OF sorted_set_any_order hnsw_okD(2)[OF ok] fresh(1,2) this fresh(3)]
    obtain ns' where ns': "connect_levels sorted_list_of_set (h_cfg h) i v (min ?level (h_max_level h)) ns = Some ns'"
      "shape ns' = shape ns" "well_linked {} ns'" "bounded (cf_m (h_cfg h)) ns'" by blast
    define h' where "h' = (let h2 = h\<lparr>h_drawn := h_drawn h + 1, h_nodes := ns'\<rparr>
      in if h_max_level h < ?level then h2\<lparr>h_entry := i, h_max_level := ?level\<rparr> else h2)"
    have run: "place it draw i v h = Done h'" if "any_order it" for it
      using False ns'(1) connect_levels_order[OF that] by (simp add: place_def Let_def h'_def ns_def n_def)
    have "entry_ok ns (h_entry h', h_max_level h')"
      using old n0 i(2) dom_nonempty[of ns i n] unfolding entry_ok_def
      by (force simp: h'_def Let_def ns_def n_def)
    then have "hnsw_ok h'"
      using ok ns'(3,4) nodes shape_nodes_ok[OF ns'(2)] shape_entry_ok[OF ns'(2)] by (auto simp: hnsw_ok_def h'_def Let_def)
    then show ?thesis
      using that[of h'] run[OF it] run[OF sorted_set_any_order] sh ns'(2) by (simp add: h'_def Let_def)
  qed
qed

end
