(* ===== verification/Hnsw_Properties.thy ===== *)
theory Hnsw_Properties
  imports Hnsw_Index
begin

section \<open>What the index promises\<close>

text \<open>
  The index as its callers see it: a finite map from IDs to vectors (\<open>vectors\<close>), searched by distance.
  Every statement holds for all iteration orders \<open>it\<close> and \<open>lv\<close> and for every generator with
  \<open>fair_levels\<close>: \<open>- log u / log M\<close> is not negative for \<open>u\<close> in the unit interval and \<open>M\<close> at least two.
  \<open>single_link_index_is_blind\<close> shows what happens for \<open>M\<close> = 1, where \<open>log M\<close> is zero.
\<close>

definition fair_levels :: "(hnsw_config \<Rightarrow> nat \<Rightarrow> int) \<Rightarrow> bool" where
  "fair_levels draw \<longleftrightarrow> (\<forall>c n. 2 \<le> cf_m c \<longrightarrow> 0 \<le> draw c n)"

definition vectors :: "hnsw \<Rightarrow> (bytes, vec) fmap" where
  "vectors h = fmmap hn_v (h_nodes h)"

lemma vectors_shape: "vectors h = fmmap (\<lambda>x. fst (snd x)) (shape (h_nodes h))"
  by (rule fmap_ext) (simp add: vectors_def shape_lookup option.map_comp o_def)

lemma insert_effect:
  assumes "hnsw_ok h" "i \<noteq> []" "h_validate h v = None" "fair_levels draw" "2 \<le> cf_m (h_cfg h)" "any_order it" "any_order lv"
  obtains h' where "h_insert it lv draw i v h = Done h'" "hnsw_ok h'" "vectors h' = fmupd i v (vectors h)" "h_cfg h' = h_cfg h"
    "h_insert sorted_list_of_set sorted_list_of_set draw i v h = Done h'"
proof -
  have lv: "0 \<le> draw (h_cfg h) n" for n using assms(4,5) by (simp add: fair_levels_def)
  show ?thesis
  proof (cases "fmlookup (h_nodes h) i")
    case None
    from place_effect[where draw=draw and it=it, OF assms(1,2) None assms(3) lv assms(6)] obtain h' where h':
      "place it draw i v h = Done h'" "hnsw_ok h'"
      "shape (h_nodes h') = fmupd i (i, v, draw (h_cfg h) (h_drawn h)) (shape (h_nodes h))" "h_cfg h' = h_cfg h"
      "place sorted_list_of_set draw i v h = Done h'" by blast
    have "vectors h' = fmupd i v (vectors h)"
      by (rule fmap_ext) (simp add: vectors_shape h'(3))
    then show ?thesis using that[of h'] h' assms(2,3) None by (simp add: h_insert_def)
  next
    case (Some n)
    then have "fmlookup (h_nodes h) i \<noteq> None" by simp
    from h_delete_effect[OF assms(1) this assms(6,7)] obtain h1 where h1: "h_delete it lv i h = Done h1" "hnsw_ok h1"
      "shape (h_nodes h1) = fmdrop i (shape (h_nodes h))" "h_cfg h1 = h_cfg h"
      "h_delete sorted_list_of_set sorted_list_of_set i h = Done h1" by blast
    have gone: "fmlookup (h_nodes h1) i = None"
      using h1(3) shape_lookup[of "h_nodes h1" i] by simp
    have v: "h_validate h1 v = None" "0 \<le> draw (h_cfg h1) (h_drawn h1)" using assms(3) lv h1(4) by (simp_all add: h_validate_def)
    from place_effect[where draw=draw and it=it, OF h1(2) assms(2) gone v assms(6)] obtain h' where h':
      "place it draw i v h1 = Done h'" "hnsw_ok h'"
      "shape (h_nodes h') = fmupd i (i, v, draw (h_cfg h1) (h_drawn h1)) (shape (h_nodes h1))" "h_cfg h' = h_cfg h1"
      "place sorted_list_of_set draw i v h1 = Done h'" by blast
    have "vectors h' = fmupd i v (vectors h)"
      by (rule fmap_ext) (simp add: vectors_shape h'(3) h1(3))
    then show ?thesis
      using that[of h'] h' h1 Some assms(2,3) by (simp add: h_insert_def)
  qed
qed

lemma delete_effect:
  assumes "hnsw_ok h" "fmlookup (vectors h) i \<noteq> None" "any_order it" "any_order lv"
  obtains h' where "h_delete it lv i h = Done h'" "hnsw_ok h'" "vectors h' = fmdrop i (vectors h)" "h_cfg h' = h_cfg h"
    "h_delete sorted_list_of_set sorted_list_of_set i h = Done h'"
proof -
  have "fmlookup (h_nodes h) i \<noteq> None" using assms(2) by (auto simp: vectors_def)
  from h_delete_effect[OF assms(1) this assms(3,4)] obtain h' where "h_delete it lv i h = Done h'" "hnsw_ok h'"
    "shape (h_nodes h') = fmdrop i (shape (h_nodes h))" "h_cfg h' = h_cfg h"
    "h_delete sorted_list_of_set sorted_list_of_set i h = Done h'" by blast
  moreover from this(3) have "vectors h' = fmdrop i (vectors h)"
    by (auto simp: vectors_shape intro!: fmap_ext)
  ultimately show ?thesis using that by blast
qed

subsection \<open>A small graph for the witnesses\<close>

definition demo_cfg :: hnsw_config where
  "demo_cfg = \<lparr>cf_dimension = 2, cf_m = 2, cf_ef_construction = 4, cf_ef_search = 4, cf_seed = 7\<rparr>"

definition demo_put :: "byte \<Rightarrow> int \<Rightarrow> int \<Rightarrow> hnsw \<Rightarrow> hnsw" where
  "demo_put i x y h = (case h_insert sorted_list_of_set sorted_list_of_set (\<lambda>c n. if n = 2 then 1 else 0) [i] [f32_of_int x, f32_of_int y] h of
     Done h' \<Rightarrow> h' | _ \<Rightarrow> h)"

definition demo3 :: hnsw where
  "demo3 = demo_put 3 0 (- 2) (demo_put 2 0 2 (demo_put 1 0 0
     \<lparr>h_cfg = demo_cfg, h_drawn = 0, h_nodes = fmempty, h_entry = [], h_max_level = - 1\<rparr>))"

definition demo :: hnsw where
  "demo = demo_put 4 3 0 demo3"

lemma demo_put_ok:
  assumes "hnsw_ok h \<and> h_cfg h = demo_cfg"
  shows "hnsw_ok (demo_put i x y h) \<and> h_cfg (demo_put i x y h) = demo_cfg"
proof -
  let ?draw = "\<lambda>c n. if n = 2 then 1 else 0 :: int"
  have v: "h_validate h [f32_of_int x, f32_of_int y] = None"
    using assms by (simp add: h_validate_def validate_dimension_def demo_cfg_def f32_of_int_def)
  have i: "[i] \<noteq> []" and lv: "fair_levels ?draw" "2 \<le> cf_m (h_cfg h)"
    using assms by (simp_all add: fair_levels_def demo_cfg_def)
  from insert_effect[OF conjunct1[OF assms] i v lv sorted_set_any_order sorted_set_any_order]
  obtain h' where "h_insert sorted_list_of_set sorted_list_of_set ?draw [i] [f32_of_int x, f32_of_int y] h = Done h'"
    "hnsw_ok h'" "h_cfg h' = h_cfg h" by blast
  then show ?thesis using assms by (simp add: demo_put_def)
qed

lemma demo3_ok: "hnsw_ok demo3 \<and> h_cfg demo3 = demo_cfg"
proof -
  let ?h = "\<lparr>h_cfg = demo_cfg, h_drawn = 0, h_nodes = fmempty, h_entry = [], h_max_level = - 1\<rparr>"
  have "new_hnsw demo_cfg = Inr ?h" by (simp add: new_hnsw_def demo_cfg_def)
  then have "hnsw_ok ?h \<and> h_cfg ?h = demo_cfg" using new_hnsw_ok by auto
  then show ?thesis unfolding demo3_def by (intro demo_put_ok)
qed

lemma demo_ok: "hnsw_ok demo \<and> h_cfg demo = demo_cfg"
  unfolding demo_def using demo3_ok by (rule demo_put_ok)

subsection \<open>Operations\<close>

text \<open>
  C3: The index implements a map from IDs to vectors. On every index the operations can build, for every
  order in which Go walks the maps, \<open>Insert\<close> of a valid vector under a non-empty ID neither fails nor
  panics, also when it replaces a vector, and puts exactly this vector into the map; \<open>Delete\<close> of a stored
  ID removes exactly this ID. Both keep the invariant of the graph.
\<close>
theorem index_is_a_map:
  assumes "hnsw_ok h" "any_order it" "any_order lv"
  shows "(i \<noteq> [] \<and> h_validate h v = None \<and> fair_levels draw \<and> 2 \<le> cf_m (h_cfg h) \<longrightarrow>
      (\<exists>h'. h_insert it lv draw i v h = Done h' \<and> hnsw_ok h' \<and> vectors h' = fmupd i v (vectors h))) \<and>
    (fmlookup (vectors h) i \<noteq> None \<longrightarrow>
      (\<exists>h'. h_delete it lv i h = Done h' \<and> hnsw_ok h' \<and> vectors h' = fmdrop i (vectors h)))"
  using insert_effect[OF assms(1) _ _ _ _ assms(2,3), of i v draw] delete_effect[OF assms(1) _ assms(2,3), of i] by blast

theorem index_is_a_map_witness:
  "(\<exists>h. h_insert sorted_list_of_set sorted_list_of_set (\<lambda>c n. 0) [1] [f32_of_int 7, f32_of_int 7] demo = Done h \<and>
      hnsw_ok h \<and> vectors h = fmupd [1] [f32_of_int 7, f32_of_int 7] (vectors demo)) \<and>
   (\<exists>h. h_delete sorted_list_of_set sorted_list_of_set [1] demo = Done h \<and> hnsw_ok h \<and> vectors h = fmdrop [1] (vectors demo))"
proof -
  have "h_validate demo [f32_of_int 7, f32_of_int 7] = None" by code_simp
  moreover have "fmlookup (vectors demo) [1] \<noteq> None" by code_simp
  ultimately show ?thesis
    using index_is_a_map[of demo sorted_list_of_set sorted_list_of_set "[1]" "[f32_of_int 7, f32_of_int 7]" "\<lambda>c n. 0"]
      demo_ok by (simp add: fair_levels_def demo_cfg_def sorted_set_any_order)
qed

text \<open>
  C35: The order in which Go happens to walk its maps never shows: on every index the operations can build,
  \<open>Insert\<close> and \<open>Delete\<close> with any two pairs of orders leave the very same graph, links, entry and
  generator included, and fail in the same cases. This is what lets the replicas build equal graphs.
\<close>
theorem map_order_never_shows:
  assumes "hnsw_ok h" "any_order it" "any_order lv" "any_order it'" "any_order lv'" "fair_levels draw" "2 \<le> cf_m (h_cfg h)"
  shows "h_insert it lv draw i v h = h_insert it' lv' draw i v h \<and> h_delete it lv i h = h_delete it' lv' i h"
proof
  show "h_insert it lv draw i v h = h_insert it' lv' draw i v h"
  proof (cases "i = [] \<or> h_validate h v \<noteq> None")
    case True
    then show ?thesis by (auto simp: h_insert_def)
  next
    case False
    then have iv: "i \<noteq> []" "h_validate h v = None" by auto
    show ?thesis
      using insert_effect[where draw=draw, OF assms(1) iv assms(6,7,2,3)]
        insert_effect[where draw=draw, OF assms(1) iv assms(6,7,4,5)] by metis
  qed
  show "h_delete it lv i h = h_delete it' lv' i h"
  proof (cases "fmlookup (vectors h) i")
    case None
    then have "fmlookup (h_nodes h) i = None" by (simp add: vectors_def)
    then show ?thesis by (simp add: h_delete_missing)
  next
    case (Some v)
    then have "fmlookup (vectors h) i \<noteq> None" by simp
    from delete_effect[OF assms(1) this assms(2,3)] delete_effect[OF assms(1) this assms(4,5)]
    show ?thesis by metis
  qed
qed

definition backwards :: "'k::linorder walk" where
  "backwards S = rev (sorted_list_of_set S)"

lemma backwards_any_order: "any_order backwards"
  by (simp add: any_order_def backwards_def)

theorem map_order_never_shows_witness:
  "h_insert sorted_list_of_set sorted_list_of_set (\<lambda>c n. 0) [1] [] demo = h_insert backwards backwards (\<lambda>c n. 0) [1] [] demo \<and>
   h_delete sorted_list_of_set sorted_list_of_set [1] demo = h_delete backwards backwards [1] demo"
  by (rule map_order_never_shows)
    (simp_all add: demo_ok backwards_any_order sorted_set_any_order fair_levels_def, simp add: demo_cfg_def)

subsection \<open>Searches\<close>

lemma valid_query_comparable: "hnsw_ok h \<Longrightarrow> h_validate h q = None \<Longrightarrow> comparable (h_nodes h) q"
  unfolding comparable_def
proof (intro allI impI)
  fix i n
  assume "hnsw_ok h" "h_validate h q = None" "fmlookup (h_nodes h) i = Some n"
  then have "validate_dimension (cf_dimension (h_cfg h)) q = None" "validate_dimension (cf_dimension (h_cfg h)) (hn_v n) = None"
    by (auto simp: hnsw_ok_def nodes_ok_def h_validate_def)
  from l2_squared_valid(1)[OF this] show "l2_squared q (hn_v n) \<noteq> Nan" by (simp add: distance_like_def)
qed

definition search_width :: "hnsw \<Rightarrow> int \<Rightarrow> nat" where
  \<comment> \<open>how many candidates the bottom level tracks\<close>
  "search_width h ef = nat (if ef \<le> 0 then cf_ef_search (h_cfg h) else ef)"

lemma search_effect:
  assumes "hnsw_ok h" "h_validate h q = None" "0 < k" "fmdom (h_nodes h) \<noteq> {||}"
  obtains e rs where "h_search q k ef h = Done (take (nat k) rs)" "fmlookup (h_nodes h) e \<noteq> None"
    "layer_spec (h_nodes h) q e 0 (search_width h ef) rs"
proof -
  have "fmlookup (h_nodes h) (h_entry h) \<noteq> None"
    using assms(1,4) by (auto simp: hnsw_ok_def entry_ok_def split: if_splits)
  from h_search_spec[OF assms(2) valid_query_comparable[OF assms(1,2)] this assms(3) hnsw_okD(4)[OF assms(1)], of ef]
  show ?thesis using that by (auto simp: search_width_def)
qed

text \<open>
  C37: \<open>Insert\<close>, \<open>Delete\<close> and \<open>Search\<close> never panic on an index the operations can build, they fail in
  exactly the documented cases (empty ID or vector of the wrong form; missing ID; query of the wrong form
  or \<open>k\<close> not positive), and a failing call leaves the index as it was.
\<close>
theorem calls_fail_as_documented:
  assumes "hnsw_ok h" "any_order it" "any_order lv" "fair_levels draw" "2 \<le> cf_m (h_cfg h)"
  shows "(case h_insert it lv draw i v h of Panic \<Rightarrow> False | Done h' \<Rightarrow> i \<noteq> [] \<and> h_validate h v = None
      | Failed e h' \<Rightarrow> (i = [] \<or> h_validate h v \<noteq> None) \<and> h' = h) \<and>
    (case h_delete it lv i h of Panic \<Rightarrow> False | Done h' \<Rightarrow> fmlookup (vectors h) i \<noteq> None
      | Failed e h' \<Rightarrow> fmlookup (vectors h) i = None \<and> h' = h) \<and>
    (case h_search v k ef h of Panic \<Rightarrow> False | Done rs \<Rightarrow> h_validate h v = None \<and> 0 < k
      | Failed e rs \<Rightarrow> (h_validate h v \<noteq> None \<or> k \<le> 0) \<and> rs = [])"
proof (intro conjI)
  show "case h_insert it lv draw i v h of Panic \<Rightarrow> False | Done h' \<Rightarrow> i \<noteq> [] \<and> h_validate h v = None
      | Failed e h' \<Rightarrow> (i = [] \<or> h_validate h v \<noteq> None) \<and> h' = h"
  proof (cases "i = [] \<or> h_validate h v \<noteq> None")
    case True
    then show ?thesis by (auto simp: h_insert_def)
  next
    case False
    then have iv: "i \<noteq> []" "h_validate h v = None" by auto
    from insert_effect[where draw=draw, OF assms(1) iv assms(4,5,2,3)]
    obtain h' where "h_insert it lv draw i v h = Done h'" by blast
    then show ?thesis using iv by simp
  qed
  show "case h_delete it lv i h of Panic \<Rightarrow> False | Done h' \<Rightarrow> fmlookup (vectors h) i \<noteq> None
      | Failed e h' \<Rightarrow> fmlookup (vectors h) i = None \<and> h' = h"
  proof (cases "fmlookup (vectors h) i")
    case None
    then show ?thesis by (simp add: h_delete_missing vectors_def)
  next
    case (Some x)
    then have "fmlookup (vectors h) i \<noteq> None" by simp
    from delete_effect[OF assms(1) this assms(2,3)] obtain h' where "h_delete it lv i h = Done h'" by blast
    then show ?thesis using Some by simp
  qed
  show "case h_search v k ef h of Panic \<Rightarrow> False | Done rs \<Rightarrow> h_validate h v = None \<and> 0 < k
      | Failed e rs \<Rightarrow> (h_validate h v \<noteq> None \<or> k \<le> 0) \<and> rs = []"
  proof (cases "h_validate h v = None \<and> 0 < k \<and> fmdom (h_nodes h) \<noteq> {||}")
    case True
    then obtain e rs where "h_search v k ef h = Done (take (nat k) rs)"
      using search_effect[OF assms(1), of v k ef] by blast
    then show ?thesis using True by simp
  next
    case False
    then show ?thesis by (auto simp: h_search_def Let_def split: option.splits)
  qed
qed

theorem calls_fail_as_documented_witness:
  "(case h_delete sorted_list_of_set sorted_list_of_set [9] demo of Failed e h \<Rightarrow> h = demo | _ \<Rightarrow> False) \<and>
   (case h_search [] 1 0 demo of Failed e rs \<Rightarrow> rs = [] | _ \<Rightarrow> False)"
proof -
  have "fmlookup (vectors demo) [9] = None" "h_validate demo [] \<noteq> None" by code_simp+
  moreover have "fair_levels (\<lambda>c n. 0)" "2 \<le> cf_m (h_cfg demo)" by (simp_all add: fair_levels_def demo_ok demo_cfg_def)
  ultimately show ?thesis
    using calls_fail_as_documented[OF conjunct1[OF demo_ok] sorted_set_any_order sorted_set_any_order, of "\<lambda>c n. 0" "[9]" "[]" 1 0]
    by (auto split: outcome.splits)
qed


lemma search_hits:
  assumes "hnsw_ok h" "h_validate h q = None" "0 < k"
  shows "\<exists>rs. h_search q k ef h = Done rs \<and> length rs \<le> min (nat k) (search_width h ef) \<and>
    ranked rs \<and> distinct (map r_id rs) \<and>
    (\<forall>r \<in> set rs. \<exists>v. fmlookup (vectors h) (r_id r) = Some v \<and> r_distance r = l2_squared q v) \<and>
    (rs = [] \<longleftrightarrow> fmdom (vectors h) = {||})"
proof (cases "fmdom (h_nodes h) = {||}")
  case True
  then show ?thesis using assms(2,3) by (simp add: h_search_def Let_def vectors_def ranked_def)
next
  case False
  from search_effect[OF assms False, of ef] obtain e rs where run: "h_search q k ef h = Done (take (nat k) rs)"
    and rs: "layer_spec (h_nodes h) q e 0 (search_width h ef) rs" by blast
  have "\<exists>v. fmlookup (vectors h) (r_id r) = Some v \<and> r_distance r = l2_squared q v" if "r \<in> set rs" for r
  proof -
    have "r = result_of (h_nodes h) q (r_id r)" "fmlookup (h_nodes h) (r_id r) \<noteq> None"
      using rs that by (auto simp: layer_spec_def)
    then show ?thesis by (metis (mono_tags) fmlookup_map option.collapse option.simps(9) result.select_convs(2) result_of_def vectors_def)
  qed
  then have "\<forall>r \<in> set (take (nat k) rs). \<exists>v. fmlookup (vectors h) (r_id r) = Some v \<and> r_distance r = l2_squared q v"
    by (meson in_set_takeD)
  moreover have "take (nat k) rs \<noteq> []" using rs \<open>0 < k\<close> by (simp add: layer_spec_def)
  moreover have "length rs \<le> search_width h ef" using rs by (simp add: layer_spec_def)
  then have "length (take (nat k) rs) \<le> min (nat k) (search_width h ef)" by simp
  moreover have "distinct (map r_id (take (nat k) rs))" using rs by (simp add: layer_spec_def flip: take_map)
  ultimately show ?thesis
    using run rs False by (simp add: ranked_take layer_spec_def vectors_def)
qed

text \<open>
  C36: A search of an index the operations can build always returns: with at most \<open>k\<close> hits, at most as many
  as the search width, closest first with ties by ID, no ID twice, each with the exact distance of the
  vector stored under it; and with at least one hit unless the index is empty.
\<close>
theorem search_returns_ranked_hits:
  assumes "hnsw_ok h" "h_validate h q = None" "0 < k"
  shows "\<exists>rs. h_search q k ef h = Done rs \<and> length rs \<le> min (nat k) (search_width h ef) \<and>
    ranked rs \<and> distinct (map r_id rs) \<and>
    (\<forall>r \<in> set rs. \<exists>v. fmlookup (vectors h) (r_id r) = Some v \<and> r_distance r = l2_squared q v) \<and>
    (rs = [] \<longleftrightarrow> fmdom (vectors h) = {||})"
  by (rule search_hits[OF assms])

definition demo_query :: vec where
  "demo_query = [f32_of_int 2, f32_of_int 1]"

lemma demo_query_ok: "h_validate demo demo_query = None"
  by code_simp

theorem search_returns_ranked_hits_witness:
  "\<exists>rs. h_search demo_query 3 0 demo = Done rs \<and> length rs \<le> min (nat 3) (search_width demo 0) \<and>
    ranked rs \<and> distinct (map r_id rs) \<and>
    (\<forall>r \<in> set rs. \<exists>v. fmlookup (vectors demo) (r_id r) = Some v \<and> r_distance r = l2_squared demo_query v) \<and>
    (rs = [] \<longleftrightarrow> fmdom (vectors demo) = {||})"
  by (rule search_returns_ranked_hits) (simp_all add: demo_ok demo_query_ok)

text \<open>
  C7: Searches are locally optimal. The hits are the first \<open>k\<close> of a list that starts at a node of the index
  and is closed under the links of the bottom level: a node linked from a node of the list is in the
  list itself, or the list has the full search width and the node is no closer than its last entry.
\<close>
theorem search_is_locally_optimal:
  assumes "hnsw_ok h" "h_validate h q = None" "0 < k" "fmdom (h_nodes h) \<noteq> {||}"
  shows "\<exists>e rs. h_search q k ef h = Done (take (nat k) rs) \<and> ranked rs \<and> fmlookup (h_nodes h) e \<noteq> None \<and>
    (\<forall>i \<in> insert e (edges (h_nodes h) 0 `` (r_id ` set rs)). result_of (h_nodes h) q i \<in> set rs \<or>
       length rs = search_width h ef \<and> r_distance (last rs) \<le> r_distance (result_of (h_nodes h) q i))"
proof -
  from search_effect[OF assms, of ef] obtain e rs where "h_search q k ef h = Done (take (nat k) rs)"
    "fmlookup (h_nodes h) e \<noteq> None" "layer_spec (h_nodes h) q e 0 (search_width h ef) rs" by blast
  then show ?thesis unfolding layer_spec_def by blast
qed

theorem search_is_locally_optimal_witness:
  "\<exists>e rs. h_search demo_query 1 2 demo = Done (take (nat 1) rs) \<and> ranked rs \<and> fmlookup (h_nodes demo) e \<noteq> None \<and>
    (\<forall>i \<in> insert e (edges (h_nodes demo) 0 `` (r_id ` set rs)). result_of (h_nodes demo) demo_query i \<in> set rs \<or>
       length rs = search_width demo 2 \<and> r_distance (last rs) \<le> r_distance (result_of (h_nodes demo) demo_query i))"
proof -
  have "fmlookup (h_nodes demo) [1] \<noteq> None" by code_simp
  then obtain n where "fmlookup (h_nodes demo) [1] = Some n" by blast
  from search_is_locally_optimal[OF conjunct1[OF demo_ok] demo_query_ok zero_less_one dom_nonempty[OF this]]
  show ?thesis .
qed

text \<open>
  C34: Where the bottom level is connected and the search width is at least the number of vectors, the
  approximate search is exact: it returns what comparing the query with every vector and sorting
  would return, cut to \<open>k\<close>.
\<close>
theorem wide_search_is_exact:
  assumes "hnsw_ok h" "h_validate h q = None" "0 < k" "fcard (fmdom (h_nodes h)) \<le> search_width h ef"
    and connected: "\<And>i j. fmlookup (h_nodes h) i \<noteq> None \<Longrightarrow> fmlookup (h_nodes h) j \<noteq> None \<Longrightarrow> (i, j) \<in> (edges (h_nodes h) 0)\<^sup>*"
  shows "h_search q k ef h = Done (take (nat k) (all_results (h_nodes h) q))"
proof (cases "fmdom (h_nodes h) = {||}")
  case True
  then show ?thesis using assms(2,3) by (simp add: h_search_def Let_def all_results_def sorted_list_of_fset.rep_eq)
next
  case False
  from search_effect[OF assms(1-3) False, of ef] obtain e rs where run: "h_search q k ef h = Done (take (nat k) rs)"
    and e: "fmlookup (h_nodes h) e \<noteq> None" and rs: "layer_spec (h_nodes h) q e 0 (search_width h ef) rs" by blast
  have "(edges (h_nodes h) 0)\<^sup>* `` {e} = fset (fmdom (h_nodes h))"
  proof
    show "(edges (h_nodes h) 0)\<^sup>* `` {e} \<subseteq> fset (fmdom (h_nodes h))"
      using e by (auto elim: rtranclE simp: edges_def fmlookup_dom_iff)
    show "fset (fmdom (h_nodes h)) \<subseteq> (edges (h_nodes h) 0)\<^sup>* `` {e}"
      using connected[OF e] by (auto simp: fmlookup_dom_iff)
  qed
  from layer_spec_exact[OF rs assms(4) this] run show ?thesis by simp
qed

lemma edges_iff: "(i, j) \<in> edges ns l \<longleftrightarrow> j \<in> set (links_at ns i l) \<and> fmlookup ns j \<noteq> None"
  by (cases "fmlookup ns i") (auto simp: edges_def links_at_def)

lemma hub_connected:
  assumes "\<And>i. fmlookup ns i \<noteq> None \<Longrightarrow> i = c \<or> (i, c) \<in> edges ns l \<and> (c, i) \<in> edges ns l"
    and "fmlookup ns i \<noteq> None" "fmlookup ns j \<noteq> None"
  shows "(i, j) \<in> (edges ns l)\<^sup>*"
proof -
  have "(i, c) \<in> (edges ns l)\<^sup>*" "(c, j) \<in> (edges ns l)\<^sup>*" using assms by blast+
  then show ?thesis by (rule rtrancl_trans)
qed

theorem wide_search_is_exact_witness:
  "h_search demo_query 2 3 demo3 = Done (take (nat 2) (all_results (h_nodes demo3) demo_query))"
proof (rule wide_search_is_exact)
  show "hnsw_ok demo3" by (simp add: demo3_ok)
  show "h_validate demo3 demo_query = None" by code_simp
  have dom: "fmdom (h_nodes demo3) = {|[1], [2], [3]|}" by code_simp
  show "fcard (fmdom (h_nodes demo3)) \<le> search_width demo3 3" unfolding dom
    by (simp add: search_width_def fcard_finsert_if)
  have "\<forall>i \<in> {[1], [2], [3]}. i = [1] \<or> [1] \<in> set (links_at (h_nodes demo3) i 0) \<and> i \<in> set (links_at (h_nodes demo3) [1] 0)"
    by code_simp
  moreover have "fmlookup (h_nodes demo3) i \<noteq> None \<longleftrightarrow> i \<in> {[1], [2], [3]}" for i
    using arg_cong[OF dom, of "\<lambda>S. i |\<in>| S"] by (simp add: fmlookup_dom_iff)
  ultimately show "(i, j) \<in> (edges (h_nodes demo3) 0)\<^sup>*"
    if "fmlookup (h_nodes demo3) i \<noteq> None" "fmlookup (h_nodes demo3) j \<noteq> None" for i j
    using that by (intro hub_connected[of _ "[1]"]) (auto simp: edges_iff)
qed simp

subsection \<open>Two consequences of the code\<close>

text \<open>
  \<open>Delete\<close> repairs a node without looking at the list of the neighbour it links to: when the link already
  exists in that direction the neighbour gets it twice, and the duplicate takes one of its \<open>M\<close> places.
\<close>

lemma delete_repeats_a_link:
  "case h_delete sorted_list_of_set sorted_list_of_set [3] demo of
     Done h \<Rightarrow> links_at (h_nodes h) [4] 0 = [[1], [1]] | _ \<Rightarrow> False"
  by code_simp

text \<open>
  \<open>NewHNSW\<close> accepts \<open>M\<close> = 1. Every level is then \<open>int(+Inf)\<close>, which is the smallest integer on amd64: no
  node appears on any level, nothing is linked, and a search only ever finds the first vector.
\<close>

lemma single_link_index_is_blind:
  "let c = \<lparr>cf_dimension = 1, cf_m = 1, cf_ef_construction = 4, cf_ef_search = 4, cf_seed = 7\<rparr>;
       put = (\<lambda>i x h. case h_insert sorted_list_of_set sorted_list_of_set (\<lambda>c n. - (2 ^ 63)) [i] [f32_of_int x] h of Done h' \<Rightarrow> h' | _ \<Rightarrow> h)
   in case new_hnsw c of Inl e \<Rightarrow> False
     | Inr h \<Rightarrow> h_search [f32_of_int 3] 3 10 (put 3 3 (put 2 2 (put 1 1 h))) = Done [\<lparr>r_id = [1], r_distance = f32_of_int 4\<rparr>]"
  by code_simp

end
