(* ===== verification/Float_Text.thy ===== *)
theory Float_Text
  imports Float32 Go_Json
begin

section \<open>float32 values in JSON\<close>

text \<open>
  \<open>encoding/json\<close> writes a \<open>float32\<close> with the fewest decimal digits that read back as the same value, in
  exponent form below 1e-6 and from 1e21 on; \<open>ParseFloat\<close> reads a literal as the nearest value and fails
  on overflow. A decimal is \<open>d * 10 ^ -p\<close>. \<open>shortest\<close> tries \<open>p\<close> from -38, where a value has at most one
  digit, to 149, where every value is exact. Of the candidates above and below, the closer one that
  reads back is taken, the even one on a tie. The model has a single zero; Go writes \<open>-0\<close> for the other.
\<close>

subsection \<open>Reading\<close>

definition round_quot :: "int \<Rightarrow> int \<Rightarrow> int" where
  \<comment> \<open>\<open>p / d\<close>, rounded to the nearest integer, ties to even\<close>
  "round_quot p d = (let q = p div d; r = p mod d in if 2 * r < d \<or> (2 * r = d \<and> even q) then q else q + 1)"

definition nearest :: "int \<Rightarrow> int \<Rightarrow> f32" where
  \<comment> \<open>the value nearest to \<open>num / den\<close>\<close>
  "nearest num den =
     (let x = num * 2 ^ 149; k = nat (bitlen (\<bar>x\<bar> div den) - 24); m = round_quot x (den * 2 ^ k) * 2 ^ k
      in if \<bar>m\<bar> \<ge> f32_limit then Inf (m < 0) else Fin m)"

definition of_decimal :: "int \<Rightarrow> int \<Rightarrow> f32" where
  \<comment> \<open>the value nearest to \<open>d * 10 ^ -p\<close>\<close>
  "of_decimal d p = (if 0 \<le> p then nearest d (10 ^ nat p) else nearest (d * 10 ^ nat (- p)) 1)"

definition split_sign :: "bytes \<Rightarrow> bool \<times> bytes" where
  "split_sign s = (case s of c # r \<Rightarrow> if c = 45 then (True, r) else if c = 43 then (False, r) else (False, s) | [] \<Rightarrow> (False, s))"

definition split_fraction :: "bytes \<Rightarrow> bytes \<times> bytes" where
  "split_fraction s = (case s of c # r \<Rightarrow> if c = 46 then (takeWhile is_digit r, dropWhile is_digit r) else ([], s) | [] \<Rightarrow> ([], s))"

definition read_exponent :: "bytes \<Rightarrow> int" where
  "read_exponent s = (case s of
     c # r \<Rightarrow> if c = 69 \<or> c = 101
             then (let (neg, ds) = split_sign r in if neg then - int (read_nat ds) else int (read_nat ds)) else 0
   | [] \<Rightarrow> 0)"

definition parse_float32 :: "bytes \<Rightarrow> f32 option" where
  \<comment> \<open>of a literal of the JSON grammar\<close>
  "parse_float32 lit =
     (let (neg, r) = split_sign lit; ip = takeWhile is_digit r; (fp, r2) = split_fraction (dropWhile is_digit r);
          x = of_decimal (int (read_nat (ip @ fp))) (int (length fp) - read_exponent r2)
      in if finite32 x then Some (if neg then f32_neg x else x) else None)"

fun decode_f32 :: "json \<Rightarrow> f32 \<Rightarrow> f32 option" where
  "decode_f32 JNull old = Some old"
| "decode_f32 (JNum lit) old = parse_float32 lit"
| "decode_f32 _ old = None"

subsection \<open>Writing\<close>

definition decimal_at :: "int \<Rightarrow> int \<Rightarrow> (int \<times> int) option" where
  \<comment> \<open>the best decimal with \<open>p\<close> places that reads back as \<open>Fin m\<close>\<close>
  "decimal_at m p =
     (let num = (if 0 \<le> p then m * 10 ^ nat p else m); den = (if 0 \<le> p then 2 ^ 149 else 2 ^ 149 * 10 ^ nat (- p));
          lo = num div den; near = round_quot num den; far = (if near = lo then lo + 1 else lo)
      in if of_decimal near p = Fin m then Some (near, p) else if of_decimal far p = Fin m then Some (far, p) else None)"

fun first_some :: "('a \<Rightarrow> 'b option) \<Rightarrow> 'a list \<Rightarrow> 'b option" where
  "first_some f [] = None"
| "first_some f (x # xs) = (case f x of None \<Rightarrow> first_some f xs | Some y \<Rightarrow> Some y)"

definition shortest :: "int \<Rightarrow> (int \<times> int) option" where
  "shortest m = first_some (decimal_at m) [-38..149]"

definition show_plain :: "nat \<Rightarrow> int \<Rightarrow> bytes" where
  \<comment> \<open>\<open>%f\<close> of \<open>d * 10 ^ -p\<close>\<close>
  "show_plain d p =
     (let ds = show_nat d; n = int (length ds) - p
      in if p \<le> 0 then ds @ replicate (nat (- p)) 48
         else if 0 < n then take (nat n) ds @ 46 # drop (nat n) ds
         else 48 # 46 # replicate (nat (- n)) 48 @ ds)"

definition show_scientific :: "nat \<Rightarrow> int \<Rightarrow> bytes" where
  \<comment> \<open>\<open>%e\<close>, with the exponent as encoding/json cleans it up\<close>
  "show_scientific d p =
     (let ds = show_nat d; x = int (length ds) - 1 - p
      in hd ds # (if tl ds = [] then [] else 46 # tl ds) @ 101 # (if x < 0 then 45 else 43) # show_nat (nat \<bar>x\<bar>))"

fun print_f32 :: "f32 \<Rightarrow> bytes option" where
  \<comment> \<open>\<open>None\<close>: Marshal fails\<close>
  "print_f32 (Fin m) =
     (if m = 0 then Some [48]
      else case shortest \<bar>m\<bar> of
        None \<Rightarrow> None
      | Some (d, p) \<Rightarrow>
          Some ((if m < 0 then [45] else []) @
            (if Fin \<bar>m\<bar> < nearest 1 (10 ^ 6) \<or> nearest (10 ^ 21) 1 \<le> Fin \<bar>m\<bar> then show_scientific (nat d) p
             else show_plain (nat d) p)))"
| "print_f32 _ = None"

subsection \<open>Decimals and values\<close>

definition representable :: "f32 \<Rightarrow> bool" where
  \<comment> \<open>a finite value of 32 bits\<close>
  "representable x \<longleftrightarrow> (\<exists>m. x = Fin m \<and> round32 0 m = Fin m)"

lemma round_quot_scale: "0 < c \<Longrightarrow> round_quot (p * c) (d * c) = round_quot p d"
proof -
  assume c: "0 < c"
  have e1: "p * c div (d * c) = p div d" using c by simp
  have e2: "p * c mod (d * c) = p mod d * c" by (simp add: mult_mod_left)
  have e3: "2 * (p mod d * c) < d * c \<longleftrightarrow> 2 * (p mod d) < d"
    using mult_less_cancel_right_pos[OF c, of "2 * (p mod d)" d] by (simp only: mult.assoc)
  have e4: "2 * (p mod d * c) = d * c \<longleftrightarrow> 2 * (p mod d) = d"
    using mult_right_cancel[of c "2 * (p mod d)" d] c by (simp only: mult.assoc)
  show ?thesis by (simp only: round_quot_def Let_def e1 e2 e3 e4)
qed

lemma round_quot_power: "round_quot p (2 ^ k) = round_shift p k"
  by (simp add: round_quot_def round_shift_def)

lemma nearest_scale:
  assumes "0 < c"
  shows "nearest (n * c) (d * c) = nearest n d"
proof -
  have "\<bar>n * c * 2 ^ 149\<bar> div (d * c) = \<bar>n * 2 ^ 149\<bar> div d"
    using assms by (simp only: abs_mult mult.assoc mult.commute[of c] div_mult_mult1 mult.left_commute[of c]) simp
  moreover have "round_quot (n * c * 2 ^ 149) (d * c * 2 ^ k) = round_quot (n * 2 ^ 149) (d * 2 ^ k)" for k
    using round_quot_scale[OF assms, of "n * 2 ^ 149" "d * 2 ^ k"] by (simp only: mult.assoc mult.commute[of c] mult.left_commute[of c])
  ultimately show ?thesis unfolding nearest_def Let_def by simp
qed

lemma nearest_exact:
  assumes "0 < d" "n * 2 ^ 149 = m * d"
  shows "nearest n d = round32 0 m"
proof -
  have "round_quot (m * d) (d * 2 ^ k) = round_shift m k" for k
    using round_quot_scale[OF assms(1), of m "2 ^ k"] by (simp only: round_quot_power mult.commute[of d])
  moreover have "\<bar>m * d\<bar> div d = \<bar>m\<bar>" using assms(1) by (simp add: abs_mult)
  ultimately show ?thesis
    unfolding nearest_def assms(2) Let_def round32_def by simp
qed

lemma of_decimal_scale:
  assumes "0 \<le> k"
  shows "of_decimal (d * 10 ^ nat k) (p + k) = of_decimal d p"
proof -
  consider "0 \<le> p" | "p < 0" "0 \<le> p + k" | "p + k < 0" by linarith
  then show ?thesis
  proof cases
    case 1
    then have "(10 :: int) ^ nat (p + k) = 10 ^ nat p * 10 ^ nat k" using assms by (simp add: nat_add_distrib power_add)
    then show ?thesis using 1 assms nearest_scale[of "10 ^ nat k" d "10 ^ nat p"] by (simp add: of_decimal_def)
  next
    case 2
    then have "nat k = nat (- p) + nat (p + k)" by simp
    then have "(10 :: int) ^ nat k = 10 ^ nat (- p) * 10 ^ nat (p + k)" by (simp only: power_add)
    then show ?thesis using 2 nearest_scale[of "10 ^ nat (p + k)" "d * 10 ^ nat (- p)" 1]
      by (simp add: of_decimal_def mult.assoc)
  next
    case 3
    then have "nat (- p) = nat k + nat (- (p + k))" using assms by simp
    then have "(10 :: int) ^ nat (- p) = 10 ^ nat k * 10 ^ nat (- (p + k))" by (simp only: power_add)
    then show ?thesis using 3 assms by (simp add: of_decimal_def mult.assoc)
  qed
qed

lemma of_decimal_zero: "of_decimal 0 p = Fin 0"
  using f32_limit_pos by (simp add: of_decimal_def nearest_def round_quot_def Let_def)

lemma first_some_Some:
  "first_some f xs = Some y \<Longrightarrow> \<exists>x \<in> set xs. f x = Some y"
  by (induction xs) (auto split: option.splits)

lemma first_some_exists: "x \<in> set xs \<Longrightarrow> f x \<noteq> None \<Longrightarrow> first_some f xs \<noteq> None"
  by (induction xs) (auto split: option.splits)

lemma round_quot_nonneg: "0 \<le> p \<Longrightarrow> 0 < d \<Longrightarrow> 0 \<le> round_quot p d"
  by (auto simp: round_quot_def Let_def pos_imp_zdiv_nonneg_iff add_nonneg_nonneg)

lemma shortest_spec:
  assumes "round32 0 m = Fin m" "0 < m"
  obtains d p where "shortest m = Some (d, p)" "of_decimal d p = Fin m" "0 < d"
proof -
  have at: "decimal_at m 149 \<noteq> None"
  proof -
    have "(10 :: int) = 5 * 2" by simp
    then have "(10 :: int) ^ nat 149 = 5 ^ 149 * 2 ^ 149" by (simp only: power_mult_distrib nat_numeral)
    then have eq: "m * 10 ^ nat 149 = (m * 5 ^ 149) * 2 ^ 149" by (simp only: mult.assoc)
    have quot: "round_quot (m * 10 ^ nat 149) (2 ^ 149) = m * 5 ^ 149"
      using round_quot_scale[of "2 ^ 149" "m * 5 ^ 149" 1] unfolding eq by (simp add: round_quot_def)
    have "(0 :: int) < 10 ^ nat 149" by (rule zero_less_power) simp
    from nearest_exact[OF this eq[symmetric]] have dec: "of_decimal (m * 5 ^ 149) 149 = Fin m"
      by (simp only: of_decimal_def zero_le_numeral if_True assms(1))
    have "decimal_at m 149 = Some (m * 5 ^ 149, 149)"
      by (simp only: decimal_at_def Let_def zero_le_numeral if_True quot dec simp_thms)
    then show ?thesis by simp
  qed
  have "149 \<in> set [-38..149 :: int]" by (simp only: set_upto) simp
  from first_some_exists[where f="decimal_at m", OF this at] have "shortest m \<noteq> None" unfolding shortest_def .
  then obtain d p where s: "shortest m = Some (d, p)" by auto
  from first_some_Some[OF s[unfolded shortest_def]] obtain q where q: "decimal_at m q = Some (d, p)" by (rule bexE)
  then have val: "of_decimal d p = Fin m" by (auto simp: decimal_at_def Let_def split: if_splits)
  have "0 \<le> d"
    using q assms(2)
    by (auto simp: decimal_at_def Let_def pos_imp_zdiv_nonneg_iff add_nonneg_nonneg round_quot_nonneg split: if_splits)
  moreover have "d \<noteq> 0" using val assms(2) of_decimal_zero[of p] by auto
  ultimately show ?thesis using that s val by simp
qed

subsection \<open>Reading back what was written\<close>

lemma digit_not: "is_digit c \<Longrightarrow> c \<noteq> 45 \<and> c \<noteq> 43 \<and> c \<noteq> 46 \<and> c \<noteq> 69 \<and> c \<noteq> 101"
  by (auto simp: is_digit_def)

lemma not_digit [simp]: "\<not> is_digit 46" "\<not> is_digit 101" "\<not> is_digit 45" "\<not> is_digit 43" "is_digit 48"
  by (simp_all add: is_digit_def)

definition exponent_text :: "bytes \<Rightarrow> int \<Rightarrow> bool" where
  "exponent_text ex x \<longleftrightarrow> ex = [] \<and> x = 0 \<or> ex = 101 # (if x < 0 then 45 else 43) # show_nat (nat \<bar>x\<bar>)"

lemma read_exponent_text: "exponent_text ex x \<Longrightarrow> read_exponent ex = x"
  by (auto simp: exponent_text_def read_exponent_def split_sign_def)

lemma takeWhile_digits: "list_all is_digit ds \<Longrightarrow> ex = [] \<or> \<not> is_digit (hd ex) \<Longrightarrow> takeWhile is_digit (ds @ ex) = ds"
  and dropWhile_digits: "list_all is_digit ds \<Longrightarrow> ex = [] \<or> \<not> is_digit (hd ex) \<Longrightarrow> dropWhile is_digit (ds @ ex) = ex"
  by (cases ex; auto simp: list_all_iff takeWhile_append dropWhile_append)+

lemma exponent_text_start: "exponent_text ex x \<Longrightarrow> ex = [] \<or> \<not> is_digit (hd ex)"
  by (auto simp: exponent_text_def)

lemma valid_exp_text: "exponent_text ex x \<Longrightarrow> valid_exp ex = Some []"
  using show_nat_digits[of "nat \<bar>x\<bar>"]
  by (cases "show_nat (nat \<bar>x\<bar>)") (auto simp: exponent_text_def valid_exp_def valid_digits_def dropWhile_all)

text \<open>A literal made of an integer part, a fraction and an exponent.\<close>

definition literal :: "bool \<Rightarrow> bytes \<Rightarrow> bytes \<Rightarrow> bytes \<Rightarrow> int \<Rightarrow> bytes \<Rightarrow> bool" where
  "literal neg ip fp ex x s \<longleftrightarrow> ip \<noteq> [] \<and> list_all is_digit ip \<and> (ip = [48] \<or> hd ip \<noteq> 48) \<and> list_all is_digit fp \<and>
     exponent_text ex x \<and> s = (if neg then [45] else []) @ ip @ (if fp = [] then [] else 46 # fp) @ ex"

lemma fraction_start:
  "exponent_text ex x \<Longrightarrow> (if fp = [] then [] else 46 # fp) @ ex = [] \<or> \<not> is_digit (hd ((if fp = [] then [] else 46 # fp) @ ex))"
  using exponent_text_start by auto

lemma literal_fraction:
  assumes "list_all is_digit fp" "exponent_text ex x"
  shows "split_fraction ((if fp = [] then [] else 46 # fp) @ ex) = (fp, ex)"
    and "valid_frac ((if fp = [] then [] else 46 # fp) @ ex) = Some ex"
proof -
  note ends = takeWhile_digits[OF assms(1) exponent_text_start[OF assms(2)]] dropWhile_digits[OF assms(1) exponent_text_start[OF assms(2)]]
  show "split_fraction ((if fp = [] then [] else 46 # fp) @ ex) = (fp, ex)"
    using assms(2) ends by (cases "fp = []") (auto simp: split_fraction_def exponent_text_def)
  show "valid_frac ((if fp = [] then [] else 46 # fp) @ ex) = Some ex"
    using assms ends by (cases fp) (auto simp: valid_frac_def valid_digits_def exponent_text_def)
qed

lemma literal_parsed:
  assumes "literal neg ip fp ex x s"
  shows "parse_float32 s = (let v = of_decimal (int (read_nat (ip @ fp))) (int (length fp) - x)
     in if finite32 v then Some (if neg then f32_neg v else v) else None)"
proof -
  let ?r = "(if fp = [] then [] else 46 # fp) @ ex"
  have L: "ip \<noteq> []" "list_all is_digit ip" "list_all is_digit fp" "exponent_text ex x" "s = (if neg then [45] else []) @ ip @ ?r"
    using assms by (auto simp: literal_def)
  have "split_sign s = (neg, ip @ ?r)"
    using L(1,2) digit_not[of "hd ip"] by (cases ip) (auto simp: L(5) split_sign_def)
  then show ?thesis
    unfolding parse_float32_def Let_def
    by (simp only: prod.case takeWhile_digits[OF L(2) fraction_start[OF L(4)]] dropWhile_digits[OF L(2) fraction_start[OF L(4)]]
        literal_fraction(1)[OF L(3,4)] read_exponent_text[OF L(4)])
qed

lemma literal_number:
  assumes "literal neg ip fp ex x s"
  shows "json_ok (JNum s)"
proof -
  let ?r = "(if fp = [] then [] else 46 # fp) @ ex"
  have L: "ip \<noteq> []" "list_all is_digit ip" "list_all is_digit fp" "exponent_text ex x" "s = (if neg then [45] else []) @ ip @ ?r"
    "ip = [48] \<or> hd ip \<noteq> 48"
    using assms by (auto simp: literal_def)
  obtain c cs where c: "ip = c # cs" "is_digit c" "list_all is_digit cs" using L(1,2) by (cases ip) auto
  have unsigned: "(case s of c # r \<Rightarrow> if c = 45 then r else s | [] \<Rightarrow> s) = ip @ ?r"
    using c digit_not[of c] by (auto simp: L(5))
  have int: "valid_int (ip @ ?r) = Some ?r"
    using L(6) c dropWhile_digits[OF c(3) fraction_start[OF L(4), of fp]] by auto
  have "valid_number s"
    unfolding valid_number_def unsigned int by (simp only: option.case literal_fraction(2)[OF L(3,4)] valid_exp_text[OF L(4)])
  moreover have "is_num_char c" if "c \<in> set s" for c
    using that L(2,3,4) show_nat_digits[of "nat \<bar>x\<bar>"]
    by (auto simp: L(5) is_num_char_def list_all_iff exponent_text_def split: if_splits)
  ultimately show ?thesis using L(1) by (auto simp: list_all_iff L(5))
qed

lemma read_nat_zeros: "read_nat (ds @ replicate k 48) = read_nat ds * 10 ^ k"
proof (induction k)
  case (Suc k)
  have "ds @ replicate (Suc k) 48 = (ds @ replicate k 48) @ [48]" by (simp add: replicate_append_same)
  then show ?case using Suc by (simp only: read_nat_snoc) simp
qed simp

lemma read_nat_leading: "read_nat (replicate k 48 @ ds) = read_nat ds"
  by (simp add: read_nat_def) (induction k, auto)

definition text_of :: "int \<Rightarrow> int \<Rightarrow> bytes \<Rightarrow> bool" where
  \<comment> \<open>\<open>s\<close> is a literal for \<open>d * 10 ^ -p\<close>\<close>
  "text_of d p s \<longleftrightarrow> (\<forall>neg. json_ok (JNum ((if neg then [45] else []) @ s)) \<and>
     (\<forall>m. of_decimal d p = Fin m \<longrightarrow> parse_float32 ((if neg then [45] else []) @ s) = Some (Fin (if neg then - m else m))))"

lemma literal_text_of:
  assumes "\<And>neg. literal neg ip fp ex x ((if neg then [45] else []) @ s)"
    and "of_decimal (int (read_nat (ip @ fp))) (int (length fp) - x) = of_decimal d p"
  shows "text_of d p s"
  unfolding text_of_def
  using literal_number[OF assms(1)] literal_parsed[OF assms(1)] unfolding assms(2) by (auto simp: Let_def)

lemma show_nat_parts: "list_all is_digit (take n (show_nat d))" "list_all is_digit (drop n (show_nat d))" "show_nat d \<noteq> []"
  using show_nat_digits[of d] by (auto simp: list_all_iff dest: in_set_takeD in_set_dropD)

lemma digits_zeros: "list_all is_digit (replicate k 48)"
  by (simp add: list_all_iff is_digit_def)

lemma show_plain_text:
  assumes "0 < d"
  shows "text_of (int d) p (show_plain d p)"
proof -
  let ?ds = "show_nat d" and ?n = "int (length (show_nat d)) - p"
  consider "p \<le> 0" | "0 < p" "0 < ?n" | "0 < p" "?n \<le> 0" by linarith
  then show ?thesis
  proof cases
    case 1
    have "of_decimal (int d * 10 ^ nat (- p)) (p + - p) = of_decimal (int d) p" by (rule of_decimal_scale) (use 1 in simp)
    then show ?thesis
      using 1 show_nat_digits[of d] show_nat_hd[OF assms]
      by (intro literal_text_of[where ip="?ds @ replicate (nat (- p)) 48" and fp="[]" and ex="[]" and x=0])
        (auto simp: literal_def show_plain_def exponent_text_def read_nat_zeros digits_zeros hd_append)
  next
    case 2
    then have less: "nat ?n < length ?ds" by linarith
    then have len: "int (length (drop (nat ?n) ?ds)) = p" using 2 by simp
    have "drop (nat ?n) ?ds \<noteq> []" using less by simp
    moreover have "take (nat ?n) ?ds \<noteq> []" "hd (take (nat ?n) ?ds) \<noteq> 48"
      using 2 show_nat_hd[OF assms] by (cases ?ds; simp)+
    ultimately show ?thesis
      using 2 len show_nat_parts
      by (intro literal_text_of[where ip="take (nat ?n) ?ds" and fp="drop (nat ?n) ?ds" and ex="[]" and x=0])
        (auto simp: literal_def show_plain_def exponent_text_def Let_def)
  next
    case 3
    let ?fp = "replicate (nat (- ?n)) 48 @ ?ds"
    have "read_nat ([48] @ ?fp) = d"
      using read_nat_leading[of "Suc (nat (- ?n))" ?ds] by simp
    moreover have "int (length ?fp) = p" using 3 by simp
    ultimately show ?thesis
      using 3 show_nat_digits[of d]
      by (intro literal_text_of[where ip="[48]" and fp="?fp" and ex="[]" and x=0])
        (auto simp: literal_def show_plain_def exponent_text_def Let_def digits_zeros)
  qed
qed

lemma show_scientific_text:
  assumes "0 < d"
  shows "text_of (int d) p (show_scientific d p)"
proof -
  obtain c cs where ds: "show_nat d = c # cs" by (cases "show_nat d") auto
  let ?x = "int (length (show_nat d)) - 1 - p"
  have "read_nat ([c] @ cs) = d" using read_show_nat[of d] ds by simp
  moreover have "is_digit c" "list_all is_digit cs" "c \<noteq> 48"
    using show_nat_digits[of d] show_nat_hd[OF assms] ds by auto
  ultimately show ?thesis
    using ds
    by (intro literal_text_of[where ip="[c]" and fp=cs and ex="101 # (if ?x < 0 then 45 else 43) # show_nat (nat \<bar>?x\<bar>)" and x="?x"])
      (auto simp: literal_def show_scientific_def exponent_text_def Let_def)
qed

text \<open>A 32-bit value is read back from its text.\<close>

lemma print_f32_text:
  assumes "representable x"
  obtains s where "print_f32 x = Some s" "json_ok (JNum s)" "parse_float32 s = Some x"
proof -
  obtain m where x: "x = Fin m" and m: "round32 0 m = Fin m" using assms by (auto simp: representable_def)
  show ?thesis
  proof (cases "m = 0")
    case True
    have "literal False [48] [] [] 0 [48]" by (simp add: literal_def exponent_text_def)
    from literal_number[OF this] literal_parsed[OF this] show ?thesis
      using that[of "[48]"] True x by (simp add: read_nat_def of_decimal_zero)
  next
    case False
    have "round32 0 \<bar>m\<bar> = Fin \<bar>m\<bar>" using m round32_minus[of 0 m] by (cases "0 \<le> m") auto
    then obtain d p where dp: "shortest \<bar>m\<bar> = Some (d, p)" "of_decimal d p = Fin \<bar>m\<bar>" "0 < d"
      using shortest_spec[of "\<bar>m\<bar>"] False by auto
    let ?body = "if Fin \<bar>m\<bar> < nearest 1 (10 ^ 6) \<or> nearest (10 ^ 21) 1 \<le> Fin \<bar>m\<bar> then show_scientific (nat d) p else show_plain (nat d) p"
    have "text_of d p ?body" using show_scientific_text[of "nat d" p] show_plain_text[of "nat d" p] dp(3) by simp
    then have body: "json_ok (JNum ((if m < 0 then [45] else []) @ ?body))"
      "parse_float32 ((if m < 0 then [45] else []) @ ?body) = Some (Fin (if m < 0 then - \<bar>m\<bar> else \<bar>m\<bar>))"
      using dp(2) unfolding text_of_def by blast+
    have "print_f32 x = Some ((if m < 0 then [45] else []) @ ?body)" using False dp(1) x by simp
    then show ?thesis using that body x by (simp split: if_splits)
  qed
qed

end
