(* ===== verification/Replicated_Machine.thy ===== *)
theory Replicated_Machine
  imports Prelude
begin

section \<open>Commands that every replica executes alike\<close>

text \<open>
  Raft gives every replica the same commands in the same order. For the replicas to reach the same state,
  a command must have one outcome, whatever the run-time system chooses (here \<open>'o\<close>: the orders in which Go
  walks its maps), and a failing command must leave no trace. \<open>replicated_machine\<close> is this contract.
\<close>

fun replay :: "('c \<Rightarrow> 's \<Rightarrow> ('e, 's) outcome) \<Rightarrow> 'c list \<Rightarrow> 's \<Rightarrow> 's option" where
  \<comment> \<open>all commands in order; \<open>None\<close> if one fails\<close>
  "replay f [] s = Some s"
| "replay f (c # cs) s = (case f c s of Done s' \<Rightarrow> replay f cs s' | _ \<Rightarrow> None)"

lemma replay_append: "replay f (cs @ ds) s = Option.bind (replay f cs s) (replay f ds)"
  by (induction cs arbitrary: s) (auto split: outcome.splits)

locale replicated_machine =
  fixes ok :: "'s \<Rightarrow> bool" and fair :: "'o \<Rightarrow> bool" and run :: "'o \<Rightarrow> 'c \<Rightarrow> 's \<Rightarrow> ('e, 's) outcome"
  assumes order_free: "ok s \<Longrightarrow> fair o1 \<Longrightarrow> fair o2 \<Longrightarrow> run o1 c s = run o2 c s"
    and total: "ok s \<Longrightarrow> fair o1 \<Longrightarrow> run o1 c s \<noteq> Panic"
    and traceless: "ok s \<Longrightarrow> fair o1 \<Longrightarrow> run o1 c s = Failed e s' \<Longrightarrow> s' = s"
    and keeps: "ok s \<Longrightarrow> fair o1 \<Longrightarrow> run o1 c s = Done s' \<Longrightarrow> ok s'"
begin

lemma leaves_ok: "ok s \<Longrightarrow> fair o1 \<Longrightarrow> leaves ok (run o1 c s)"
  using total[of s o1 c] traceless[of s o1 c] keeps[of s o1 c] by (cases "run o1 c s") auto

lemma replay_ok: "ok s \<Longrightarrow> fair o1 \<Longrightarrow> replay (run o1) cs s = Some s' \<Longrightarrow> ok s'"
  by (induction cs arbitrary: s) (auto split: outcome.splits dest: keeps)

lemma replay_order_free: "ok s \<Longrightarrow> fair o1 \<Longrightarrow> fair o2 \<Longrightarrow> replay (run o1) cs s = replay (run o2) cs s"
proof (induction cs arbitrary: s)
  case (Cons c cs)
  then show ?case using order_free[of s o1 o2 c] keeps[of s o2 c] by (auto split: outcome.splits)
qed simp

text \<open>One more command, under any choices, is one more command of the reference run.\<close>

lemma replay_step:
  assumes "ok s0" "fair o1" "fair o2" "replay (run o1) cs s0 = Some s" "run o2 c s = Done s'"
  shows "replay (run o1) (cs @ [c]) s0 = Some s'"
proof -
  have "run o1 c s = Done s'" using order_free[OF replay_ok[OF assms(1,2,4)] assms(2,3)] assms(5) by simp
  then show ?thesis using assms(4) by (simp add: replay_append)
qed

end

end
