(* ===== verification/Mutation.thy ===== *)
theory Mutation
  imports Float_Text Raft_Json Hnsw_Properties Replicated_Machine
begin

section \<open>internal/ann/persist.go: changes of the index as log entries\<close>

text \<open>
  A log entry for the index is the JSON of a \<open>Mutation\<close>. IDs are valid UTF-8 without U+2028 and U+2029:
  \<open>Marshal\<close> writes these two as escapes and ill-formed bytes as U+FFFD, the model copies them. A second
  \<open>vector\<close> key starts over with zeros where Go reuses the elements of the first; \<open>Marshal\<close> writes one.
\<close>

record mutation =
  mu_operation :: bytes
  mu_id :: bytes
  mu_vector :: vec

definition zero_mutation :: mutation where
  "zero_mutation = \<lparr>mu_operation = [], mu_id = [], mu_vector = []\<rparr>"

fun print_floats :: "vec \<Rightarrow> bytes list option" where
  "print_floats [] = Some []"
| "print_floats (x # xs) =
     (case print_f32 x of None \<Rightarrow> None | Some s \<Rightarrow> map_option (Cons s) (print_floats xs))"

definition marshal_mutation :: "mutation \<Rightarrow> bytes option" where
  \<comment> \<open>\<open>vector\<close> is left out when empty\<close>
  "marshal_mutation m =
     map_option
       (\<lambda>ss. print_json (JObj ([(ascii ''operation'', JStr (mu_operation m)), (ascii ''id'', JStr (mu_id m))] @
         (if ss = [] then [] else [(ascii ''vector'', JArr (map JNum ss))]))))
       (print_floats (mu_vector m))"

definition encode_mutation :: "bytes \<Rightarrow> vec \<Rightarrow> bytes option" where
  "encode_mutation i v = marshal_mutation \<lparr>mu_operation = ascii ''insert'', mu_id = i, mu_vector = v\<rparr>"

definition encode_delete_mutation :: "bytes \<Rightarrow> bytes option" where
  "encode_delete_mutation i = marshal_mutation \<lparr>mu_operation = ascii ''delete'', mu_id = i, mu_vector = []\<rparr>"

fun decode_string :: "json \<Rightarrow> bytes \<Rightarrow> bytes option" where
  "decode_string JNull old = Some old"
| "decode_string (JStr s) old = Some s"
| "decode_string _ old = None"

definition decode_vector :: "json \<Rightarrow> vec option" where
  "decode_vector v = map_option (\<lambda>xs. case xs of None \<Rightarrow> [] | Some xs \<Rightarrow> xs) (decode_slice (\<lambda>j. decode_f32 j (Fin 0)) v)"

definition set_mutation_field :: "bytes \<Rightarrow> json \<Rightarrow> mutation \<Rightarrow> mutation option" where
  "set_mutation_field k v m =
     (if key_is ''operation'' k then map_option (\<lambda>x. m\<lparr>mu_operation := x\<rparr>) (decode_string v (mu_operation m))
      else if key_is ''id'' k then map_option (\<lambda>x. m\<lparr>mu_id := x\<rparr>) (decode_string v (mu_id m))
      else if key_is ''vector'' k then map_option (\<lambda>x. m\<lparr>mu_vector := x\<rparr>) (decode_vector v)
      else Some m)"

definition unmarshal_mutation :: "bytes \<Rightarrow> mutation option" where
  "unmarshal_mutation = unmarshal set_mutation_field zero_mutation"

datatype mutation_error = BadMutation | UnknownMutation | IndexError ann_error

definition apply_mutation ::
  "bytes walk \<Rightarrow> int walk \<Rightarrow> (hnsw_config \<Rightarrow> nat \<Rightarrow> int) \<Rightarrow> bytes \<Rightarrow> hnsw \<Rightarrow> (mutation_error, hnsw) outcome" where
  "apply_mutation it lv draw data h =
     (case unmarshal_mutation data of
        None \<Rightarrow> Failed BadMutation h
      | Some m \<Rightarrow>
          if mu_operation m = ascii ''insert'' then map_outcome IndexError id (h_insert it lv draw (mu_id m) (mu_vector m) h)
          else if mu_operation m = ascii ''delete'' then map_outcome IndexError id (h_delete it lv (mu_id m) h)
          else Failed UnknownMutation h)"

subsection \<open>Reading back a mutation\<close>

lemma print_floats_spec:
  assumes "list_all representable xs"
  obtains ss where "print_floats xs = Some ss" "\<forall>s \<in> set ss. json_ok (JNum s)"
    "decode_list (\<lambda>j. decode_f32 j (Fin 0)) (map JNum ss) = Some xs" "ss = [] \<longleftrightarrow> xs = []"
proof -
  have "\<exists>ss. print_floats xs = Some ss \<and> (\<forall>s \<in> set ss. json_ok (JNum s)) \<and>
      decode_list (\<lambda>j. decode_f32 j (Fin 0)) (map JNum ss) = Some xs \<and> (ss = [] \<longleftrightarrow> xs = [])"
    using assms
  proof (induction xs)
    case (Cons x xs)
    then obtain ss where ss: "print_floats xs = Some ss" "\<forall>s \<in> set ss. json_ok (JNum s)"
      "decode_list (\<lambda>j. decode_f32 j (Fin 0)) (map JNum ss) = Some xs" by auto
    have "representable x" using Cons.prems by simp
    from print_f32_text[OF this] obtain s where "print_f32 x = Some s" "json_ok (JNum s)" "parse_float32 s = Some x" .
    then show ?case using ss by (intro exI[of _ "s # ss"]) simp
  qed simp
  then show ?thesis using that by blast
qed

lemma print_floats_None: "x \<in> set xs \<Longrightarrow> \<not> finite32 x \<Longrightarrow> print_floats xs = None"
proof (induction xs)
  case (Cons y xs)
  have "print_f32 x = None" if "\<not> finite32 x" for x using that by (cases x) auto
  with Cons show ?case by (auto split: option.splits)
qed simp

lemma marshal_mutation_roundtrip:
  assumes "list_all representable (mu_vector m)"
  shows "\<exists>data. marshal_mutation m = Some data \<and> unmarshal_mutation data = Some m"
proof -
  from print_floats_spec[OF assms] obtain ss where ss: "print_floats (mu_vector m) = Some ss" "\<forall>s \<in> set ss. json_ok (JNum s)"
    "decode_list (\<lambda>j. decode_f32 j (Fin 0)) (map JNum ss) = Some (mu_vector m)" "ss = [] \<longleftrightarrow> mu_vector m = []" .
  let ?j = "JObj ([(ascii ''operation'', JStr (mu_operation m)), (ascii ''id'', JStr (mu_id m))] @
         (if ss = [] then [] else [(ascii ''vector'', JArr (map JNum ss))]))"
  have "json_ok ?j" using ss(2) by (auto simp del: json_ok.simps(1))
  moreover have "decode_struct set_mutation_field ?j zero_mutation = Some m"
    using ss(3,4)
    by (cases m) (auto simp: set_mutation_field_def zero_mutation_def field_names decode_vector_def)
  ultimately have "unmarshal_mutation (print_json ?j) = Some m" by (simp only: unmarshal_mutation_def unmarshal_print)
  then show ?thesis using ss(1) by (simp add: marshal_mutation_def)
qed

definition float32 :: "f32 \<Rightarrow> bool" where
  \<comment> \<open>one of the values of the Go type\<close>
  "float32 x \<longleftrightarrow> (finite32 x \<longrightarrow> representable x)"


lemma float32_finite: "round32 0 m = Fin m \<Longrightarrow> float32 (Fin m)"
  by (simp add: float32_def representable_def)


subsection \<open>The index as a replicated machine\<close>

text \<open>The choices of the run-time system are the orders in which it walks nodes and levels.\<close>

definition fair_walks :: "bytes walk \<times> int walk \<Rightarrow> bool" where
  "fair_walks w \<longleftrightarrow> any_order (fst w) \<and> any_order (snd w)"

definition index_ready :: "hnsw \<Rightarrow> bool" where
  "index_ready h \<longleftrightarrow> hnsw_ok h \<and> 2 \<le> cf_m (h_cfg h)"

definition apply_with :: "(hnsw_config \<Rightarrow> nat \<Rightarrow> int) \<Rightarrow> bytes walk \<times> int walk \<Rightarrow> bytes \<Rightarrow> hnsw \<Rightarrow> (mutation_error, hnsw) outcome" where
  "apply_with draw w = apply_mutation (fst w) (snd w) draw"

abbreviation sorted_walks :: "bytes walk \<times> int walk" where
  "sorted_walks \<equiv> (sorted_list_of_set, sorted_list_of_set)"

lemma sorted_walks_fair: "fair_walks sorted_walks"
  by (simp add: fair_walks_def sorted_set_any_order)

text \<open>The outcome of a mutation: that of the sorted walks, on an index that stays well-formed.\<close>

lemma insert_outcome:
  assumes "index_ready h" "fair_levels draw" "any_order it" "any_order lv"
  shows "h_insert it lv draw i v h = h_insert sorted_list_of_set sorted_list_of_set draw i v h \<and>
    (case h_insert it lv draw i v h of Done h' \<Rightarrow> index_ready h' | Failed e h' \<Rightarrow> h' = h | Panic \<Rightarrow> False)"
proof (cases "i = [] \<or> h_validate h v \<noteq> None")
  case True
  then show ?thesis by (auto simp: h_insert_def)
next
  case False
  then have "i \<noteq> []" "h_validate h v = None" by auto
  from insert_effect[OF _ this assms(2) _ assms(3,4)] assms(1) obtain h' where
    "h_insert it lv draw i v h = Done h'" "hnsw_ok h'" "h_cfg h' = h_cfg h"
    "h_insert sorted_list_of_set sorted_list_of_set draw i v h = Done h'" unfolding index_ready_def by blast
  then show ?thesis using assms(1) by (simp add: index_ready_def)
qed

lemma delete_outcome:
  assumes "index_ready h" "any_order it" "any_order lv"
  shows "h_delete it lv i h = h_delete sorted_list_of_set sorted_list_of_set i h \<and>
    (case h_delete it lv i h of Done h' \<Rightarrow> index_ready h' | Failed e h' \<Rightarrow> h' = h | Panic \<Rightarrow> False)"
proof (cases "fmlookup (vectors h) i = None")
  case True
  then show ?thesis by (simp add: h_delete_missing vectors_def)
next
  case False
  from delete_effect[OF _ this assms(2,3)] assms(1) obtain h' where
    "h_delete it lv i h = Done h'" "hnsw_ok h'" "h_cfg h' = h_cfg h"
    "h_delete sorted_list_of_set sorted_list_of_set i h = Done h'" unfolding index_ready_def by blast
  then show ?thesis using assms(1) by (simp add: index_ready_def)
qed

lemma mutation_outcome:
  assumes "index_ready h" "fair_levels draw" "fair_walks w"
  shows "apply_with draw w data h = apply_with draw sorted_walks data h \<and>
    (case apply_with draw w data h of Done h' \<Rightarrow> index_ready h' | Failed e h' \<Rightarrow> h' = h | Panic \<Rightarrow> False)"
proof (cases "unmarshal_mutation data")
  case None
  then show ?thesis by (simp add: apply_with_def apply_mutation_def)
next
  case (Some m)
  have w: "any_order (fst w)" "any_order (snd w)" using assms(3) by (simp_all add: fair_walks_def)
  show ?thesis
    using Some insert_outcome[OF assms(1,2) w, of "mu_id m" "mu_vector m"] delete_outcome[OF assms(1) w, of "mu_id m"]
    by (auto simp: apply_with_def apply_mutation_def split: outcome.splits)
qed

definition ready_with :: "(hnsw_config \<Rightarrow> nat \<Rightarrow> int) \<Rightarrow> hnsw \<Rightarrow> bool" where
  "ready_with draw h \<longleftrightarrow> fair_levels draw \<and> index_ready h"

interpretation index: replicated_machine "ready_with draw" fair_walks "apply_with draw" for draw
proof
  fix h :: hnsw and w w' :: "bytes walk \<times> int walk" and data h' e
  assume "ready_with draw h" "fair_walks w"
  then have out: "index_ready h" "fair_levels draw" "fair_walks w" by (simp_all add: ready_with_def)
  note o = mutation_outcome[OF this, of data]
  show "apply_with draw w data h = apply_with draw w' data h" if "fair_walks w'"
    using o mutation_outcome[OF out(1,2) that, of data] by simp
  show "apply_with draw w data h \<noteq> Panic" using o by (auto split: outcome.splits)
  show "h' = h" if "apply_with draw w data h = Failed e h'" using o that by simp
  show "ready_with draw h'" if "apply_with draw w data h = Done h'" using o that out by (simp add: ready_with_def)
qed

end
