(* ===== verification/Durable.thy ===== *)
theory Durable
  imports Mutation Host_Properties Recovery
begin

section \<open>internal/ann/durable.go: the replicated index\<close>

text \<open>
  A \<open>DurableNode\<close> is a host whose application is the graph: the \<open>apply\<close> callback decodes a committed
  entry and changes the graph, nothing else does. The store is the host's. \<open>da_calls\<close> counts the calls of
  \<open>apply\<close> and selects the orders \<open>ws\<close> in which Go walks the maps during the call; \<open>da_panicked\<close> records a
  panic inside it, which \<open>settle\<close> passes on. The two locks only order the methods. Whether the address can
  be listened on and the listener closed are arguments.
\<close>

record durable_app =
  da_index :: hnsw
  da_applied :: int
  da_calls :: nat
  da_panicked :: bool

type_synonym durable = "durable_app host"

record durable_config =
  dc_id :: node_id
  dc_group_peers :: "node_id list"
  dc_listen :: string
  dc_transport_peers :: "(node_id, string) mapping"
  dc_dir :: string
  dc_index :: hnsw_config
  dc_election_tick :: int
  dc_heartbeat_tick :: int

datatype durable_error = StoreError storage_error | IndexInvalid ann_error | HostError host_error | EncodeFailed | TransportCloseFailed

type_synonym level_source = "hnsw_config \<Rightarrow> nat \<Rightarrow> int"
type_synonym walks = "nat \<Rightarrow> bytes walk \<times> int walk"

definition d_apply :: "level_source \<Rightarrow> walks \<Rightarrow> durable_app application" where
  "d_apply draw ws e a =
     (let a1 = a\<lparr>da_calls := da_calls a + 1\<rparr>
      in case apply_with draw (ws (da_calls a)) (e_data e) (da_index a) of
           Panic \<Rightarrow> (False, a1\<lparr>da_panicked := True\<rparr>)
         | Failed err h \<Rightarrow> (False, a1\<lparr>da_index := h\<rparr>)
         | Done h \<Rightarrow> (True, a1\<lparr>da_index := h, da_applied := da_applied a + 1\<rparr>))"

definition new_durable_node :: "faults \<Rightarrow> bool \<Rightarrow> durable_config \<Rightarrow> log_file option \<Rightarrow> durable_error + durable" where
  \<comment> \<open>the last argument is the log file in the directory, if there is one\<close>
  "new_durable_node os can_listen c existing =
     (case db_open os \<lparr>op_dir = dc_dir c, op_sync_every = 0\<rparr> existing of
        Inl e \<Rightarrow> Inl (StoreError e)
      | Inr d \<Rightarrow>
          (case new_hnsw (dc_index c) of
             Inl e \<Rightarrow> Inl (IndexInvalid e)
           | Inr h \<Rightarrow>
               let et = (if dc_election_tick c = 0 then 10 else dc_election_tick c);
                   ht = (if dc_heartbeat_tick c = 0 then 2 else dc_heartbeat_tick c)
               in case new_host can_listen \<lparr>da_index = h, da_applied = 0, da_calls = 0, da_panicked = False\<rparr>
                    \<lparr>hc_raft = \<lparr>c_id = dc_id c, c_peers = dc_group_peers c, c_learners = [], c_election_tick = et, c_heartbeat_tick = ht\<rparr>,
                     hc_listen = dc_listen c, hc_peers = dc_transport_peers c, hc_persister = Some d, hc_apply_given = True\<rparr> of
                  Inl e \<Rightarrow> Inl (HostError e)
                | Inr n \<Rightarrow> Inr n))"

definition settle :: "(host_error, durable) outcome \<Rightarrow> (durable_error, durable) outcome" where
  \<comment> \<open>the outcome of a call, unless \<open>apply\<close> panicked in it\<close>
  "settle r = (case left_state r of None \<Rightarrow> Panic | Some d \<Rightarrow> if da_panicked (h_app d) then Panic else map_outcome HostError id r)"

definition d_tick :: "map_range \<Rightarrow> (nat \<Rightarrow> faults) \<Rightarrow> level_source \<Rightarrow> walks \<Rightarrow> durable \<Rightarrow> (durable_error, durable) outcome" where
  "d_tick it os draw ws d = settle (host_tick it os (d_apply draw ws) d)"

definition d_receive ::
  "map_range \<Rightarrow> (nat \<Rightarrow> faults) \<Rightarrow> level_source \<Rightarrow> walks \<Rightarrow> message \<Rightarrow> durable \<Rightarrow> (durable_error, durable) outcome" where
  \<comment> \<open>the transport calls \<open>Host.Step\<close> with a message of a peer\<close>
  "d_receive it os draw ws m d = settle (host_step it os (d_apply draw ws) m d)"

definition d_insert ::
  "(nat \<Rightarrow> faults) \<Rightarrow> level_source \<Rightarrow> walks \<Rightarrow> bytes \<Rightarrow> vec \<Rightarrow> durable \<Rightarrow> (durable_error, durable) outcome" where
  "d_insert os draw ws i v d =
     (case encode_mutation i v of
        None \<Rightarrow> Failed EncodeFailed d
      | Some data \<Rightarrow> settle (host_propose os (d_apply draw ws) data d))"

definition d_delete :: "(nat \<Rightarrow> faults) \<Rightarrow> level_source \<Rightarrow> walks \<Rightarrow> bytes \<Rightarrow> durable \<Rightarrow> (durable_error, durable) outcome" where
  "d_delete os draw ws i d =
     (case encode_delete_mutation i of
        None \<Rightarrow> Failed EncodeFailed d
      | Some data \<Rightarrow> settle (host_propose os (d_apply draw ws) data d))"

definition d_search :: "vec \<Rightarrow> int \<Rightarrow> int \<Rightarrow> durable \<Rightarrow> (ann_error, result list) outcome" where
  "d_search q k ef d = h_search q k ef (da_index (h_app d))"

definition d_validate :: "vec \<Rightarrow> durable \<Rightarrow> vector_error option" where
  "d_validate v d = h_validate (da_index (h_app d)) v"

definition applied_count :: "durable \<Rightarrow> int" where
  "applied_count d = da_applied (h_app d)"

definition d_status :: "durable \<Rightarrow> node_id \<times> u64 \<times> bool" where
  "d_status d = (let (role, term) = host_status d in (host_leader d, term, role = Leader))"

definition d_close :: "bool \<Rightarrow> faults \<Rightarrow> durable \<Rightarrow> (durable_error, durable) outcome" where
  "d_close listener_closes os d =
     (if \<not> listener_closes then Failed TransportCloseFailed d
      else map_outcome StoreError (\<lambda>s. d\<lparr>h_db := s\<rparr>) (db_close os (h_db d)))"

subsection \<open>What a call of apply does\<close>

definition sound_app :: "level_source \<Rightarrow> durable_app \<Rightarrow> bool" where
  "sound_app draw a \<longleftrightarrow> ready_with draw (da_index a) \<and> \<not> da_panicked a"

lemma d_apply_cases:
  assumes "sound_app draw a" "\<And>n. fair_walks (ws n)"
  obtains (applied) h where "apply_with draw sorted_walks (e_data e) (da_index a) = Done h" "ready_with draw h"
      "d_apply draw ws e a = (True, a\<lparr>da_calls := da_calls a + 1, da_index := h, da_applied := da_applied a + 1\<rparr>)"
  | (refused) err where "apply_with draw sorted_walks (e_data e) (da_index a) = Failed err (da_index a)"
      "d_apply draw ws e a = (False, a\<lparr>da_calls := da_calls a + 1\<rparr>)"
proof -
  let ?r = "apply_with draw sorted_walks (e_data e) (da_index a)"
  have a: "ready_with draw (da_index a)" using assms(1) by (simp add: sound_app_def)
  have same: "apply_with draw (ws (da_calls a)) (e_data e) (da_index a) = ?r"
    using index.order_free[OF a assms(2) sorted_walks_fair] .
  show ?thesis
  proof (cases ?r)
    case (Done h)
    then show ?thesis using applied[of h] index.keeps[OF a sorted_walks_fair] same by (simp add: d_apply_def)
  next
    case (Failed err h)
    then show ?thesis using refused[of err] index.traceless[OF a sorted_walks_fair] same by (simp add: d_apply_def)
  next
    case Panic
    then show ?thesis using index.total[OF a sorted_walks_fair] by blast
  qed
qed

lemma d_apply_sound: "sound_app draw a \<Longrightarrow> (\<And>n. fair_walks (ws n)) \<Longrightarrow> sound_app draw (snd (d_apply draw ws e a))"
  by (rule d_apply_cases[of draw a ws e]) (auto simp: sound_app_def)

subsection \<open>Outcomes\<close>

lemma left_state_map: "left_state (map_outcome f g r) = map_option g (left_state r)"
  by (cases r) auto

lemma settle_left:
  "left_state (settle r) = Some d \<longleftrightarrow> left_state r = Some d \<and> \<not> da_panicked (h_app d)"
  by (cases r) (auto simp: settle_def)

lemma settle_Failed: "settle r = Failed (HostError e) d \<longleftrightarrow> r = Failed e d \<and> \<not> da_panicked (h_app d)"
  by (cases r) (auto simp: settle_def)

lemma settle_Done: "settle r = Done d \<longleftrightarrow> r = Done d \<and> \<not> da_panicked (h_app d)"
  by (cases r) (auto simp: settle_def)

subsection \<open>A new node\<close>

definition new_app :: "hnsw \<Rightarrow> durable_app" where
  "new_app h = \<lparr>da_index = h, da_applied = 0, da_calls = 0, da_panicked = False\<rparr>"

definition raft_config :: "durable_config \<Rightarrow> config" where
  \<comment> \<open>what \<open>NewHost\<close> hands to \<open>RecoverNode\<close>\<close>
  "raft_config c =
     (let et = (if dc_election_tick c = 0 then 10 else dc_election_tick c)
      in \<lparr>c_id = dc_id c, c_peers = dc_group_peers c, c_learners = [],
          c_election_tick = et + host_election_stagger (dc_id c) (dc_group_peers c) et,
          c_heartbeat_tick = (if dc_heartbeat_tick c = 0 then 2 else dc_heartbeat_tick c)\<rparr>)"

lemma new_durable_cases:
  assumes "new_durable_node os can c existing = Inr d"
  obtains s h n where "db_open os \<lparr>op_dir = dc_dir c, op_sync_every = 0\<rparr> existing = Inr s" "new_hnsw (dc_index c) = Inr h"
    "recover_node (raft_config c) (Some s) = Inr n"
    "d = \<lparr>h_node = n, h_db = s, h_peers = dc_transport_peers c, h_sent = [], h_app = new_app h\<rparr>"
  using assms
  by (auto simp: new_durable_node_def new_host_def Let_def raft_config_def new_app_def split: sum.splits if_splits)

lemma new_app_sound:
  "new_hnsw c = Inr h \<Longrightarrow> fair_levels draw \<Longrightarrow> 2 \<le> cf_m c \<Longrightarrow> sound_app draw (new_app h)"
  using new_hnsw_ok[of c h] by (simp add: sound_app_def new_app_def ready_with_def index_ready_def)

lemma open_nothing: "db_open os opts None = Inr s \<Longrightarrow> db_data s = Mapping.empty \<and> \<not> db_closed s"
  by (auto simp: db_open_def wal_replay_def Let_def split: if_splits outcome.splits prod.splits)

lemma new_durable_fresh:
  assumes "new_durable_node os can c None = Inr d"
  obtains h where "new_node (raft_config c) = Inr (h_node d)" "new_hnsw (dc_index c) = Inr h" "h_app d = new_app h" "h_sent d = []"
proof -
  from new_durable_cases[OF assms] obtain s h n where s: "db_open os \<lparr>op_dir = dc_dir c, op_sync_every = 0\<rparr> None = Inr s"
    "new_hnsw (dc_index c) = Inr h" "recover_node (raft_config c) (Some s) = Inr n"
    "d = \<lparr>h_node = n, h_db = s, h_peers = dc_transport_peers c, h_sent = [], h_app = new_app h\<rparr>" .
  obtain n0 where n0: "new_node (raft_config c) = Inr n0" using s(3) by (auto simp: recover_node_def split: sum.splits)
  have "recover_node (raft_config c) (Some s) = Inr n0"
    using open_nothing[OF s(1)] n0 by (simp add: recover_node_def load_hard_state_def db_get_def restore_empty)
  then show ?thesis using that[OF _ s(2)] s(3,4) n0 by simp
qed

end
