(* ===== verification/Durable_Runs.thy ===== *)
theory Durable_Runs
  imports Durable "HOL-Library.AList"
begin

section \<open>Groups of durable nodes and their runs\<close>

text \<open>
  A group: nodes started on empty directories that make calls in any order. A node is handed only messages
  that some node of the group handed to its transport and that are addressed to it.
\<close>

definition fresh_durable :: "hnsw_config \<Rightarrow> node_id \<Rightarrow> durable \<Rightarrow> bool" where
  "fresh_durable c i d \<longleftrightarrow> (\<exists>os can cfg. new_durable_node os can cfg None = Inr d \<and> dc_id cfg = i \<and> dc_index cfg = c)"

definition group_calls ::
  "level_source \<Rightarrow> walks \<Rightarrow> map_range \<Rightarrow> (nat \<Rightarrow> faults) \<Rightarrow> (node_id \<Rightarrow> durable option) \<Rightarrow> node_id \<Rightarrow> durable \<Rightarrow>
   (durable_error, durable) outcome set" where
  "group_calls draw ws it os ds i d =
     {d_tick it os draw ws d} \<union>
     {d_receive it os draw ws m d | m j d2. ds j = Some d2 \<and> m \<in> set (h_sent d2) \<and> m_to m = i} \<union>
     range (\<lambda>(k, v). d_insert os draw ws k v d) \<union> range (\<lambda>k. d_delete os draw ws k d)"

inductive index_group :: "level_source \<Rightarrow> hnsw_config \<Rightarrow> (node_id \<Rightarrow> durable option) \<Rightarrow> bool" for draw c where
  started: "(\<And>i d. ds i = Some d \<Longrightarrow> fresh_durable c i d) \<Longrightarrow> index_group draw c ds"
| call: "index_group draw c ds \<Longrightarrow> ds i = Some d \<Longrightarrow> map_order it \<Longrightarrow> (\<And>n. fair_walks (ws n)) \<Longrightarrow>
    r \<in> group_calls draw ws it os ds i d \<Longrightarrow> left_state r = Some d' \<Longrightarrow> r \<noteq> Failed (HostError ApplyFailed) d' \<Longrightarrow>
    index_group draw c (ds(i \<mapsto> d'))"

inductive group_step :: "level_source \<Rightarrow> (node_id \<Rightarrow> durable option) \<Rightarrow> (node_id \<Rightarrow> durable option) \<Rightarrow> bool" for draw where
  "ds i = Some d \<Longrightarrow> map_order it \<Longrightarrow> (\<And>n. fair_walks (ws n)) \<Longrightarrow> r \<in> group_calls draw ws it os ds i d \<Longrightarrow>
   left_state r = Some d' \<Longrightarrow> r \<noteq> Failed (HostError ApplyFailed) d' \<Longrightarrow> group_step draw ds (ds(i \<mapsto> d'))"

lemma index_group_steps: "(group_step draw)\<^sup>*\<^sup>* ds ds' \<Longrightarrow> index_group draw c ds \<Longrightarrow> index_group draw c ds'"
proof (induction rule: rtranclp_induct)
  case (step ds1 ds2)
  from step(2) show ?case
  proof cases
    case (1 i d it ws r os d')
    from index_group.call[OF step(3)[OF step(4)] 1(2-7)] show ?thesis by (simp only: 1(1))
  qed
qed

subsection \<open>Executing a group on a disk without faults\<close>

text \<open>
  Without disk faults saving always succeeds, so a run is determined by the replicas, what they sent and the
  graphs. \<open>run_group\<close> computes on these three; what it computes is what some group does.
\<close>

type_synonym seen = "node \<times> message list \<times> durable_app"

definition view :: "durable \<Rightarrow> seen" where
  "view d = (h_node d, h_sent d, h_app d)"

definition calm_drive :: "level_source \<Rightarrow> walks \<Rightarrow> node \<Rightarrow> seen \<Rightarrow> seen option" where
  \<comment> \<open>\<open>driveLocked\<close> for replica \<open>n\<close>, when it returns no error\<close>
  "calm_drive draw ws n m =
     (let (n0, sent, a) = m; r = ready n; (ok, a') = apply_entries (d_apply draw ws) (rd_committed_entries r) a
      in if da_panicked a then None
         else if idle n then Some (n, sent, a)
         else if ok \<and> \<not> da_panicked a' then Some (advance n, sent @ rd_messages r, a') else None)"

lemma calm_drive_host:
  assumes "calm_drive draw ws n (view d) = Some m" "\<not> db_closed (h_db d)"
  shows "\<exists>d'. settle (drive_locked (\<lambda>_. no_faults) (d_apply draw ws) (d\<lparr>h_node := n\<rparr>)) = Done d' \<and>
    view d' = m \<and> \<not> db_closed (h_db d')"
proof (cases "idle n")
  case True
  then have "drive_locked (\<lambda>_. no_faults) (d_apply draw ws) (d\<lparr>h_node := n\<rparr>) = Done (d\<lparr>h_node := n\<rparr>)"
    by (simp add: drive_locked_def idle_def Let_def)
  then show ?thesis using assms True by (auto simp: calm_drive_def view_def settle_Done Let_def split: prod.splits if_splits)
next
  case False
  obtain a where a: "apply_entries (d_apply draw ws) (rd_committed_entries (ready n)) (h_app d) = (True, a)" "\<not> da_panicked a"
    "m = (advance n, h_sent d @ rd_messages (ready n), a)"
    using assms(1) False by (auto simp: calm_drive_def view_def Let_def split: prod.splits if_splits)
  obtain s where s: "persist (\<lambda>_. no_faults) (ready n) (h_db d) = Done s" "\<not> db_closed s"
    using persist_no_faults[OF assms(2)] by blast
  have "drive_locked (\<lambda>_. no_faults) (d_apply draw ws) (d\<lparr>h_node := n\<rparr>) =
      Done (d\<lparr>h_node := advance n, h_db := s, h_sent := h_sent d @ rd_messages (ready n), h_app := a\<rparr>)"
    using False s(1) a(1) unfolding drive_locked_def idle_def by (auto simp: Let_def)
  then show ?thesis using a s(2) by (auto simp: settle_Done view_def)
qed

datatype group_event = GTick node_id | GReceive node_id nat | GInsert node_id bytes vec | GDelete node_id bytes

fun calm_done :: "level_source \<Rightarrow> walks \<Rightarrow> node_id \<Rightarrow> node_outcome \<Rightarrow> (node_id \<times> seen) list \<Rightarrow> (node_id \<times> seen) list option" where
  "calm_done draw ws i (Done n) ms =
     (case map_of ms i of None \<Rightarrow> None | Some m \<Rightarrow> map_option (\<lambda>m'. AList.update i m' ms) (calm_drive draw ws n m))"
| "calm_done draw ws i _ ms = None"

definition calm_propose :: "level_source \<Rightarrow> walks \<Rightarrow> node_id \<Rightarrow> bytes option \<Rightarrow> (node_id \<times> seen) list \<Rightarrow> (node_id \<times> seen) list option" where
  "calm_propose draw ws i data ms =
     (case (map_of ms i, data) of (Some m, Some bs) \<Rightarrow> calm_done draw ws i (propose bs (fst m)) ms | _ \<Rightarrow> None)"

fun calm_event :: "level_source \<Rightarrow> walks \<Rightarrow> group_event \<Rightarrow> (node_id \<times> seen) list \<Rightarrow> (node_id \<times> seen) list option" where
  "calm_event draw ws (GTick i) ms =
     (case map_of ms i of None \<Rightarrow> None | Some m \<Rightarrow> calm_done draw ws i (Done (tick sorted_range (fst m))) ms)"
| "calm_event draw ws (GReceive j k) ms =
     (case map_of ms j of
        None \<Rightarrow> None
      | Some (n, sent, a) \<Rightarrow>
          if k < length sent
          then (case map_of ms (m_to (sent ! k)) of
                  None \<Rightarrow> None
                | Some m \<Rightarrow> calm_done draw ws (m_to (sent ! k)) (step sorted_range (sent ! k) (fst m)) ms)
          else None)"
| "calm_event draw ws (GInsert i k v) ms = calm_propose draw ws i (encode_mutation k v) ms"
| "calm_event draw ws (GDelete i k) ms = calm_propose draw ws i (encode_delete_mutation k) ms"

fun run_group :: "level_source \<Rightarrow> walks \<Rightarrow> group_event list \<Rightarrow> (node_id \<times> seen) list \<Rightarrow> (node_id \<times> seen) list option" where
  "run_group draw ws [] ms = Some ms"
| "run_group draw ws (ev # evs) ms = Option.bind (calm_event draw ws ev ms) (run_group draw ws evs)"

definition shows_as :: "(node_id \<Rightarrow> durable option) \<Rightarrow> (node_id \<times> seen) list \<Rightarrow> bool" where
  "shows_as ds ms \<longleftrightarrow> (\<forall>i. map_of ms i = map_option view (ds i)) \<and> (\<forall>i d. ds i = Some d \<longrightarrow> \<not> db_closed (h_db d))"

lemma shows_as_put:
  "shows_as ds ms \<Longrightarrow> view d = m \<Longrightarrow> \<not> db_closed (h_db d) \<Longrightarrow> shows_as (ds(i \<mapsto> d)) (AList.update i m ms)"
  by (auto simp: shows_as_def update_conv')

lemma calm_done_group:
  assumes "shows_as ds ms" "ds i = Some d" "\<And>n. fair_walks (ws n)" "calm_done draw ws i r ms = Some ms'"
    and "\<And>n. r = Done n \<Longrightarrow>
      settle (drive_locked (\<lambda>_. no_faults) (d_apply draw ws) (d\<lparr>h_node := n\<rparr>)) \<in> group_calls draw ws sorted_range (\<lambda>_. no_faults) ds i d"
  shows "\<exists>ds'. group_step draw ds ds' \<and> shows_as ds' ms'"
proof -
  have open_view: "map_of ms i = Some (view d)" "\<not> db_closed (h_db d)" using assms(1,2) by (simp_all add: shows_as_def)
  from assms(4) obtain n where n: "r = Done n" by (cases r) auto
  then obtain m where m: "calm_drive draw ws n (view d) = Some m" "ms' = AList.update i m ms"
    using assms(4) open_view(1) by auto
  from calm_drive_host[OF m(1) open_view(2)] obtain d' where d':
    "settle (drive_locked (\<lambda>_. no_faults) (d_apply draw ws) (d\<lparr>h_node := n\<rparr>)) = Done d'" "view d' = m" "\<not> db_closed (h_db d')" by blast
  have "Done d' \<in> group_calls draw ws sorted_range (\<lambda>_. no_faults) ds i d" using assms(5)[OF n] d'(1) by simp
  from group_step.intros[where draw=draw, OF assms(2) sorted_range_order assms(3) this] have "group_step draw ds (ds(i \<mapsto> d'))" by simp
  then show ?thesis using shows_as_put[OF assms(1) d'(2,3), of i] m(2) by blast
qed

lemma calm_propose_group:
  assumes "shows_as ds ms" "\<And>n. fair_walks (ws n)" "calm_propose draw ws i data ms = Some ms'"
    and "\<And>d bs. data = Some bs \<Longrightarrow>
      settle (host_propose (\<lambda>_. no_faults) (d_apply draw ws) bs d) \<in> group_calls draw ws sorted_range (\<lambda>_. no_faults) ds i d"
  shows "\<exists>ds'. group_step draw ds ds' \<and> shows_as ds' ms'"
proof -
  obtain m bs where m: "map_of ms i = Some m" "data = Some bs" "calm_done draw ws i (propose bs (fst m)) ms = Some ms'"
    using assms(3) by (auto simp: calm_propose_def split: option.splits)
  then obtain d where d: "ds i = Some d" "m = view d" using assms(1) by (auto simp: shows_as_def)
  have "settle (drive_locked (\<lambda>_. no_faults) (d_apply draw ws) (d\<lparr>h_node := n\<rparr>)) \<in> group_calls draw ws sorted_range (\<lambda>_. no_faults) ds i d"
    if "propose bs (fst m) = Done n" for n
    using assms(4)[OF m(2), of d] that d(2) by (simp add: host_propose_def after_node_def view_def)
  from calm_done_group[OF assms(1) d(1) assms(2) m(3) this] show ?thesis .
qed

lemma calm_event_group:
  assumes "shows_as ds ms" "\<And>n. fair_walks (ws n)" "calm_event draw ws ev ms = Some ms'"
  shows "\<exists>ds'. group_step draw ds ds' \<and> shows_as ds' ms'"
proof (cases ev)
  case (GTick i)
  then obtain m where m: "map_of ms i = Some m" "calm_done draw ws i (Done (tick sorted_range (fst m))) ms = Some ms'"
    using assms(3) by (auto split: option.splits)
  then obtain d where d: "ds i = Some d" "m = view d" using assms(1) by (auto simp: shows_as_def)
  show ?thesis
    using calm_done_group[OF assms(1) d(1) assms(2) m(2)] d(2)
    by (simp add: group_calls_def d_tick_def host_tick_def view_def)
next
  case (GReceive j k)
  then obtain n sent a m where j: "map_of ms j = Some (n, sent, a)" "k < length sent" "map_of ms (m_to (sent ! k)) = Some m"
    "calm_done draw ws (m_to (sent ! k)) (step sorted_range (sent ! k) (fst m)) ms = Some ms'"
    using assms(3) by (auto split: option.splits prod.splits if_splits)
  obtain d2 where d2: "ds j = Some d2" "sent = h_sent d2" using assms(1) j(1) by (auto simp: shows_as_def view_def)
  obtain d where d: "ds (m_to (sent ! k)) = Some d" "m = view d" using assms(1) j(3) by (auto simp: shows_as_def)
  have "sent ! k \<in> set (h_sent d2)" using j(2) d2(2) by simp
  then have "d_receive sorted_range (\<lambda>_. no_faults) draw ws (sent ! k) d \<in>
      group_calls draw ws sorted_range (\<lambda>_. no_faults) ds (m_to (sent ! k)) d"
    using d2(1) unfolding group_calls_def by blast
  then have "settle (drive_locked (\<lambda>_. no_faults) (d_apply draw ws) (d\<lparr>h_node := n\<rparr>)) \<in>
      group_calls draw ws sorted_range (\<lambda>_. no_faults) ds (m_to (sent ! k)) d"
    if "step sorted_range (sent ! k) (fst m) = Done n" for n
    using that d(2) by (simp add: d_receive_def host_step_def after_node_def view_def)
  from calm_done_group[OF assms(1) d(1) assms(2) j(4) this] show ?thesis .
next
  case (GInsert i k v)
  have "settle (host_propose (\<lambda>_. no_faults) (d_apply draw ws) bs d) \<in> group_calls draw ws sorted_range (\<lambda>_. no_faults) ds i d"
    if "encode_mutation k v = Some bs" for d bs
    using that by (auto simp: group_calls_def d_insert_def intro!: rev_image_eqI[where x="(k, v)"])
  from calm_propose_group[OF assms(1,2) _ this] assms(3) GInsert show ?thesis by simp
next
  case (GDelete i k)
  have "settle (host_propose (\<lambda>_. no_faults) (d_apply draw ws) bs d) \<in> group_calls draw ws sorted_range (\<lambda>_. no_faults) ds i d"
    if "encode_delete_mutation k = Some bs" for d bs
    using that by (auto simp: group_calls_def d_delete_def intro!: rev_image_eqI[where x=k])
  from calm_propose_group[OF assms(1,2) _ this] assms(3) GDelete show ?thesis by simp
qed

lemma run_group_steps:
  assumes "\<And>n. fair_walks (ws n)"
  shows "shows_as ds ms \<Longrightarrow> run_group draw ws evs ms = Some ms' \<Longrightarrow> \<exists>ds'. (group_step draw)\<^sup>*\<^sup>* ds ds' \<and> shows_as ds' ms'"
proof (induction evs arbitrary: ds ms)
  case (Cons ev evs)
  then obtain m1 where m1: "calm_event draw ws ev ms = Some m1" "run_group draw ws evs m1 = Some ms'"
    by (cases "calm_event draw ws ev ms") auto
  obtain ds1 where "group_step draw ds ds1" "shows_as ds1 m1"
    using calm_event_group[OF Cons.prems(1) assms m1(1)] by blast
  then show ?case using Cons.IH m1(2) by (meson converse_rtranclp_into_rtranclp)
qed auto

lemma run_group_sound:
  assumes "\<And>n. fair_walks (ws n)" "index_group draw c ds" "shows_as ds ms" "run_group draw ws evs ms = Some ms'"
  shows "\<exists>ds'. index_group draw c ds' \<and> shows_as ds' ms'"
  using run_group_steps[OF assms(1,3,4)] index_group_steps[OF _ assms(2)] by blast

subsection \<open>Small groups\<close>

definition member_config :: "node_id list \<Rightarrow> node_id \<Rightarrow> durable_config" where
  "member_config ids i = \<lparr>dc_id = i, dc_group_peers = ids, dc_listen = ''a'', dc_transport_peers = Mapping.empty, dc_dir = ''d'',
     dc_index = demo_cfg, dc_election_tick = 0, dc_heartbeat_tick = 0\<rparr>"

definition flat_levels :: level_source where
  "flat_levels c n = 0"

lemma flat_levels_fair: "fair_levels flat_levels"
  by (simp add: fair_levels_def flat_levels_def)

definition members_start :: "node_id list \<Rightarrow> (node_id \<times> seen) list" where
  "members_start ids = (case new_hnsw demo_cfg of Inl e \<Rightarrow> [] | Inr h \<Rightarrow>
     concat (map (\<lambda>i. case new_node (raft_config (member_config ids i)) of Inl e \<Rightarrow> [] | Inr n \<Rightarrow> [(i, n, [], new_app h)]) ids))"

definition pair_start :: "(node_id \<times> seen) list" where
  "pair_start = members_start [1, 2]"

definition pair_run :: "group_event list \<Rightarrow> (node_id \<times> seen) list option" where
  "pair_run evs = run_group flat_levels (\<lambda>_. sorted_walks) evs pair_start"

definition pair_elects :: "group_event list" where
  \<comment> \<open>node 1 becomes the leader of term 1\<close>
  "pair_elects = replicate 11 (GTick 1) @ [GReceive 1 0, GReceive 2 0, GReceive 1 1, GReceive 2 1]"

lemma new_durable_exists:
  assumes "new_node (raft_config cfg) = Inr n" "new_hnsw (dc_index cfg) = Inr h" "dc_dir cfg \<noteq> ''''"
  shows "new_durable_node no_faults True cfg None =
    Inr \<lparr>h_node = n, h_db = empty_store, h_peers = dc_transport_peers cfg, h_sent = [], h_app = new_app h\<rparr>"
proof -
  have "db_open no_faults \<lparr>op_dir = dc_dir cfg, op_sync_every = 0\<rparr> None = Inr empty_store"
    using assms(3) by (simp add: db_open_def no_faults_def wal_replay_def empty_store_def)
  moreover have "recover_node (raft_config cfg) (Some empty_store) = Inr n"
    using assms(1) by (simp add: recover_node_def load_hard_state_def db_get_def restore_empty empty_store_def)
  ultimately show ?thesis
    using assms(2) by (simp add: new_durable_node_def new_host_def raft_config_def new_app_def Let_def)
qed

lemma members_started:
  assumes "list_all (\<lambda>i. case new_node (raft_config (member_config ids i)) of Inl e \<Rightarrow> False | Inr n \<Rightarrow> True) ids"
  shows "\<exists>ds. index_group flat_levels demo_cfg ds \<and> shows_as ds (members_start ids)"
proof -
  obtain h where h: "new_hnsw demo_cfg = Inr h" by (simp add: new_hnsw_def demo_cfg_def)
  define n where "n i = projr (new_node (raft_config (member_config ids i)))" for i
  have n: "new_node (raft_config (member_config ids i)) = Inr (n i)" if "i \<in> set ids" for i
    using assms that by (cases "new_node (raft_config (member_config ids i))") (auto simp: n_def list_all_iff)
  define d where "d i = \<lparr>h_node = n i, h_db = empty_store, h_peers = dc_transport_peers (member_config ids i), h_sent = [], h_app = new_app h\<rparr>" for i
  have d: "new_durable_node no_faults True (member_config ids i) None = Inr (d i)" if "i \<in> set ids" for i
    unfolding d_def by (rule new_durable_exists[OF n[OF that]]) (simp_all add: h member_config_def)
  have "fresh_durable demo_cfg i (d i)" if "i \<in> set ids" for i
    unfolding fresh_durable_def using d[OF that] by (intro exI[of _ no_faults] exI[of _ True] exI[of _ "member_config ids i"])
      (simp add: member_config_def)
  then have "index_group flat_levels demo_cfg (\<lambda>i. if i \<in> set ids then Some (d i) else None)"
    by (intro index_group.started) (auto split: if_splits)
  moreover have "members_start ids = concat (map (\<lambda>i. [(i, view (d i))]) ids)"
    unfolding members_start_def by (simp add: h n d_def view_def cong: map_cong)
  then have "members_start ids = map (\<lambda>i. (i, view (d i))) ids" by (simp add: concat_map_singleton)
  then have "shows_as (\<lambda>i. if i \<in> set ids then Some (d i) else None) (members_start ids)"
    by (auto simp: shows_as_def map_of_map_restrict restrict_map_def d_def empty_store_def)
  ultimately show ?thesis by blast
qed

lemma pair_started: "\<exists>ds. index_group flat_levels demo_cfg ds \<and> shows_as ds pair_start"
  unfolding pair_start_def by (rule members_started) code_simp

lemma pair_run_group: "pair_run evs = Some ms \<Longrightarrow> \<exists>ds. index_group flat_levels demo_cfg ds \<and> shows_as ds ms"
  using run_group_sound[where ws="\<lambda>_. sorted_walks", OF sorted_walks_fair] pair_started unfolding pair_run_def by blast

text \<open>The leader gets a vector through to both nodes.\<close>

definition pair_inserts :: "group_event list" where
  "pair_inserts = pair_elects @ [GInsert 1 [120] [Fin 0, Fin 0], GReceive 1 3, GReceive 2 2, GReceive 1 4]"

lemma pair_insert_run:
  "\<exists>m1 m2. pair_run pair_inserts = Some [(1, m1), (2, m2)] \<and> da_applied (snd (snd m1)) = 1 \<and> da_applied (snd (snd m2)) = 1"
proof -
  have "map_option (map (\<lambda>(i, m). (i, da_applied (snd (snd m))))) (pair_run pair_inserts) = Some [(1, 1), (2, 1)]" by code_simp
  then show ?thesis by auto
qed

end
