(* ===== verification/Durable_Properties.thy ===== *)
theory Durable_Properties
  imports Durable_Runs
begin

section \<open>What the replicated index guarantees\<close>

text \<open>
  Every statement is about nodes whose level generator never goes below zero (\<open>fair_levels\<close>, \<open>M\<close> at least
  two), for all orders in which Go may walk its maps, and for any disk faults where faults occur.
\<close>

subsection \<open>Well-formed nodes\<close>

definition durable_ok :: "level_source \<Rightarrow> durable \<Rightarrow> bool" where
  "durable_ok draw d \<longleftrightarrow> node_wf (h_node d) \<and> sound_app draw (h_app d)"

definition durable_calls :: "level_source \<Rightarrow> walks \<Rightarrow> map_range \<Rightarrow> (nat \<Rightarrow> faults) \<Rightarrow> durable \<Rightarrow> (durable_error, durable) outcome set" where
  \<comment> \<open>every call that can change a node that is not closed\<close>
  "durable_calls draw ws it os d =
     {d_tick it os draw ws d} \<union> range (\<lambda>m. d_receive it os draw ws m d) \<union>
     range (\<lambda>(i, v). d_insert os draw ws i v d) \<union> range (\<lambda>i. d_delete os draw ws i d)"

lemma apply_entries_sound:
  "sound_app draw a \<Longrightarrow> (\<And>n. fair_walks (ws n)) \<Longrightarrow> sound_app draw (snd (apply_entries (d_apply draw ws) es a))"
proof (induction es arbitrary: a)
  case (Cons e es)
  then show ?case using d_apply_sound[of draw a ws e] by (cases "d_apply draw ws e a") auto
qed simp

lemma drive_durable_ok:
  assumes "durable_ok draw d" "\<And>n. fair_walks (ws n)"
  shows "leaves (durable_ok draw) (settle (drive_locked os (d_apply draw ws) d))"
proof -
  obtain d' where d': "left_state (drive_locked os (d_apply draw ws) d) = Some d'"
    using drive_never_panics[of os "d_apply draw ws" d] by (cases "drive_locked os (d_apply draw ws) d") auto
  have sound: "sound_app draw a" if "apply_entries (d_apply draw ws) es (h_app d) = (b, a)" for es b a
    using apply_entries_sound[of draw "h_app d" ws es] assms that by (simp add: durable_ok_def)
  have wf: "node_wf (advance n) = node_wf n" for n by (simp add: node_wf_def advance_def)
  have "durable_ok draw d'"
    using d' by (cases rule: drive_cases) (use assms(1) sound wf in \<open>auto simp: durable_ok_def\<close>)
  then show ?thesis using d' unfolding leaves_iff by (auto simp: settle_left durable_ok_def sound_app_def)
qed

lemma after_durable_ok:
  assumes "durable_ok draw d" "\<And>n. fair_walks (ws n)" "leaves node_wf r"
  shows "leaves (durable_ok draw) (settle (after_node os (d_apply draw ws) d r))"
proof (cases r)
  case (Done n)
  then have "durable_ok draw (d\<lparr>h_node := n\<rparr>)" using assms(1,3) by (simp add: durable_ok_def)
  from drive_durable_ok[OF this assms(2)] Done show ?thesis by (simp add: after_node_def)
next
  case (Failed e n)
  then show ?thesis using assms(1,3) by (simp add: after_node_def settle_def durable_ok_def sound_app_def)
next
  case Panic
  then show ?thesis using assms(3) by simp
qed

lemma tick_durable_ok:
  assumes "durable_ok draw d" "\<And>n. fair_walks (ws n)"
  shows "leaves (durable_ok draw) (d_tick it os draw ws d)"
proof -
  have "durable_ok draw (d\<lparr>h_node := tick it (h_node d)\<rparr>)"
    using assms(1) clock.keeps_wf[of "h_node d" it] by (simp add: durable_ok_def)
  from drive_durable_ok[OF this assms(2)] show ?thesis by (simp add: d_tick_def host_tick_def)
qed

text \<open>
  C11: A node is well-formed after every call. Whatever the disk does, whatever message, vector or ID it is
  given, no call of the node panics, neither in the replica nor in the graph, and the state it leaves, also
  when it returns an error, has a well-formed replica and a graph that satisfies the invariant of the index.
\<close>
theorem durable_node_stays_well_formed:
  assumes "durable_ok draw d" "\<forall>n. fair_walks (ws n)" "r \<in> durable_calls draw ws it os d"
  shows "leaves (durable_ok draw) r"
proof -
  have wf: "node_wf (h_node d)" using assms(1) by (simp add: durable_ok_def)
  have propose: "leaves (durable_ok draw) (settle (host_propose os (d_apply draw ws) data d))" for data
    using after_durable_ok[OF assms(1) _ client.keeps_wf[OF wf]] assms(2) by (simp add: host_propose_def)
  consider "r = d_tick it os draw ws d" | m where "r = d_receive it os draw ws m d"
    | i v where "r = d_insert os draw ws i v d" | i where "r = d_delete os draw ws i d"
    using assms(3) unfolding durable_calls_def by auto
  then show ?thesis
  proof cases
    case 1
    then show ?thesis using tick_durable_ok[OF assms(1)] assms(2) by simp
  next
    case 2
    then show ?thesis
      using after_durable_ok[OF assms(1) _ receive.keeps_wf[OF wf]] assms(2) by (simp add: d_receive_def host_step_def)
  next
    case 3
    then show ?thesis using propose assms(1) by (simp add: d_insert_def split: option.splits)
  next
    case 4
    then show ?thesis using propose assms(1) by (simp add: d_delete_def split: option.splits)
  qed
qed

subsection \<open>The graph is a function of the log\<close>

definition graph_of :: "level_source \<Rightarrow> hnsw_config \<Rightarrow> entry list \<Rightarrow> hnsw option" where
  \<comment> \<open>the mutations of the entries, applied to an empty index with the maps walked in sorted order\<close>
  "graph_of draw c es =
     (case new_hnsw c of Inl err \<Rightarrow> None | Inr h \<Rightarrow> replay (apply_with draw sorted_walks) (map e_data es) h)"

definition replayed :: "level_source \<Rightarrow> hnsw_config \<Rightarrow> entry list \<Rightarrow> durable_app \<Rightarrow> bool" where
  "replayed draw c es a \<longleftrightarrow> sound_app draw a \<and> graph_of draw c es = Some (da_index a) \<and> da_applied a = int (length es)"

lemma replayed_apply:
  assumes "\<And>n. fair_walks (ws n)" "replayed draw c es a" "d_apply draw ws e a = (True, a')"
  shows "replayed draw c (es @ [e]) a'"
proof -
  have a: "sound_app draw a" using assms(2) by (simp add: replayed_def)
  from this assms(1) show ?thesis
  proof (cases rule: d_apply_cases[where draw=draw and ws=ws and a=a and e=e])
    case (applied h)
    have "graph_of draw c (es @ [e]) = Some h"
      using assms(2) applied(1) by (auto simp: replayed_def graph_of_def replay_append split: sum.splits)
    then show ?thesis
      using assms(2,3) applied a by (auto simp: replayed_def sound_app_def)
  next
    case (refused err)
    then show ?thesis using assms(3) by simp
  qed
qed

lemma durable_logs: "(\<And>n. fair_walks (ws n)) \<Longrightarrow> logged_application (replayed draw c) (d_apply draw ws)"
  by unfold_locales (rule replayed_apply)

interpretation sorted_node: logged_application "replayed draw c" "d_apply draw (\<lambda>_. sorted_walks)" for draw c
  by (rule durable_logs) (rule sorted_walks_fair)

lemma group_call_host:
  assumes "r \<in> group_calls draw ws it os ds i d" "tracks R ds s"
  obtains "r = Failed EncodeFailed d" | r0 where "r = settle r0" "r0 \<in> host_operations (d_apply draw ws) i it os s d"
proof -
  consider "r = d_tick it os draw ws d"
    | m j d2 where "r = d_receive it os draw ws m d" "ds j = Some d2" "m \<in> set (h_sent d2)" "m_to m = i"
    | k v where "r = d_insert os draw ws k v d" | k where "r = d_delete os draw ws k d"
    using assms(1) unfolding group_calls_def by auto
  then show ?thesis
  proof cases
    case 1
    then show ?thesis using that(2) by (auto simp: d_tick_def host_operations_def)
  next
    case 2
    then have "m \<in> set (net_wire s)" using tracksD(3)[OF assms(2)] by blast
    then have "host_step it os (d_apply draw ws) m d \<in> host_operations (d_apply draw ws) i it os s d"
      using 2 by (auto simp: host_operations_def)
    then show ?thesis using that(2) 2(1) by (simp add: d_receive_def)
  next
    case 3
    then show ?thesis using that by (cases "encode_mutation k v") (auto simp: d_insert_def host_operations_def)
  next
    case 4
    then show ?thesis using that by (cases "encode_delete_mutation k") (auto simp: d_delete_def host_operations_def)
  qed
qed

lemma index_group_tracks:
  assumes "index_group draw c ds" "fair_levels draw" "2 \<le> cf_m c"
  shows "\<exists>s0 s. net_start s0 \<and> net_step\<^sup>*\<^sup>* s0 s \<and> tracks (replayed draw c) ds s"
  using assms(1)
proof (induction rule: index_group.induct)
  case (started ds)
  let ?s = "\<lparr>net_node = (\<lambda>i. map_option h_node (ds i)), net_wire = [], net_applied = (\<lambda>_. [])\<rparr>"
  have fresh: "(\<exists>cfg. new_node cfg = Inr (h_node d) \<and> c_id cfg = i) \<and> replayed draw c [] (h_app d) \<and> h_sent d = []"
    if "ds i = Some d" for i d
  proof -
    from started[OF that] obtain os can cfg where cfg: "new_durable_node os can cfg None = Inr d" "dc_id cfg = i" "dc_index cfg = c"
      unfolding fresh_durable_def by blast
    from new_durable_fresh[OF cfg(1)] obtain h where h: "new_node (raft_config cfg) = Inr (h_node d)" "new_hnsw (dc_index cfg) = Inr h"
      "h_app d = new_app h" "h_sent d = []" .
    have "c_id (raft_config cfg) = i" using cfg(2) by (simp add: raft_config_def Let_def)
    moreover have "sound_app draw (h_app d)" using new_app_sound[OF _ assms(2,3)] h(2,3) cfg(3) by simp
    ultimately show ?thesis using h cfg(3) by (auto simp: replayed_def graph_of_def new_app_def)
  qed
  then have "net_start ?s" by (auto simp: net_start_def)
  moreover have "tracks (replayed draw c) ds ?s" using fresh by (auto simp: tracks_def)
  ultimately show ?case by blast
next
  case (call ds i d it ws r os d')
  then obtain s0 s where s: "net_start s0" "net_step\<^sup>*\<^sup>* s0 s" "tracks (replayed draw c) ds s" by blast
  from group_call_host[OF call.hyps(5) s(3)] show ?case
  proof cases
    case 1
    then have "ds(i \<mapsto> d') = ds" using call.hyps(2,6) by auto
    then show ?thesis using s by metis
  next
    case (2 r0)
    have "left_state r0 = Some d'" "r0 \<noteq> Failed ApplyFailed d'"
      using call.hyps(6,7) 2(1) settle_left settle_Failed by metis+
    from logged_application.tracks_operation[OF durable_logs[OF call.hyps(4)] s(3) call.hyps(2,3) 2(2) this]
    show ?thesis using s(1,2) by (meson rtranclp_trans)
  qed
qed



subsection \<open>Deleting what is not there\<close>

fun durable_ticks :: "level_source \<Rightarrow> walks \<Rightarrow> map_range \<Rightarrow> (nat \<Rightarrow> nat \<Rightarrow> faults) \<Rightarrow> nat \<Rightarrow> durable \<Rightarrow> durable option" where
  \<comment> \<open>\<open>k\<close> ticks, whatever they return\<close>
  "durable_ticks draw ws it os 0 d = Some d"
| "durable_ticks draw ws it os (Suc k) d =
     (case left_state (d_tick it (os k) draw ws d) of None \<Rightarrow> None | Some d' \<Rightarrow> durable_ticks draw ws it os k d')"

lemma durable_ticks_host: "durable_ticks draw ws it os k d = Some d' \<Longrightarrow> host_ticks it os (d_apply draw ws) k d = Some d'"
proof (induction k arbitrary: d)
  case (Suc k)
  then obtain d1 where d1: "left_state (d_tick it (os k) draw ws d) = Some d1" "durable_ticks draw ws it os k d1 = Some d'"
    by (auto split: option.splits)
  then have "left_state (host_tick it (os k) (d_apply draw ws) d) = Some d1" by (simp add: d_tick_def settle_left)
  then show ?case using Suc.IH[OF d1(2)] by simp
qed simp

lemma mutation_not_internal: "marshal_mutation m = Some data \<Longrightarrow> \<not> is_raft_internal_data data"
  using internal_data_starts_with_zero[of data] by (auto simp: marshal_mutation_def)

definition lacks :: "level_source \<Rightarrow> bytes \<Rightarrow> durable_app \<Rightarrow> bool" where
  \<comment> \<open>there is no vector under the ID\<close>
  "lacks draw i a \<longleftrightarrow> sound_app draw a \<and> fmlookup (vectors (da_index a)) i = None"

lemma insert_vectors:
  assumes "ready_with draw h" "h_insert sorted_list_of_set sorted_list_of_set draw i v h = Done h'"
  shows "vectors h' = fmupd i v (vectors h)"
proof -
  have h: "hnsw_ok h" "fair_levels draw" "2 \<le> cf_m (h_cfg h)" using assms(1) by (simp_all add: ready_with_def index_ready_def)
  have iv: "i \<noteq> []" "h_validate h v = None" using assms(2) by (auto simp: h_insert_def split: if_splits option.splits)
  from insert_effect[OF h(1) iv h(2,3) sorted_set_any_order sorted_set_any_order] assms(2) show ?thesis by fastforce
qed

lemma delete_vectors:
  assumes "ready_with draw h" "h_delete sorted_list_of_set sorted_list_of_set i h = Done h'"
  shows "vectors h' = fmdrop i (vectors h)"
proof -
  have h: "hnsw_ok h" using assms(1) by (simp add: ready_with_def index_ready_def)
  have "fmlookup (vectors h) i \<noteq> None" using assms(2) by (cases "fmlookup (h_nodes h) i") (auto simp: vectors_def h_delete_missing)
  from delete_effect[OF h this sorted_set_any_order sorted_set_any_order] assms(2) show ?thesis by fastforce
qed

definition inserts_key :: "bytes \<Rightarrow> bytes \<Rightarrow> bool" where
  \<comment> \<open>the entry data decodes to an insert under the ID\<close>
  "inserts_key i data \<longleftrightarrow> (\<exists>m. unmarshal_mutation data = Some m \<and> mu_operation m = ascii ''insert'' \<and> mu_id m = i)"

lemma outcome_Done_map: "map_outcome f id r = Done x \<longleftrightarrow> r = Done x"
  by (cases r) auto

lemma lacks_apply:
  assumes "lacks draw i a" "\<And>n. fair_walks (ws n)" "\<not> inserts_key i (e_data e)"
  shows "lacks draw i (snd (d_apply draw ws e a))"
proof -
  have a: "sound_app draw a" "ready_with draw (da_index a)" "fmlookup (vectors (da_index a)) i = None"
    using assms(1) by (simp_all add: lacks_def sound_app_def)
  from a(1) assms(2) show ?thesis
  proof (cases rule: d_apply_cases[where draw=draw and ws=ws and a=a and e=e])
    case (applied h)
    then obtain m where m: "unmarshal_mutation (e_data e) = Some m"
      "mu_operation m = ascii ''insert'' \<and> h_insert sorted_list_of_set sorted_list_of_set draw (mu_id m) (mu_vector m) (da_index a) = Done h \<or>
       h_delete sorted_list_of_set sorted_list_of_set (mu_id m) (da_index a) = Done h"
      by (auto simp: apply_with_def apply_mutation_def outcome_Done_map split: option.splits if_splits)
    then have "fmlookup (vectors h) i = None"
      using a(3) insert_vectors[OF a(2)] delete_vectors[OF a(2)] assms(3) by (fastforce simp: inserts_key_def)
    then show ?thesis using applied a(1) by (simp add: lacks_def sound_app_def)
  next
    case (refused err)
    then show ?thesis using assms(1) by (simp add: lacks_def sound_app_def)
  qed
qed

lemma missing_delete_refused:
  assumes "lacks draw i a" "\<And>n. fair_walks (ws n)" "encode_delete_mutation i = Some (e_data e)"
  shows "\<not> fst (d_apply draw ws e a)"
proof -
  have a: "sound_app draw a" "fmlookup (h_nodes (da_index a)) i = None" using assms(1) by (simp_all add: lacks_def vectors_def)
  have "unmarshal_mutation (e_data e) = Some \<lparr>mu_operation = ascii ''delete'', mu_id = i, mu_vector = []\<rparr>"
    using marshal_mutation_roundtrip[of "\<lparr>mu_operation = ascii ''delete'', mu_id = i, mu_vector = []\<rparr>"] assms(3)
    by (simp add: encode_delete_mutation_def)
  then have no: "apply_with draw sorted_walks (e_data e) (da_index a) = Failed (IndexError IdNotFound) (da_index a)"
    by (simp add: apply_with_def apply_mutation_def h_delete_missing[OF a(2)]) (simp add: ascii_def)
  from a(1) assms(2) show ?thesis
    by (cases rule: d_apply_cases[where draw=draw and ws=ws and a=a and e=e]) (simp_all add: no)
qed

lemma missing_delete_stuck:
  assumes "\<And>n. fair_walks (ws n)" "encode_delete_mutation i = Some (e_data e)" "\<forall>x \<in> set pre. \<not> inserts_key i (e_data x)"
  shows "stuck (d_apply draw ws) (lacks draw i) (pre @ e # post)"
proof -
  have "\<not> inserts_key i (e_data e)"
    using marshal_mutation_roundtrip[of "\<lparr>mu_operation = ascii ''delete'', mu_id = i, mu_vector = []\<rparr>"] assms(2)
    by (auto simp: encode_delete_mutation_def inserts_key_def ascii_def)
  then have "\<forall>a. lacks draw i a \<longrightarrow> \<not> fst (d_apply draw ws e a) \<and> lacks draw i (snd (d_apply draw ws e a))"
    by (auto dest: missing_delete_refused[OF _ assms(1,2)] lacks_apply[OF _ assms(1)])
  moreover have "\<forall>x \<in> set pre. \<forall>a. lacks draw i a \<longrightarrow> lacks draw i (snd (d_apply draw ws x a))"
    using assms(3) by (auto intro: lacks_apply[OF _ assms(1)])
  moreover have "\<not> is_raft_internal_data (e_data e)"
    using assms(2) unfolding encode_delete_mutation_def by (rule mutation_not_internal)
  ultimately show ?thesis unfolding stuck_def by blast
qed


lemma durable_ticks_total:
  assumes "\<And>n. fair_walks (ws n)"
  shows "durable_ok draw d \<Longrightarrow> \<exists>d'. durable_ticks draw ws it os k d = Some d'"
proof (induction k arbitrary: d)
  case (Suc k)
  from tick_durable_ok[where ws=ws and it=it and os="os k", OF Suc.prems assms] obtain d1 where "left_state (d_tick it (os k) draw ws d) = Some d1" "durable_ok draw d1"
    unfolding leaves_iff by blast
  then show ?case using Suc.IH by simp
qed simp

definition stranded :: durable where
  \<comment> \<open>the delete of \<open>[9]\<close> is committed, not applied; the index holds four other IDs\<close>
  "stranded = \<lparr>h_node = (sample_node Follower (simple_membership {1, 2, 3}))\<lparr>nd_log :=
       \<lparr>entries = [zero_entry, \<lparr>e_index = 1, e_term = 1, e_data = the (encode_delete_mutation [9])\<rparr>], committed = 1, applied = 0\<rparr>\<rparr>,
     h_db = empty_store, h_peers = Mapping.empty, h_sent = [], h_app = new_app demo\<rparr>"

lemma demo_ready: "ready_with flat_levels demo"
  using demo_ok flat_levels_fair by (simp add: ready_with_def index_ready_def demo_cfg_def)

lemma stranded_ok: "durable_ok flat_levels stranded"
proof -
  have "node_wf (h_node stranded)" by code_simp
  then show ?thesis using demo_ready by (simp add: durable_ok_def sound_app_def) (simp add: stranded_def new_app_def)
qed

theorem durable_node_stays_well_formed_witness:
  "leaves (durable_ok flat_levels) (d_tick sorted_range (\<lambda>_. no_faults) flat_levels (\<lambda>_. sorted_walks) stranded)"
proof (rule durable_node_stays_well_formed[OF stranded_ok])
  show "\<forall>n. fair_walks ((\<lambda>_ :: nat. sorted_walks) n)" by (simp add: sorted_walks_fair)
qed (auto simp: durable_calls_def)


subsection \<open>Restarting\<close>

lemma apply_replays:
  assumes "\<And>n. fair_walks (ws n)"
  shows "sound_app draw a \<Longrightarrow>
    replay (apply_with draw sorted_walks) (map e_data (filter (\<lambda>e. \<not> is_raft_internal_data (e_data e)) es)) (da_index a) = Some g \<Longrightarrow>
    \<exists>a'. apply_entries (d_apply draw ws) es a = (True, a') \<and> da_index a' = g \<and> sound_app draw a' \<and>
      da_applied a' = da_applied a + int (length (filter (\<lambda>e. \<not> is_raft_internal_data (e_data e)) es))"
proof (induction es arbitrary: a)
  case (Cons e es)
  show ?case
  proof (cases "is_raft_internal_data (e_data e)")
    case True
    then show ?thesis using Cons by simp
  next
    case False
    from Cons.prems(1) assms show ?thesis
    proof (cases rule: d_apply_cases[where draw=draw and ws=ws and a=a and e=e])
      case (applied h)
      let ?a = "a\<lparr>da_calls := da_calls a + 1, da_index := h, da_applied := da_applied a + 1\<rparr>"
      have "sound_app draw ?a" using applied(2) Cons.prems(1) by (simp add: sound_app_def)
      moreover have "replay (apply_with draw sorted_walks) (map e_data (filter (\<lambda>e. \<not> is_raft_internal_data (e_data e)) es)) (da_index ?a) = Some g"
        using Cons.prems(2) applied(1) False by simp
      ultimately show ?thesis using Cons.IH[of ?a] applied(3) False by auto
    next
      case (refused err)
      then show ?thesis using Cons.prems(2) False by simp
    qed
  qed
qed simp

text \<open>
  C8: A restart rebuilds the graph. Let a node be opened, after a crash, on a directory whose store holds a hard
  state with a commit index and the entries of a log. Then its first tick, on a disk without faults, returns
  no error, and its graph is the mutations of the committed entries replayed into an empty graph: what every
  replica that applied these entries has. Nothing of an uncommitted entry is in it.
\<close>
theorem restart_rebuilds_the_graph:
  assumes "stores hs (index_map es) s" "synced_db s" "batch_at 1 es" "unat (hs_commit hs) \<le> length es" "crashed (w_file (db_wal s)) f"
    and "new_durable_node no_faults can c (Some f) = Inr d" "fair_levels draw" "2 \<le> cf_m (dc_index c)" "\<forall>n. fair_walks (ws n)"
    and "graph_of draw (dc_index c) (filter (\<lambda>e. \<not> is_raft_internal_data (e_data e)) (take (unat (hs_commit hs)) es)) = Some g"
  shows "\<exists>d'. d_tick it (\<lambda>_. no_faults) draw ws d = Done d' \<and> da_index (h_app d') = g \<and>
    applied_count d' = int (length (filter (\<lambda>e. \<not> is_raft_internal_data (e_data e)) (take (unat (hs_commit hs)) es)))"
proof -
  from new_durable_cases[OF assms(6)] obtain s' h n where new: "db_open no_faults \<lparr>op_dir = dc_dir c, op_sync_every = 0\<rparr> (Some f) = Inr s'"
    "new_hnsw (dc_index c) = Inr h" "recover_node (raft_config c) (Some s') = Inr n"
    "d = \<lparr>h_node = n, h_db = s', h_peers = dc_transport_peers c, h_sent = [], h_app = new_app h\<rparr>" .
  have "dc_dir c \<noteq> []" using new(1) by (auto simp: db_open_def)
  then have "restart_db s s'" using new(1) assms(5) unfolding restart_db_def
    by (intro exI[of _ "\<lparr>op_dir = dc_dir c, op_sync_every = 0\<rparr>"] exI[of _ f]) simp
  then have st: "stores hs (index_map es) s'" using stores_restart[OF assms(1,2)] by blast
  obtain n0 where n0: "new_node (raft_config c) = Inr n0" using new(3) by (auto simp: recover_node_def split: sum.splits)
  have n: "nd_log n = \<lparr>entries = zero_entry # es, committed = hs_commit hs, applied = 0\<rparr>"
    using recover_stored[OF st assms(3) n0 new_node_log[OF n0] assms(4)] new(3) by (auto simp: recompute_membership_eq)
  have last: "unat (e_index (last es)) = length es" if "es \<noteq> []"
    using assms(3) that by (simp add: batch_at_def last_conv_nth)
  have batch: "rd_committed_entries (ready (tick it n)) = take (unat (hs_commit hs)) es"
    using assms(4) last by (auto simp: ready_def Let_def tick_log n entries_from_def last_index_def word_less_unat)
  have sound: "sound_app draw (new_app h)" using new_app_sound[OF new(2) assms(7,8)] .
  obtain a where a: "apply_entries (d_apply draw ws) (take (unat (hs_commit hs)) es) (new_app h) = (True, a)" "da_index a = g" "sound_app draw a"
    "da_applied a = int (length (filter (\<lambda>e. \<not> is_raft_internal_data (e_data e)) (take (unat (hs_commit hs)) es)))"
    using apply_replays[OF _ sound, of ws "take (unat (hs_commit hs)) es" g] assms(9,10) new(2) by (auto simp: graph_of_def new_app_def)
  let ?h = "d\<lparr>h_node := tick it n\<rparr>"
  have opened: "\<not> db_closed (h_db ?h)" using stores_bare_view(1)[OF st] good_db_finite new(4) by simp
  obtain s2 where s2: "persist (\<lambda>_. no_faults) (ready (h_node ?h)) (h_db ?h) = Done s2" using persist_no_faults[OF opened] by blast
  obtain d' where d': "left_state (drive_locked (\<lambda>_. no_faults) (d_apply draw ws) ?h) = Some d'"
    using drive_never_panics[of "\<lambda>_. no_faults" "d_apply draw ws" ?h] by (cases "drive_locked (\<lambda>_. no_faults) (d_apply draw ws) ?h") auto
  have "drive_locked (\<lambda>_. no_faults) (d_apply draw ws) ?h = Done d' \<and> h_app d' = a"
    using d'
  proof (cases rule: drive_cases)
    case idle
    have none: "take (unat (hs_commit hs)) es = []" using idle(1) batch unfolding idle_def new(4) by (simp del: take_eq_Nil)
    have "a = new_app h" using a(1) unfolding none by simp
    then show ?thesis using idle new(4) by simp
  qed (use s2 batch a(1) new(4) in auto)
  then show ?thesis
    using a new(4) by (auto simp: d_tick_def host_tick_def settle_Done sound_app_def applied_count_def)
qed

definition saved_insert :: "nat \<Rightarrow> entry" where
  "saved_insert i = \<lparr>e_index = of_nat i, e_term = 1, e_data = the (encode_mutation [of_nat i] [Fin 0, Fin 0])\<rparr>"

definition saved_work :: ready_work where
  \<comment> \<open>two inserts, the first committed\<close>
  "saved_work = \<lparr>rd_hard_state = \<lparr>hs_term = 1, hs_vote = 0, hs_commit = 1\<rparr>, rd_entries = [saved_insert 1, saved_insert 2],
     rd_committed_entries = [], rd_messages = []\<rparr>"

lemma length_print_string: "length (print_string s) \<le> 6 * length s + 2"
proof -
  have "length (concat (map escape_byte s)) \<le> 6 * length s"
    by (induction s) (auto simp: escape_byte_def)
  then show ?thesis by (simp add: print_string_def)
qed

lemma length_b64: "length (b64_encode bs) \<le> 2 * length bs + 4"
  by (induction bs rule: b64_encode.induct) (auto simp: Let_def)

lemma length_marshal_entry:
  "length (marshal_entry e) \<le> length (show_nat (unat (e_index e))) + length (show_nat (unat (e_term e))) + 12 * length (e_data e) + 200"
proof -
  have shape: "length (print_json (JObj [(a, JNum x), (b, JNum y), (c, v)])) =
      length (print_string a) + length x + length (print_string b) + length y + length (print_string c) + length (print_json v) + 7" for a b c x y v
    by simp
  have "length (print_json (json_bytes (e_data e))) \<le> 12 * length (e_data e) + 26"
    using length_print_string[of "b64_encode (e_data e)"] length_b64[of "e_data e"] by (auto simp: json_bytes_def ascii_def)
  moreover have "length (print_string (ascii ''Index'')) \<le> 32" "length (print_string (ascii ''Term'')) \<le> 32" "length (print_string (ascii ''Data'')) \<le> 32"
    using length_print_string[of "ascii ''Index''"] length_print_string[of "ascii ''Term''"] length_print_string[of "ascii ''Data''"]
    by (simp_all add: ascii_def)
  ultimately show ?thesis unfolding marshal_entry_def entry_json_def json_uint_def shape by linarith
qed
lemma saved_work_fits: "ready_fits saved_work"
proof -
  have len: "length (marshal_hard_state (rd_hard_state saved_work)) < 60"
    "list_all (\<lambda>e. length (show_nat (unat (e_index e))) + length (show_nat (unat (e_term e))) < 10 \<and> length (e_data e) < 100) (rd_entries saved_work)"
    by code_simp+
  have key: "length hard_state_key < 100" "length (entry_key i) < 100" for i
    by (simp_all add: hard_state_key_def entry_key_def log_prefix_def ascii_def)
  have "4 + length (entry_key (e_index e)) + length (marshal_entry e) < 2 ^ 32" if "e \<in> set (rd_entries saved_work)" for e
    using len(2) that length_marshal_entry[of e] key(2)[of "e_index e"] unfolding list_all_iff by fastforce
  then show ?thesis using len(1) key(1) unfolding ready_fits_def record_fits_def by simp
qed

lemma reopened:
  assumes "synced_db s"
  obtains f s' where "crashed (w_file (db_wal s)) f" "db_open no_faults store_options (Some f) = Inr s'"
proof -
  obtain rs where rs: "db_holds rs (length rs) s" using assms by (auto simp: synced_db_def)
  let ?f = "\<lparr>f_bytes = f_bytes (w_file (db_wal s)), f_synced = length (f_bytes (w_file (db_wal s)))\<rparr>"
  have "crashed (w_file (db_wal s)) ?f" using rs by (auto simp: crashed_def db_holds_def wal_holds_def)
  then show ?thesis using that db_reopen_holds[OF rs _ store_options_dir, of ?f] by blast
qed

lemma saved_insert_graph: "\<exists>g. graph_of flat_levels demo_cfg [saved_insert 1] = Some g"
proof -
  let ?m = "\<lparr>mu_operation = ascii ''insert'', mu_id = [1], mu_vector = [Fin 0, Fin 0]\<rparr>"
  obtain h where h: "new_hnsw demo_cfg = Inr h" by (simp add: new_hnsw_def demo_cfg_def)
  then have ok: "hnsw_ok h" "h_cfg h = demo_cfg" using new_hnsw_ok by auto
  have M: "2 \<le> cf_m (h_cfg h)" "h_validate h [Fin 0, Fin 0] = None"
    using ok(2) by (simp_all add: demo_cfg_def h_validate_def validate_dimension_def)
  have "round32 0 0 = Fin 0" by code_simp
  then have "unmarshal_mutation (e_data (saved_insert 1)) = Some ?m"
    using marshal_mutation_roundtrip[of ?m] by (auto simp: saved_insert_def encode_mutation_def representable_def)
  moreover obtain g where "h_insert sorted_list_of_set sorted_list_of_set flat_levels [1] [Fin 0, Fin 0] h = Done g"
    using insert_effect[OF ok(1) _ M(2) flat_levels_fair M(1) sorted_set_any_order sorted_set_any_order, of "[1]"] by blast
  ultimately show ?thesis using h by (simp add: graph_of_def apply_with_def apply_mutation_def)
qed

theorem restart_rebuilds_the_graph_witness:
  "\<exists>s f d d'. stores (rd_hard_state saved_work) (index_map (rd_entries saved_work)) s \<and> crashed (w_file (db_wal s)) f \<and>
    new_durable_node no_faults True (member_config [1, 2] 1) (Some f) = Inr d \<and>
    d_tick sorted_range (\<lambda>_. no_faults) flat_levels (\<lambda>_. sorted_walks) d = Done d' \<and> applied_count d' = 1 \<and>
    graph_of flat_levels demo_cfg [saved_insert 1] = Some (da_index (h_app d'))"
proof -
  let ?hs = "rd_hard_state saved_work" and ?es = "rd_entries saved_work"
  have "db_holds [] 0 empty_store" using db_open_fresh[OF store_options_dir open_empty] .
  moreover obtain s where "persist (\<lambda>_. no_faults) saved_work empty_store = Done s"
    using persist_no_faults[of empty_store saved_work] by (auto simp: empty_store_def)
  ultimately have s: "stores ?hs (index_map ?es) s" "synced_db s" using persist_fresh saved_work_fits by blast+
  from reopened[OF s(2)] obtain f s' where f: "crashed (w_file (db_wal s)) f" "db_open no_faults store_options (Some f) = Inr s'" .
  then have "restart_db s s'" using store_options_dir unfolding restart_db_def by blast
  then have s': "stores ?hs (index_map ?es) s'" using stores_restart[OF s] by blast
  have es: "batch_at 1 ?es" "unat (hs_commit ?hs) \<le> length ?es"
    by (simp_all add: saved_work_def saved_insert_def batch_at_def less_Suc_eq)
  have "case new_node (raft_config (member_config [1, 2] 1)) of Inl e \<Rightarrow> False | Inr n \<Rightarrow> True" by code_simp
  then obtain n0 where n0: "new_node (raft_config (member_config [1, 2] 1)) = Inr n0" by (auto split: sum.splits)
  obtain n where n: "recover_node (raft_config (member_config [1, 2] 1)) (Some s') = Inr n"
    using recover_stored[OF s' es(1) n0 new_node_log[OF n0] es(2)] by blast
  obtain h where h: "new_hnsw demo_cfg = Inr h" by (simp add: new_hnsw_def demo_cfg_def)
  obtain d where d: "new_durable_node no_faults True (member_config [1, 2] 1) (Some f) = Inr d"
    using f(2) n h by (simp add: new_durable_node_def new_host_def raft_config_def member_config_def store_options_def Let_def)
  obtain g where g: "graph_of flat_levels demo_cfg [saved_insert 1] = Some g" using saved_insert_graph by blast
  have "\<not> is_raft_internal_data (e_data (saved_insert 1))" by code_simp
  then have user: "filter (\<lambda>e. \<not> is_raft_internal_data (e_data e)) (take (unat (hs_commit ?hs)) ?es) = [saved_insert 1]"
    by (simp add: saved_work_def)
  have cfg: "dc_index (member_config [1, 2] 1) = demo_cfg" "2 \<le> cf_m (dc_index (member_config [1, 2] 1))" by (simp_all add: member_config_def demo_cfg_def)
  have fair: "\<forall>n. fair_walks ((\<lambda>_ :: nat. sorted_walks) n)" by (simp add: sorted_walks_fair)
  have "graph_of flat_levels (dc_index (member_config [1, 2] 1)) (filter (\<lambda>e. \<not> is_raft_internal_data (e_data e)) (take (unat (hs_commit ?hs)) ?es)) = Some g"
    unfolding user cfg(1) by (rule g)
  from restart_rebuilds_the_graph[OF s es f(1) d flat_levels_fair cfg(2) fair this, of sorted_range]
  show ?thesis using s(1) f(1) d g unfolding user by auto
qed

end
