(* ===== verification/Server.thy ===== *)
theory Server
  imports Durable_Runs
begin

section \<open>internal/server/service.go: the public API\<close>

text \<open>
  \<open>Service\<close> checks requests and passes them to an index. The Go interface \<open>Index\<close> is the record \<open>index_ops\<close> of
  its methods over a state; \<open>hnsw_ops\<close> and \<open>durable_ops\<close> are the two implementations. An answer of the API is a
  status code (the text is not modelled). What gRPC does is an argument: the requests it hands out, whether
  the stream ends well, how many results can be sent. A nil \<open>Vector\<close> is \<open>None\<close>. \<open>srt\<close> is \<open>sort.Slice\<close> by distance,
  which may order equal distances in any way. The lock only orders the calls.
\<close>

datatype rpc_error = InvalidArgument | NotFound | StreamBroken

record ('s, 'e, 'f) index_ops =
  ix_insert :: "bytes \<Rightarrow> vec \<Rightarrow> 's \<Rightarrow> ('e, 's) outcome"
  ix_delete :: "bytes \<Rightarrow> 's \<Rightarrow> ('e, 's) outcome"
  ix_search :: "vec \<Rightarrow> int \<Rightarrow> int \<Rightarrow> 's \<Rightarrow> ('f, result list) outcome"
  ix_validate :: "vec \<Rightarrow> 's \<Rightarrow> vector_error option"
  ix_status :: "('s \<Rightarrow> node_id \<times> u64 \<times> bool) option"   \<comment> \<open>\<open>None\<close>: the type has no such method\<close>

record upsert_request =
  ur_id :: bytes
  ur_vector :: "vec option"

record search_request =
  sr_query :: "vec option"
  sr_k :: u32
  sr_ef :: u32

record status_response =
  st_role :: string
  st_term :: u64

definition no_values :: "vec option \<Rightarrow> bool" where
  "no_values v \<longleftrightarrow> (case v of None \<Rightarrow> True | Some xs \<Rightarrow> xs = [])"

subsection \<open>Upsert\<close>

fun receive_batch ::
  "('s, 'e, 'f) index_ops \<Rightarrow> 's \<Rightarrow> bool \<Rightarrow> upsert_request list \<Rightarrow> bytes set \<Rightarrow> upsert_request list \<Rightarrow> rpc_error + upsert_request list" where
  \<comment> \<open>\<open>ends\<close>: the stream ends with EOF; the last arguments are \<open>seen\<close> and \<open>requests\<close>\<close>
  "receive_batch ix s ends [] seen acc = (if ends then Inr acc else Inl StreamBroken)"
| "receive_batch ix s ends (r # rs) seen acc =
     (if ur_id r = [] \<or> no_values (ur_vector r) then Inl InvalidArgument
      else if ur_id r \<in> seen then Inl InvalidArgument
      else case ix_validate ix (the (ur_vector r)) s of
             Some e \<Rightarrow> Inl InvalidArgument
           | None \<Rightarrow> receive_batch ix s ends rs (insert (ur_id r) seen) (acc @ [r]))"

fun insert_batch :: "('s, 'e, 'f) index_ops \<Rightarrow> upsert_request list \<Rightarrow> 's \<Rightarrow> (rpc_error, 's) outcome" where
  "insert_batch ix [] s = Done s"
| "insert_batch ix (r # rs) s =
     and_then (map_outcome (\<lambda>_. InvalidArgument) id (ix_insert ix (ur_id r) (the (ur_vector r)) s)) (insert_batch ix rs) id"

definition svc_upsert ::
  "('s, 'e, 'f) index_ops \<Rightarrow> bool \<Rightarrow> bool \<Rightarrow> upsert_request list \<Rightarrow> 's \<Rightarrow> (rpc_error, 's) outcome \<times> u64 option" where
  \<comment> \<open>with \<open>accepted\<close>, when a response is sent; the second flag says whether it can be\<close>
  "svc_upsert ix ends replies rs s =
     (case receive_batch ix s ends rs {} [] of
        Inl e \<Rightarrow> (Failed e s, None)
      | Inr requests \<Rightarrow>
          (case insert_batch ix requests s of
             Done s' \<Rightarrow> if replies then (Done s', Some (of_nat (length requests))) else (Failed StreamBroken s', None)
           | r \<Rightarrow> (r, None)))"

subsection \<open>Search, Delete, Status\<close>

definition sorts_by_distance :: "(result list \<Rightarrow> result list) \<Rightarrow> bool" where
  \<comment> \<open>what \<open>sort.Slice\<close> promises for distances that are not NaN\<close>
  "sorts_by_distance srt \<longleftrightarrow> (\<forall>rs. mset (srt rs) = mset rs \<and>
     ((\<forall>r \<in> set rs. r_distance r \<noteq> Nan) \<longrightarrow> sorted (map r_distance (srt rs))))"

definition svc_search ::
  "('s, 'e, 'f) index_ops \<Rightarrow> (result list \<Rightarrow> result list) \<Rightarrow> nat option \<Rightarrow> search_request \<Rightarrow> 's \<Rightarrow> (rpc_error, result list) outcome" where
  \<comment> \<open>the results that were sent; sending fails after the given number of results\<close>
  "svc_search ix srt sends r s =
     (if no_values (sr_query r) \<or> sr_k r = 0 then Failed InvalidArgument []
      else case ix_search ix (the (sr_query r)) (int (unat (sr_k r))) (int (unat (sr_ef r))) s of
        Panic \<Rightarrow> Panic
      | Failed e rs \<Rightarrow> Failed InvalidArgument []
      | Done rs \<Rightarrow>
          let sorted = srt rs;
              out = (if unat (sr_k r) < length sorted then take (unat (sr_k r)) sorted else sorted)
          in case sends of
               None \<Rightarrow> Done out
             | Some n \<Rightarrow> if length out \<le> n then Done out else Failed StreamBroken (take n out))"

definition svc_delete :: "('s, 'e, 'f) index_ops \<Rightarrow> bytes \<Rightarrow> 's \<Rightarrow> (rpc_error, 's) outcome" where
  "svc_delete ix i s =
     (if i = [] then Failed InvalidArgument s else map_outcome (\<lambda>_. NotFound) id (ix_delete ix i s))"

definition svc_status :: "('s, 'e, 'f) index_ops \<Rightarrow> 's \<Rightarrow> status_response" where
  "svc_status ix s =
     (case ix_status ix of
        None \<Rightarrow> \<lparr>st_role = ''single-node'', st_term = 0\<rparr>
      | Some stat \<Rightarrow>
          let (l, term, leader) = stat s
          in if leader then \<lparr>st_role = ''leader'', st_term = term\<rparr> else \<lparr>st_role = ''not-leader'', st_term = term\<rparr>)"

subsection \<open>The two indexes\<close>

definition hnsw_ops :: "bytes walk \<times> int walk \<Rightarrow> level_source \<Rightarrow> (hnsw, ann_error, ann_error) index_ops" where
  "hnsw_ops w draw = \<lparr>ix_insert = h_insert (fst w) (snd w) draw, ix_delete = h_delete (fst w) (snd w), ix_search = h_search,
     ix_validate = (\<lambda>v h. h_validate h v), ix_status = None\<rparr>"

definition durable_ops :: "(nat \<Rightarrow> faults) \<Rightarrow> level_source \<Rightarrow> walks \<Rightarrow> (durable, durable_error, ann_error) index_ops" where
  "durable_ops os draw ws = \<lparr>ix_insert = d_insert os draw ws, ix_delete = d_delete os draw ws, ix_search = d_search,
     ix_validate = d_validate, ix_status = Some d_status\<rparr>"

subsection \<open>Checking a batch\<close>

definition acceptable :: "('s, 'e, 'f) index_ops \<Rightarrow> 's \<Rightarrow> upsert_request list \<Rightarrow> bool" where
  \<comment> \<open>what \<open>Upsert\<close> checks before it touches the index\<close>
  "acceptable ix s rs \<longleftrightarrow> distinct (map ur_id rs) \<and>
     (\<forall>r \<in> set rs. ur_id r \<noteq> [] \<and> \<not> no_values (ur_vector r) \<and> ix_validate ix (the (ur_vector r)) s = None)"

definition put_batch :: "upsert_request list \<Rightarrow> (bytes, vec) fmap \<Rightarrow> (bytes, vec) fmap" where
  "put_batch rs m = fold (\<lambda>r. fmupd (ur_id r) (the (ur_vector r))) rs m"

lemma receive_batch_iff:
  "receive_batch ix s ends rs seen acc = Inr out \<longleftrightarrow>
   ends \<and> acceptable ix s rs \<and> ur_id ` set rs \<inter> seen = {} \<and> out = acc @ rs"
proof (induction ix s ends rs seen acc arbitrary: out rule: receive_batch.induct)
  case (2 ix s ends r rs seen acc)
  then show ?case by (auto simp: acceptable_def split: option.splits)
qed (auto simp: acceptable_def)

subsection \<open>What the service needs of an index\<close>

locale vector_index =
  fixes ok :: "'s \<Rightarrow> bool" and contents :: "'s \<Rightarrow> (bytes, vec) fmap" and ix :: "('s, 'e, 'f) index_ops"
  assumes inserts: "ok s \<Longrightarrow> i \<noteq> [] \<Longrightarrow> ix_validate ix v s = None \<Longrightarrow>
      \<exists>s'. ix_insert ix i v s = Done s' \<and> ok s' \<and> contents s' = fmupd i v (contents s) \<and> (\<forall>w. ix_validate ix w s' = ix_validate ix w s)"
    and deletes: "ok s \<Longrightarrow> fmlookup (contents s) i \<noteq> None \<Longrightarrow>
      \<exists>s'. ix_delete ix i s = Done s' \<and> ok s' \<and> contents s' = fmdrop i (contents s)"
    and refuses: "ok s \<Longrightarrow> fmlookup (contents s) i = None \<Longrightarrow> \<exists>e. ix_delete ix i s = Failed e s"
    and searches: "ok s \<Longrightarrow> 0 < k \<Longrightarrow>
      (case ix_search ix q k ef s of Done rs \<Rightarrow> ix_validate ix q s = None \<and> length rs \<le> nat k \<and> (\<forall>r \<in> set rs. r_distance r \<noteq> Nan)
       | Failed e rs \<Rightarrow> ix_validate ix q s \<noteq> None | Panic \<Rightarrow> False)"
begin

lemma batch_inserted:
  "ok s \<Longrightarrow> \<forall>r \<in> set rs. ur_id r \<noteq> [] \<and> ix_validate ix (the (ur_vector r)) s = None \<Longrightarrow>
   \<exists>s'. insert_batch ix rs s = Done s' \<and> ok s' \<and> contents s' = put_batch rs (contents s)"
proof (induction rs arbitrary: s)
  case (Cons r rs)
  then obtain s1 where s1: "ix_insert ix (ur_id r) (the (ur_vector r)) s = Done s1" "ok s1"
    "contents s1 = fmupd (ur_id r) (the (ur_vector r)) (contents s)" "\<forall>w. ix_validate ix w s1 = ix_validate ix w s"
    using inserts[of s "ur_id r" "the (ur_vector r)"] by auto
  then show ?case using Cons.IH[of s1] Cons.prems by (simp add: put_batch_def)
qed (simp add: put_batch_def)

lemma upsert_served:
  assumes "ok s"
  shows "case svc_upsert ix ends replies rs s of
      (Done s', n) \<Rightarrow> ends \<and> replies \<and> acceptable ix s rs \<and> ok s' \<and> contents s' = put_batch rs (contents s) \<and> n = Some (of_nat (length rs))
    | (Failed e s', n) \<Rightarrow> n = None \<and>
        (if ends \<and> acceptable ix s rs then \<not> replies \<and> ok s' \<and> contents s' = put_batch rs (contents s) else s' = s)
    | (Panic, n) \<Rightarrow> False"
proof (cases "ends \<and> acceptable ix s rs")
  case True
  then have recv: "receive_batch ix s ends rs {} [] = Inr rs" by (simp add: receive_batch_iff)
  from batch_inserted[OF assms] True obtain s' where "insert_batch ix rs s = Done s'" "ok s'" "contents s' = put_batch rs (contents s)"
    unfolding acceptable_def by blast
  then show ?thesis using recv True by (simp add: svc_upsert_def)
next
  case False
  then obtain e where "receive_batch ix s ends rs {} [] = Inl e"
    using receive_batch_iff[of ix s ends rs "{}" "[]"] by (cases "receive_batch ix s ends rs {} []") auto
  then show ?thesis using False by (auto simp: svc_upsert_def)
qed

lemma search_served:
  assumes "ok s" "sorts_by_distance srt"
  shows "case svc_search ix srt sends r s of
      Done out \<Rightarrow> length out \<le> unat (sr_k r) \<and> sorted (map r_distance out) \<and>
        (\<exists>rs. ix_search ix (the (sr_query r)) (int (unat (sr_k r))) (int (unat (sr_ef r))) s = Done rs \<and> mset out = mset rs)
    | Failed e out \<Rightarrow> e = InvalidArgument \<and> out = [] \<and> (no_values (sr_query r) \<or> sr_k r = 0 \<or> ix_validate ix (the (sr_query r)) s \<noteq> None) \<or>
        e = StreamBroken \<and> sends = Some (length out) \<and> length out < unat (sr_k r) \<and> sorted (map r_distance out)
    | Panic \<Rightarrow> False"
proof (cases "no_values (sr_query r) \<or> sr_k r = 0")
  case True
  then show ?thesis by (auto simp: svc_search_def)
next
  case False
  then have "0 < int (unat (sr_k r))" by (simp only: of_nat_0_less_iff unat_gt_0 de_Morgan_disj simp_thms)
  note found = searches[OF assms(1) this, of "the (sr_query r)" "int (unat (sr_ef r))"]
  show ?thesis
  proof (cases "ix_search ix (the (sr_query r)) (int (unat (sr_k r))) (int (unat (sr_ef r))) s")
    case (Done rs)
    have m: "mset (srt rs) = mset rs" using assms(2) by (simp add: sorts_by_distance_def)
    have hits: "length rs \<le> unat (sr_k r)" "\<forall>r \<in> set rs. r_distance r \<noteq> Nan"
      using found unfolding Done by simp_all
    have len: "length (srt rs) \<le> unat (sr_k r)" using hits(1) mset_eq_length[OF m] by simp
    have sorted: "sorted (map r_distance (srt rs))" using assms(2) hits(2) by (simp add: sorts_by_distance_def)
    then have part: "sorted (map r_distance (take n (srt rs)))" for n by (simp add: sorted_wrt_take flip: take_map)
    show ?thesis
    proof (cases sends)
      case None
      then show ?thesis using False Done m len sorted by (simp add: svc_search_def Let_def)
    next
      case (Some n)
      then show ?thesis using False Done m len sorted part by (auto simp: svc_search_def Let_def)
    qed
  qed (use found False in \<open>auto simp: svc_search_def\<close>)
qed

lemma delete_served:
  assumes "ok s"
  shows "case svc_delete ix i s of
      Done s' \<Rightarrow> fmlookup (contents s) i \<noteq> None \<and> ok s' \<and> contents s' = fmdrop i (contents s)
    | Failed e s' \<Rightarrow> s' = s \<and> (if i = [] then e = InvalidArgument else e = NotFound \<and> fmlookup (contents s) i = None)
    | Panic \<Rightarrow> False"
  using deletes[OF assms, of i] refuses[OF assms, of i]
  by (cases "i = []"; cases "fmlookup (contents s) i") (auto simp: svc_delete_def)

end

definition served :: "bytes walk \<times> int walk \<Rightarrow> level_source \<Rightarrow> hnsw \<Rightarrow> bool" where
  "served w draw h \<longleftrightarrow> fair_walks w \<and> ready_with draw h"

lemma index_search:
  assumes "hnsw_ok h" "0 < k"
  shows "case h_search q k ef h of
      Done rs \<Rightarrow> h_validate h q = None \<and> length rs \<le> nat k \<and> (\<forall>r \<in> set rs. r_distance r \<noteq> Nan)
    | Failed e rs \<Rightarrow> h_validate h q \<noteq> None | Panic \<Rightarrow> False"
proof (cases "h_validate h q = None \<and> fmdom (h_nodes h) \<noteq> {||}")
  case True
  then obtain e rs where rs: "h_search q k ef h = Done (take (nat k) rs)" "layer_spec (h_nodes h) q e 0 (search_width h ef) rs"
    using search_effect[OF assms(1) _ assms(2), of q ef] by blast
  have "r_distance r \<noteq> Nan" if "r \<in> set rs" for r
  proof -
    have r: "r = result_of (h_nodes h) q (r_id r)" "fmlookup (h_nodes h) (r_id r) \<noteq> None"
      using rs(2) that by (simp_all add: layer_spec_def)
    then obtain n where n: "fmlookup (h_nodes h) (r_id r) = Some n" by blast
    have "l2_squared q (hn_v n) \<noteq> Nan"
      using valid_query_comparable[OF assms(1)] True n by (auto simp: comparable_def)
    then show ?thesis using arg_cong[OF r(1), of r_distance] n by (simp add: result_of_def)
  qed
  then show ?thesis using rs(1) True by (auto dest: in_set_takeD)
next
  case False
  then show ?thesis using assms(2) by (auto simp: h_search_def Let_def split: option.splits)
qed

interpretation graph: vector_index "served w draw" vectors "hnsw_ops w draw" for w draw
proof
  fix h :: hnsw and i :: bytes and v q :: vec and k ef :: int
  assume "served w draw h"
  then have h: "hnsw_ok h" "fair_levels draw" "2 \<le> cf_m (h_cfg h)" and w: "any_order (fst w)" "any_order (snd w)"
    and keep: "\<And>h'. hnsw_ok h' \<Longrightarrow> h_cfg h' = h_cfg h \<Longrightarrow> served w draw h'"
    by (auto simp: served_def fair_walks_def ready_with_def index_ready_def)
  show "\<exists>h'. ix_insert (hnsw_ops w draw) i v h = Done h' \<and> served w draw h' \<and> vectors h' = fmupd i v (vectors h) \<and>
      (\<forall>u. ix_validate (hnsw_ops w draw) u h' = ix_validate (hnsw_ops w draw) u h)"
    if "i \<noteq> []" "ix_validate (hnsw_ops w draw) v h = None"
  proof -
    have "h_validate h v = None" using that(2) by (simp add: hnsw_ops_def)
    from insert_effect[OF h(1) that(1) this h(2,3) w] obtain h' where "h_insert (fst w) (snd w) draw i v h = Done h'" "hnsw_ok h'"
      "vectors h' = fmupd i v (vectors h)" "h_cfg h' = h_cfg h" by blast
    then show ?thesis using keep by (simp add: hnsw_ops_def h_validate_def)
  qed
  show "\<exists>h'. ix_delete (hnsw_ops w draw) i h = Done h' \<and> served w draw h' \<and> vectors h' = fmdrop i (vectors h)"
    if "fmlookup (vectors h) i \<noteq> None"
  proof -
    from delete_effect[OF h(1) that w] obtain h' where "h_delete (fst w) (snd w) i h = Done h'" "hnsw_ok h'"
      "vectors h' = fmdrop i (vectors h)" "h_cfg h' = h_cfg h" by blast
    then show ?thesis using keep by (simp add: hnsw_ops_def)
  qed
  show "\<exists>e. ix_delete (hnsw_ops w draw) i h = Failed e h" if "fmlookup (vectors h) i = None"
    using that h_delete_missing[of h i] by (auto simp: hnsw_ops_def vectors_def)
  show "case ix_search (hnsw_ops w draw) q k ef h of
      Done rs \<Rightarrow> ix_validate (hnsw_ops w draw) q h = None \<and> length rs \<le> nat k \<and> (\<forall>r \<in> set rs. r_distance r \<noteq> Nan)
    | Failed e rs \<Rightarrow> ix_validate (hnsw_ops w draw) q h \<noteq> None | Panic \<Rightarrow> False" if "0 < k"
    using index_search[OF h(1) that, of q ef] by (cases "h_search q k ef h") (simp_all add: hnsw_ops_def)
qed

subsection \<open>What a client can rely on\<close>


lemma demo_served: "served sorted_walks flat_levels demo"
  using demo_ok flat_levels_fair by (simp add: served_def sorted_walks_fair ready_with_def index_ready_def demo_cfg_def)


text \<open>
  C30: \<open>Search\<close> streams the hits of the index, each once, in ascending order of distance and never more than \<open>k\<close>;
  it fails with InvalidArgument exactly for a missing query, \<open>k\<close> = 0 or a vector the index refuses, and when
  sending breaks, what was sent is a beginning of that order.
\<close>
theorem search_streams_the_hits:
  assumes "served w draw h" "sorts_by_distance srt"
  shows "case svc_search (hnsw_ops w draw) srt sends r h of
      Done out \<Rightarrow> length out \<le> unat (sr_k r) \<and> sorted (map r_distance out) \<and>
        (\<exists>rs. h_search (the (sr_query r)) (int (unat (sr_k r))) (int (unat (sr_ef r))) h = Done rs \<and> mset out = mset rs)
    | Failed e out \<Rightarrow> e = InvalidArgument \<and> out = [] \<and> (no_values (sr_query r) \<or> sr_k r = 0 \<or> h_validate h (the (sr_query r)) \<noteq> None) \<or>
        e = StreamBroken \<and> sends = Some (length out) \<and> length out < unat (sr_k r) \<and> sorted (map r_distance out)
    | Panic \<Rightarrow> False"
  using graph.search_served[OF assms, where sends=sends and r=r]
  by (cases "svc_search (hnsw_ops w draw) srt sends r h") (simp_all add: hnsw_ops_def)

lemma sort_key_sorts: "sorts_by_distance (sort_key r_distance)"
  by (simp add: sorts_by_distance_def)

theorem search_streams_the_hits_witness:
  "\<exists>out. svc_search (hnsw_ops sorted_walks flat_levels) (sort_key r_distance) None \<lparr>sr_query = Some demo_query, sr_k = 2, sr_ef = 0\<rparr> demo = Done out \<and>
     length out = 2 \<and> sorted (map r_distance out)"
proof -
  let ?r = "\<lparr>sr_query = Some demo_query, sr_k = 2, sr_ef = 0\<rparr>"
  have "case svc_search (hnsw_ops sorted_walks flat_levels) (sort_key r_distance) None ?r demo of Done out \<Rightarrow> length out = 2 | _ \<Rightarrow> False"
    by code_simp
  then show ?thesis
    using search_streams_the_hits[OF demo_served sort_key_sorts, where sends=None and r="?r"] by (auto split: outcome.split_asm)
qed

text \<open>
  In front of a \<open>DurableNode\<close> the codes say something else than they mean to: a node that is not the leader
  answers a delete with NotFound, whether the ID is stored or not, and a valid upsert with InvalidArgument.
\<close>

lemma follower_propose:
  assumes "nd_role (h_node d) \<noteq> Leader" "\<not> da_panicked (h_app d)"
  shows "\<exists>e d'. settle (host_propose os (d_apply draw ws) data d) = Failed e d' \<and> h_app d' = h_app d"
  using assms by (auto simp: host_propose_def after_node_def propose_def settle_def split: outcome.splits)

lemma follower_codes:
  assumes "nd_role (h_node d) \<noteq> Leader" "\<not> da_panicked (h_app d)" "i \<noteq> []"
  shows "\<exists>d'. svc_delete (durable_ops os draw ws) i d = Failed NotFound d'"
    and "acceptable (durable_ops os draw ws) d (r # rs) \<Longrightarrow>
      \<exists>d'. svc_upsert (durable_ops os draw ws) True replies (r # rs) d = (Failed InvalidArgument d', None)"
proof -
  have "\<exists>e d'. d_delete os draw ws i d = Failed e d'"
    using follower_propose[OF assms(1,2)] by (cases "encode_delete_mutation i") (simp_all add: d_delete_def, blast)
  then show "\<exists>d'. svc_delete (durable_ops os draw ws) i d = Failed NotFound d'"
    using assms(3) by (auto simp: svc_delete_def durable_ops_def)
  assume "acceptable (durable_ops os draw ws) d (r # rs)"
  then have "receive_batch (durable_ops os draw ws) d True (r # rs) {} [] = Inr (r # rs)" by (simp only: receive_batch_iff) simp
  moreover have "\<exists>e d'. d_insert os draw ws (ur_id r) (the (ur_vector r)) d = Failed e d'"
    using follower_propose[OF assms(1,2)] by (cases "encode_mutation (ur_id r) (the (ur_vector r))") (simp_all add: d_insert_def, blast)
  ultimately show "\<exists>d'. svc_upsert (durable_ops os draw ws) True replies (r # rs) d = (Failed InvalidArgument d', None)"
    by (auto simp: svc_upsert_def durable_ops_def)
qed

end
