(* ===== verification/Accepted_Writes.thy ===== *)
theory Accepted_Writes
  imports Server
begin

section \<open>Accepted is not committed\<close>

text \<open>
  \<open>Upsert\<close> answers as soon as the leader has proposed the vectors. This theory follows one accepted request
  through a group of three: the leader loses touch, the others elect a new one, and the vector is gone.
\<close>

lemma calm_insert:
  assumes "shows_as ds ms" "ds i = Some d" "calm_event draw ws (GInsert i k v) ms = Some ms'"
  obtains d' where "d_insert (\<lambda>_. no_faults) draw ws k v d = Done d'" "shows_as (ds(i \<mapsto> d')) ms'"
proof -
  have m: "map_of ms i = Some (view d)" "\<not> db_closed (h_db d)" using assms(1,2) by (simp_all add: shows_as_def)
  obtain bs where bs: "encode_mutation k v = Some bs" "calm_done draw ws i (propose bs (h_node d)) ms = Some ms'"
    using assms(3) m(1) by (auto simp: calm_propose_def view_def split: option.splits)
  then obtain n where n: "propose bs (h_node d) = Done n" by (cases "propose bs (h_node d)") auto
  then obtain m' where m': "calm_drive draw ws n (view d) = Some m'" "ms' = AList.update i m' ms"
    using bs(2) m(1) by auto
  from calm_drive_host[OF m'(1) m(2)] obtain d' where
    "settle (drive_locked (\<lambda>_. no_faults) (d_apply draw ws) (d\<lparr>h_node := n\<rparr>)) = Done d'" "view d' = m'" "\<not> db_closed (h_db d')" by blast
  then show thesis
    using that shows_as_put[OF assms(1), of d' m' i] m'(2) bs(1) n by (simp add: d_insert_def host_propose_def after_node_def)
qed

text \<open>Node 1 becomes the leader of term 1; later, alone, it is replaced by node 2.\<close>

definition first_leader :: "group_event list" where
  "first_leader = replicate 11 (GTick 1) @ [GReceive 1 0, GReceive 2 0, GReceive 1 2, GReceive 2 1]"

definition second_leader :: "group_event list" where
  "second_leader = replicate 24 (GTick 2) @ [GReceive 2 3, GReceive 3 0, GReceive 2 5, GReceive 3 1, GInsert 2 [121] [Fin 0, Fin 0],
     GReceive 2 9, GReceive 3 2, GReceive 2 8, GTick 2, GTick 2, GReceive 2 10, GReceive 2 11]"

abbreviation trio_run :: "group_event list \<Rightarrow> (node_id \<times> seen) list \<Rightarrow> (node_id \<times> seen) list option" where
  "trio_run \<equiv> run_group flat_levels (\<lambda>_. sorted_walks)"

definition overruled :: "seen \<Rightarrow> bool" where
  "overruled m \<longleftrightarrow> da_applied (snd (snd m)) = 1 \<and> fmlookup (h_nodes (da_index (snd (snd m)))) [120] = None \<and>
     fmlookup (h_nodes (da_index (snd (snd m)))) [121] \<noteq> None"

definition lost_in :: "(node_id \<times> seen) list option \<Rightarrow> bool" where
  "lost_in r \<longleftrightarrow> (case r of None \<Rightarrow> False | Some ms \<Rightarrow> list_all (\<lambda>i. case map_of ms i of None \<Rightarrow> False | Some m \<Rightarrow> overruled m) [1, 2, 3])"

definition takes_vector :: "seen \<Rightarrow> bool" where
  "takes_vector m \<longleftrightarrow> h_validate (da_index (snd (snd m))) [Fin 0, Fin 0] = None"

lemma trio_runs:
  obtains ms1 ms2 ms3 m where "trio_run first_leader (members_start [1, 2, 3]) = Some ms1" "map_of ms1 1 = Some m" "takes_vector m"
    "calm_event flat_levels (\<lambda>_. sorted_walks) (GInsert 1 [120] [Fin 0, Fin 0]) ms1 = Some ms2"
    "trio_run second_leader ms2 = Some ms3" "lost_in (Some ms3)"
proof -
  have "case trio_run first_leader (members_start [1, 2, 3]) of None \<Rightarrow> False
    | Some ms \<Rightarrow> (case map_of ms 1 of None \<Rightarrow> False | Some m \<Rightarrow> takes_vector m) \<and>
        lost_in (Option.bind (calm_event flat_levels (\<lambda>_. sorted_walks) (GInsert 1 [120] [Fin 0, Fin 0]) ms) (trio_run second_leader))"
    by code_simp
  then show thesis using that by (auto simp: lost_in_def bind_eq_Some_conv split: option.splits)
qed

lemma trio_started: "\<exists>ds. index_group flat_levels demo_cfg ds \<and> shows_as ds (members_start [1, 2, 3])"
  by (rule members_started) code_simp


end
