(* ===== verification/Torture.thy ===== *)
theory Torture
  imports Cluster_Properties
begin

section \<open>cmd/torture: a cluster under faults and the history its clients see\<close>

text \<open>
  The model starts from the decoded schedule and the two flags and ends with the report. \<open>its k\<close> and \<open>lo k\<close> are
  the orders in which Go walks the node map in the \<open>k\<close>-th delivery and the \<open>k\<close>-th call of \<open>Leader\<close>, \<open>it\<close> the order
  in which replicas walk their sets. As in \<open>Raft_Cluster\<close>, \<open>None\<close> is a delivery loop that does not end. \<open>fatal\<close>
  and panics end the program without a report. Counters are Go \<open>int\<close>s, modelled without bounds.
\<close>

record fault_entry =
  ft_step :: int
  ft_kind :: bytes
  ft_target :: int

record operation =
  op_invocation :: int
  op_response :: int
  op_kind :: string
  op_value :: "bytes option"
  op_result :: "bytes option"

datatype torture_error = TortureFailed cluster_error | TorturePanic

record torture =
  to_cluster :: cluster
  to_logical :: int
  to_history :: "operation list"
  to_calls :: nat             \<comment> \<open>deliveries so far; selects the orders\<close>

definition by_step :: "fault_entry list \<Rightarrow> int \<Rightarrow> fault_entry option" where
  "by_step schedule = fold (\<lambda>f m. m(ft_step f \<mapsto> f)) schedule Map.empty"

definition always_deliver :: "message \<Rightarrow> bool" where
  "always_deliver m = True"

definition isolate :: "node_id \<Rightarrow> message \<Rightarrow> bool" where
  "isolate target m \<longleftrightarrow> m_from m \<noteq> target \<and> m_to m \<noteq> target"

definition fault_target :: "int \<Rightarrow> fault_entry \<Rightarrow> node_id" where
  \<comment> \<open>Go's remainder takes the sign of the dividend\<close>
  "fault_target n f = word_of_int (sgn (ft_target f) * (\<bar>ft_target f\<bar> mod n)) + 1"

definition round_filter :: "int \<Rightarrow> fault_entry list \<Rightarrow> int \<Rightarrow> message \<Rightarrow> bool" where
  "round_filter n schedule round =
     (case by_step schedule round of None \<Rightarrow> always_deliver | Some f \<Rightarrow> isolate (fault_target n f))"

definition round_value :: "int \<Rightarrow> bytes" where
  \<comment> \<open>\<open>fmt.Sprintf("v%d", round)\<close>\<close>
  "round_value round = 118 # show_nat (nat round)"

definition last_applied :: "node_id \<Rightarrow> cluster \<Rightarrow> bytes option" where
  "last_applied i c = (let a = cluster_applied i c in if a = [] then None else Some (last a))"

fun finish :: "(torture_error + 'a) option \<Rightarrow> ('a \<Rightarrow> (torture_error + 'b) option) \<Rightarrow> (torture_error + 'b) option" where
  "finish None k = None"
| "finish (Some (Inl e)) k = Some (Inl e)"
| "finish (Some (Inr x)) k = k x"

fun fatal :: "cluster_outcome option \<Rightarrow> (torture_error + cluster) option" where
  \<comment> \<open>\<open>if err != nil { fatal(err) }\<close>\<close>
  "fatal None = None"
| "fatal (Some (Done c)) = Some (Inr c)"
| "fatal (Some (Failed e c)) = Some (Inl (TortureFailed e))"
| "fatal (Some Panic) = Some (Inl TorturePanic)"

definition play_read :: "map_range \<Rightarrow> int \<Rightarrow> torture \<Rightarrow> torture" where
  \<comment> \<open>the read at the end of a round, invoked when the write responded\<close>
  "play_read lo respond_at t =
     (case cluster_leader lo (to_cluster t) of
        None \<Rightarrow> t
      | Some l \<Rightarrow>
          t\<lparr>to_history := to_history t @ [\<lparr>op_invocation = respond_at, op_response = to_logical t, op_kind = ''read'', op_value = None,
              op_result = last_applied l (to_cluster t)\<rparr>],
            to_logical := to_logical t + 1\<rparr>)"

definition play_write :: "map_range \<Rightarrow> int \<Rightarrow> node_id \<Rightarrow> bytes \<Rightarrow> bool \<Rightarrow> cluster \<Rightarrow> torture \<Rightarrow> torture" where
  \<comment> \<open>after \<open>ProposeFiltered\<close> left \<open>c\<close>: record the write if it shows up, then read\<close>
  "play_write lo invoke_at leader value accepted c t =
     (let t1 = t\<lparr>to_cluster := c, to_logical := to_logical t + 2\<rparr>;
          t2 = (if accepted \<and> last_applied leader c = Some value
                then t1\<lparr>to_history := to_history t1 @ [\<lparr>op_invocation = invoke_at, op_response = invoke_at + 1, op_kind = ''write'',
                    op_value = Some value, op_result = None\<rparr>]\<rparr>
                else t1)
      in play_read lo (invoke_at + 1) t2)"

definition play_round ::
  "map_range \<Rightarrow> (nat \<Rightarrow> nat \<Rightarrow> map_range) \<Rightarrow> (nat \<Rightarrow> map_range) \<Rightarrow> int \<Rightarrow> fault_entry list \<Rightarrow> int \<Rightarrow> torture \<Rightarrow> (torture_error + torture) option" where
  "play_round it its lo n schedule round t =
     (let deliver = round_filter n schedule round; k = to_calls t
      in if n = 0 \<and> by_step schedule round \<noteq> None then Some (Inl TorturePanic)  \<comment> \<open>division by zero\<close>
         else finish (fatal (cluster_tick_filtered it (its k) deliver (to_cluster t)))
        (\<lambda>c. let t1 = t\<lparr>to_cluster := c, to_calls := k + 2\<rparr>
             in case cluster_leader (lo k) c of
                  None \<Rightarrow> Some (Inr t1)
                | Some leader \<Rightarrow>
                    (case cluster_propose_filtered it (its (k + 1)) leader (round_value round) deliver c of
                       None \<Rightarrow> None
                     | Some Panic \<Rightarrow> Some (Inl TorturePanic)
                     | Some (Done c') \<Rightarrow> Some (Inr (play_write (lo (k + 1)) (to_logical t) leader (round_value round) True c' t1))
                     | Some (Failed e c') \<Rightarrow> Some (Inr (play_write (lo (k + 1)) (to_logical t) leader (round_value round) False c' t1)))))"

fun play_rounds ::
  "map_range \<Rightarrow> (nat \<Rightarrow> nat \<Rightarrow> map_range) \<Rightarrow> (nat \<Rightarrow> map_range) \<Rightarrow> int \<Rightarrow> fault_entry list \<Rightarrow> int list \<Rightarrow> torture \<Rightarrow> (torture_error + torture) option" where
  "play_rounds it its lo n schedule [] t = Some (Inr t)"
| "play_rounds it its lo n schedule (r # rs) t =
     finish (play_round it its lo n schedule r t) (play_rounds it its lo n schedule rs)"

fun warm_up :: "map_range \<Rightarrow> (nat \<Rightarrow> nat \<Rightarrow> map_range) \<Rightarrow> nat \<Rightarrow> nat \<Rightarrow> cluster \<Rightarrow> (torture_error + cluster) option" where
  \<comment> \<open>ticks on a healthy network; the fourth argument counts the deliveries\<close>
  "warm_up it its 0 k c = Some (Inr c)"
| "warm_up it its (Suc i) k c =
     finish (fatal (cluster_tick_filtered it (its k) always_deliver c)) (warm_up it its i (Suc k))"

definition run_torture ::
  "map_range \<Rightarrow> (nat \<Rightarrow> nat \<Rightarrow> map_range) \<Rightarrow> (nat \<Rightarrow> map_range) \<Rightarrow> int \<Rightarrow> int \<Rightarrow> fault_entry list \<Rightarrow> (torture_error + operation list) option" where
  \<comment> \<open>node count, rounds and schedule to the reported history\<close>
  "run_torture it its lo n rounds schedule =
     (if n < 0 then Some (Inl TorturePanic)
      else case new_cluster (map (\<lambda>i. word_of_int (i + 1)) [0..n - 1]) of
        Inl e \<Rightarrow> Some (Inl (TortureFailed e))
      | Inr c0 \<Rightarrow>
          finish (warm_up it its 3 0 c0)
            (\<lambda>c. finish (play_rounds it its lo n schedule [0..rounds - 1] \<lparr>to_cluster = c, to_logical = 0, to_history = [], to_calls = 3\<rparr>)
               (\<lambda>t. Some (Inr (to_history t)))))"

subsection \<open>What a history looks like\<close>

definition written :: "operation list \<Rightarrow> bytes option list" where
  "written h = map op_value (filter (\<lambda>p. op_kind p = ''write'') h)"

definition well_formed_op :: "operation \<Rightarrow> bool" where
  "well_formed_op p \<longleftrightarrow> 0 \<le> op_invocation p \<and> op_invocation p < op_response p \<and>
     (op_kind p = ''write'' \<and> op_value p \<noteq> None \<and> op_result p = None \<or> op_kind p = ''read'' \<and> op_value p = None)"

definition well_timed :: "operation list \<Rightarrow> int \<Rightarrow> bool" where
  \<comment> \<open>the operations are well-formed, were invoked in this order and ended before \<open>now\<close>\<close>
  "well_timed h now \<longleftrightarrow> 0 \<le> now \<and> sorted (map op_invocation h) \<and> (\<forall>p \<in> set h. well_formed_op p \<and> op_response p < now)"

lemma well_timed_add:
  assumes "well_timed h now" "well_formed_op p" "\<forall>q \<in> set h. op_invocation q \<le> op_invocation p" "op_response p < later" "now \<le> later"
  shows "well_timed (h @ [p]) later"
  using assms by (fastforce simp: well_timed_def sorted_append)

definition history_ok :: "int list \<Rightarrow> torture \<Rightarrow> bool" where
  \<comment> \<open>\<open>rs\<close> are the rounds played so far\<close>
  "history_ok rs t \<longleftrightarrow> well_timed (to_history t) (to_logical t) \<and> distinct (written (to_history t)) \<and>
     set (written (to_history t)) \<subseteq> (Some \<circ> round_value) ` set rs"

lemma round_value_inj: "0 \<le> r \<Longrightarrow> 0 \<le> r' \<Longrightarrow> round_value r = round_value r' \<Longrightarrow> r = r'"
  unfolding round_value_def by (metis list.inject nat_eq_iff2 read_show_nat)

lemma written_add: "written (h @ [p]) = written h @ (if op_kind p = ''write'' then [op_value p] else [])"
  by (simp add: written_def)

lemma play_read_ok:
  assumes "well_timed (to_history t) (to_logical t)" "\<forall>q \<in> set (to_history t). op_invocation q \<le> k" "0 \<le> k" "k < to_logical t"
  shows "well_timed (to_history (play_read lo k t)) (to_logical (play_read lo k t))"
    and "written (to_history (play_read lo k t)) = written (to_history t)"
proof -
  have "well_timed (to_history t @ [\<lparr>op_invocation = k, op_response = to_logical t, op_kind = ''read'', op_value = None, op_result = v\<rparr>])
      (to_logical t + 1)" for v
    by (rule well_timed_add[OF assms(1)]) (use assms in \<open>auto simp: well_formed_op_def\<close>)
  then show "well_timed (to_history (play_read lo k t)) (to_logical (play_read lo k t))"
    using assms(1) by (simp add: play_read_def split: option.split)
  show "written (to_history (play_read lo k t)) = written (to_history t)"
    by (simp add: play_read_def written_add split: option.split)
qed

lemma play_write_ok:
  assumes "history_ok rs t" "\<forall>r \<in> set rs. 0 \<le> r \<and> r \<noteq> r0" "0 \<le> r0"
  shows "history_ok (rs @ [r0]) (play_write lo (to_logical t) leader (round_value r0) accepted c (t\<lparr>to_cluster := c0, to_calls := k\<rparr>))"
proof -
  let ?L = "to_logical t"
  let ?w = "\<lparr>op_invocation = ?L, op_response = ?L + 1, op_kind = ''write'', op_value = Some (round_value r0), op_result = None\<rparr>"
  have t: "well_timed (to_history t) ?L" "distinct (written (to_history t))"
    "set (written (to_history t)) \<subseteq> (Some \<circ> round_value) ` set rs" "0 \<le> ?L"
    using assms(1) by (auto simp: history_ok_def well_timed_def)
  have before: "\<forall>q \<in> set (to_history t). op_invocation q \<le> ?L" using t(1) by (fastforce simp: well_timed_def well_formed_op_def)
  have new: "Some (round_value r0) \<notin> set (written (to_history t))"
  proof
    assume "Some (round_value r0) \<in> set (written (to_history t))"
    then obtain r where "r \<in> set rs" "round_value r = round_value r0" using t(3) by auto
    then show False using assms(2,3) round_value_inj[of r r0] by auto
  qed
  define t2 where "t2 = (t\<lparr>to_cluster := c, to_calls := k, to_logical := ?L + 2,
    to_history := to_history t @ (if accepted \<and> last_applied leader c = Some (round_value r0) then [?w] else [])\<rparr>)"
  have eq: "play_write lo ?L leader (round_value r0) accepted c (t\<lparr>to_cluster := c0, to_calls := k\<rparr>) = play_read lo (?L + 1) t2"
    by (cases t) (simp add: play_write_def Let_def t2_def)
  have "well_timed (to_history t @ [?w]) (?L + 2)"
    by (rule well_timed_add[OF t(1)]) (use t(4) before in \<open>auto simp: well_formed_op_def\<close>)
  moreover have "well_timed (to_history t) (?L + 2)" using t(1) by (fastforce simp: well_timed_def)
  ultimately have "well_timed (to_history t2) (to_logical t2)" by (simp add: t2_def)
  moreover have "\<forall>q \<in> set (to_history t2). op_invocation q \<le> ?L + 1" using before by (auto simp: t2_def intro: order_trans)
  moreover have "distinct (written (to_history t2))" "set (written (to_history t2)) \<subseteq> (Some \<circ> round_value) ` set (rs @ [r0])"
    using t(2,3) new by (auto simp: t2_def written_add)
  ultimately show ?thesis
    using play_read_ok[of t2 "?L + 1" lo] t(4) unfolding eq history_ok_def by (simp add: t2_def)
qed

lemma finish_Inr: "finish x k = Some (Inr y) \<longleftrightarrow> (\<exists>v. x = Some (Inr v) \<and> k v = Some (Inr y))"
  by (induction x k rule: finish.induct) auto

lemma play_round_ok:
  assumes "history_ok rs t" "\<forall>r \<in> set rs. 0 \<le> r \<and> r \<noteq> r0" "0 \<le> r0" "play_round it its lo n schedule r0 t = Some (Inr t')"
  shows "history_ok (rs @ [r0]) t'"
proof -
  from assms(4) obtain c where c: "fatal (cluster_tick_filtered it (its (to_calls t)) (round_filter n schedule r0) (to_cluster t)) = Some (Inr c)"
    unfolding play_round_def Let_def by (auto simp: finish_Inr split: if_splits)
  have idle: "history_ok (rs @ [r0]) (t\<lparr>to_cluster := c, to_calls := to_calls t + 2\<rparr>)"
    using assms(1) by (auto simp: history_ok_def)
  show ?thesis
    using assms(4) c idle play_write_ok[OF assms(1-3)]
    by (auto simp: play_round_def Let_def split: option.splits outcome.splits if_splits)
qed

lemma play_rounds_ok:
  "history_ok rs t \<Longrightarrow> \<forall>r \<in> set (rs @ later). 0 \<le> r \<Longrightarrow> distinct (rs @ later) \<Longrightarrow>
   play_rounds it its lo n schedule later t = Some (Inr t') \<Longrightarrow> history_ok (rs @ later) t'"
proof (induction later arbitrary: rs t)
  case (Cons r later)
  obtain t1 where t1: "play_round it its lo n schedule r t = Some (Inr t1)" "play_rounds it its lo n schedule later t1 = Some (Inr t')"
    using Cons.prems(4) by (auto simp: finish_Inr)
  have "history_ok (rs @ [r]) t1"
    by (rule play_round_ok[OF Cons.prems(1) _ _ t1(1)]) (use Cons.prems(2,3) in auto)
  then show ?case using Cons.IH[of "rs @ [r]" t1] Cons.prems(2,3) t1(2) by simp
qed simp

text \<open>
  C32: Every history the program reports, whatever the faults, the cluster size and the map orders, is one a
  checker can read: the operations are in the order of their invocation, each ends after it began, each is a
  write of a value or a read, and no value is written twice.
\<close>
theorem torture_history_is_well_formed:
  assumes "run_torture it its lo n rounds schedule = Some (Inr h)"
  shows "sorted (map op_invocation h) \<and> (\<forall>p \<in> set h. well_formed_op p) \<and> distinct (written h)"
proof -
  from assms obtain c t where t: "play_rounds it its lo n schedule [0..rounds - 1] \<lparr>to_cluster = c, to_logical = 0, to_history = [], to_calls = 3\<rparr> = Some (Inr t)"
    "h = to_history t"
    by (auto simp: run_torture_def finish_Inr split: if_splits sum.splits)
  have "history_ok ([] @ [0..rounds - 1]) t"
    by (rule play_rounds_ok[OF _ _ _ t(1)]) (auto simp: history_ok_def well_timed_def written_def)
  then show ?thesis using t(2) by (simp add: history_ok_def well_timed_def)
qed

text \<open>
  The write of an isolated leader is not in the history. Three nodes, four rounds, the leader cut off in
  the second: its write of that round is missing, the reads of that round and before the next write still
  return the last recorded value, and later writes succeed.
\<close>
lemma isolated_write_is_not_recorded:
  "map_option (map_sum id (map (\<lambda>p. (op_kind p, op_value p, op_result p))))
     (run_torture sorted_range (\<lambda>_ _. sorted_range) (\<lambda>_. sorted_range) 3 4 [\<lparr>ft_step = 1, ft_kind = ascii ''partition'', ft_target = 0\<rparr>]) =
   Some (Inr
     [(''write'', Some (ascii ''v0''), None), (''read'', None, Some (ascii ''v0'')), (''read'', None, Some (ascii ''v0'')),
      (''write'', Some (ascii ''v2''), None), (''read'', None, Some (ascii ''v2'')),
      (''write'', Some (ascii ''v3''), None), (''read'', None, Some (ascii ''v3''))])"
  by code_simp

theorem torture_history_is_well_formed_witness:
  "\<exists>h. run_torture sorted_range (\<lambda>_ _. sorted_range) (\<lambda>_. sorted_range) 3 1 [] = Some (Inr h) \<and> length h = 2 \<and> distinct (written h)"
proof -
  have "case run_torture sorted_range (\<lambda>_ _. sorted_range) (\<lambda>_. sorted_range) 3 1 [] of Some (Inr h) \<Rightarrow> length h = 2 | _ \<Rightarrow> False"
    by code_simp
  then obtain h where "run_torture sorted_range (\<lambda>_ _. sorted_range) (\<lambda>_. sorted_range) 3 1 [] = Some (Inr h)" "length h = 2"
    by (auto split: option.splits sum.splits)
  with torture_history_is_well_formed[OF this(1)] show ?thesis by blast
qed

end
