(* ===== verification/Startup.thy ===== *)
theory Startup
  imports Durable_Properties
begin

section \<open>cmd/consensa: starting a node\<close>

text \<open>
  \<open>parsePeers\<close> and the part of \<open>main\<close> that turns the flags into the configuration of a \<open>DurableNode\<close>. Strings are
  lists of characters; \<open>split_on\<close> is \<open>strings.Split\<close> with a one-character separator and \<open>parse_uint\<close> is
  \<open>strconv.ParseUint(s, 10, 64)\<close>. Flag parsing, logging, the ticker and the gRPC listener are not modelled. The
  walk \<open>it\<close> is the order in which \<open>main\<close> ranges over the peers.
\<close>

datatype peers_error = NoPeers | MalformedPeer | MalformedId

datatype startup_error = IdRequired | DataDirRequired | BadPeers peers_error | AbsentFromPeers

fun split_on :: "char \<Rightarrow> string \<Rightarrow> string list" where
  "split_on c [] = [[]]"
| "split_on c (x # xs) =
     (if x = c then [] # split_on c xs else case split_on c xs of p # ps \<Rightarrow> (x # p) # ps | [] \<Rightarrow> [[x]])"

definition split_pair :: "string \<Rightarrow> (string \<times> string) option" where
  \<comment> \<open>\<open>SplitN(entry, "=", 2)\<close>, when it has two parts\<close>
  "split_pair s = (if CHR ''='' \<in> set s then Some (takeWhile (\<lambda>c. c \<noteq> CHR ''='') s, tl (dropWhile (\<lambda>c. c \<noteq> CHR ''='') s)) else None)"

definition parse_uint :: "string \<Rightarrow> u64 option" where
  "parse_uint s =
     (let ds = ascii s
      in if ds \<noteq> [] \<and> list_all is_digit ds \<and> read_nat ds < 2 ^ 64 then Some (of_nat (read_nat ds)) else None)"

fun parse_entries :: "string list \<Rightarrow> (node_id, string) mapping \<Rightarrow> peers_error + (node_id, string) mapping" where
  "parse_entries [] peers = Inr peers"
| "parse_entries (entry # rest) peers =
     (case split_pair entry of
        None \<Rightarrow> Inl MalformedPeer
      | Some (k, addr) \<Rightarrow>
          if k = [] \<or> addr = [] then Inl MalformedPeer
          else case parse_uint k of
            None \<Rightarrow> Inl MalformedId
          | Some i \<Rightarrow> if i = 0 then Inl MalformedId else parse_entries rest (Mapping.update i addr peers))"

definition parse_peers :: "string \<Rightarrow> peers_error + (node_id, string) mapping" where
  "parse_peers raw = (if raw = [] then Inl NoPeers else parse_entries (split_on (CHR '','') raw) Mapping.empty)"

definition startup_config :: "map_range \<Rightarrow> u64 \<Rightarrow> string \<Rightarrow> string \<Rightarrow> int \<Rightarrow> startup_error + durable_config" where
  \<comment> \<open>the flags \<open>id\<close>, \<open>peers\<close>, \<open>data-dir\<close> and \<open>dimension\<close>\<close>
  "startup_config it i raw dir dimension =
     (if i = 0 then Inl IdRequired
      else if dir = '''' then Inl DataDirRequired
      else case parse_peers raw of
        Inl e \<Rightarrow> Inl (BadPeers e)
      | Inr all \<Rightarrow>
          (case Mapping.lookup all i of
             None \<Rightarrow> Inl AbsentFromPeers
           | Some self \<Rightarrow>
               Inr \<lparr>dc_id = i, dc_group_peers = sort (it (Mapping.keys all)), dc_listen = self,
                    dc_transport_peers = Mapping.delete i all, dc_dir = dir,
                    dc_index = \<lparr>cf_dimension = dimension, cf_m = 16, cf_ef_construction = 64, cf_ef_search = 64, cf_seed = 1\<rparr>,
                    dc_election_tick = 0, dc_heartbeat_tick = 0\<rparr>))"

subsection \<open>Reading the peers flag\<close>

definition decimal :: "u64 \<Rightarrow> string" where
  "decimal n = map (\<lambda>b. char_of (unat b)) (show_nat (unat n))"

fun peers_flag :: "(node_id \<times> string) list \<Rightarrow> string" where
  \<comment> \<open>the flag as the usage text shows it: \<open>id=address\<close>, separated by commas\<close>
  "peers_flag [] = []"
| "peers_flag [(i, addr)] = decimal i @ CHR ''='' # addr"
| "peers_flag ((i, addr) # p # ps) = decimal i @ CHR ''='' # addr @ CHR '','' # peers_flag (p # ps)"

lemma of_char_byte: "(of_char (char_of (unat b) :: char) :: byte) = b"
proof -
  have "of_nat (of_char (char_of (unat b) :: char)) = (of_nat (unat b mod 256) :: byte)" by (simp only: of_char_of)
  also have "unat b mod 256 = unat b" using unsigned_less[where ?'a=nat, of b] by simp
  also have "of_nat (unat b) = b" by simp
  finally show ?thesis by (simp only: of_nat_of_char)
qed

lemma ascii_chars: "ascii (map (\<lambda>b. char_of (unat b)) bs) = bs"
  by (simp only: ascii_def map_map o_def of_char_byte map_ident)

lemma parse_decimal: "parse_uint (decimal n) = Some n"
  using unsigned_less[where ?'a=nat, of n] by (simp add: parse_uint_def decimal_def ascii_chars show_nat_digits)

lemma decimal_char: "c \<in> set (decimal n) \<Longrightarrow> c \<noteq> CHR ''='' \<and> c \<noteq> CHR '',''"
proof -
  assume "c \<in> set (decimal n)"
  then have "of_char c \<in> set (ascii (decimal n))" by (simp add: ascii_def)
  then have "is_digit (of_char c)" using show_nat_digits[of "unat n"] by (simp add: decimal_def ascii_chars list_all_iff)
  then show ?thesis by (auto simp: is_digit_def)
qed

lemma split_on_single: "c \<notin> set s \<Longrightarrow> split_on c s = [s]"
  by (induction s) auto

lemma split_on_join: "c \<notin> set s \<Longrightarrow> split_on c (s @ c # t) = s # split_on c t"
  by (induction s) auto

lemma split_pair_join: "CHR ''='' \<notin> set k \<Longrightarrow> split_pair (k @ CHR ''='' # v) = Some (k, v)"
  by (auto simp: split_pair_def takeWhile_append dropWhile_append)

lemma parse_peers_flag:
  "ps \<noteq> [] \<Longrightarrow> (\<And>i addr. (i, addr) \<in> set ps \<Longrightarrow> i \<noteq> 0 \<and> addr \<noteq> [] \<and> CHR '','' \<notin> set addr) \<Longrightarrow>
   parse_entries (split_on (CHR '','') (peers_flag ps)) m = Inr (fold (\<lambda>(i, addr). Mapping.update i addr) ps m)"
proof (induction ps arbitrary: m rule: peers_flag.induct)
  case (2 i addr)
  have "CHR '','' \<notin> set (decimal i @ CHR ''='' # addr)" "CHR ''='' \<notin> set (decimal i)" "decimal i \<noteq> []"
    using 2(2)[of i addr] decimal_char by (auto simp: decimal_def)
  then show ?case using 2(2)[of i addr] by (simp add: split_on_single split_pair_join parse_decimal)
next
  case (3 i addr p ps)
  have item: "CHR '','' \<notin> set (decimal i @ CHR ''='' # addr)" "CHR ''='' \<notin> set (decimal i)" "decimal i \<noteq> []"
    using 3(3)[of i addr] decimal_char by (auto simp: decimal_def)
  have "split_on (CHR '','') (peers_flag ((i, addr) # p # ps)) = (decimal i @ CHR ''='' # addr) # split_on (CHR '','') (peers_flag (p # ps))"
    using split_on_join[OF item(1), of "peers_flag (p # ps)"] by simp
  moreover have "parse_entries (split_on (CHR '','') (peers_flag (p # ps))) (Mapping.update i addr m) =
      Inr (fold (\<lambda>(i, addr). Mapping.update i addr) (p # ps) (Mapping.update i addr m))"
    by (rule 3(1), simp, rule 3(3), simp)
  ultimately show ?case using 3(3)[of i addr] item by (simp del: peers_flag.simps add: split_pair_join parse_decimal)
qed simp

text \<open>
  The peers flag is read as it is written: for any list of non-zero 64-bit IDs with non-empty addresses
  that contain no comma (an equals sign is fine), \<open>parsePeers\<close> returns exactly the map the list stands for, the
  last address winning for an ID that occurs twice.
\<close>
lemma peers_flag_roundtrip:
  assumes "ps \<noteq> []" "\<forall>(i, addr) \<in> set ps. i \<noteq> 0 \<and> addr \<noteq> [] \<and> CHR '','' \<notin> set addr"
  shows "parse_peers (peers_flag ps) = Inr (fold (\<lambda>(i, addr). Mapping.update i addr) ps Mapping.empty)"
proof -
  have "peers_flag ps \<noteq> []" using assms(1) by (cases ps rule: peers_flag.cases) (auto simp: decimal_def)
  moreover have "parse_entries (split_on (CHR '','') (peers_flag ps)) Mapping.empty =
      Inr (fold (\<lambda>(i, addr). Mapping.update i addr) ps Mapping.empty)"
    by (rule parse_peers_flag) (use assms in fastforce)+
  ultimately show ?thesis by (simp add: parse_peers_def)
qed

lemma peers_flag_roundtrip_witness:
  "parse_peers (peers_flag [(1, ''h1:9001''), (2, ''h2:9002?a=b'')]) =
   Inr (Mapping.update 2 ''h2:9002?a=b'' (Mapping.update 1 ''h1:9001'' Mapping.empty))"
  using peers_flag_roundtrip[of "[(1, ''h1:9001''), (2, ''h2:9002?a=b'')]"] by simp

subsection \<open>Nodes started with the same flags\<close>

lemma stagger_positive: "1 \<le> base \<Longrightarrow> 1 \<le> host_election_stagger i ids base"
  by (auto simp: host_election_stagger_def Let_def pos_imp_zdiv_nonneg_iff)

lemma startup_cases:
  assumes "startup_config it i raw dir dimension = Inr c"
  obtains all self where "i \<noteq> 0" "dir \<noteq> ''''" "parse_peers raw = Inr all" "Mapping.lookup all i = Some self"
    "c = \<lparr>dc_id = i, dc_group_peers = sort (it (Mapping.keys all)), dc_listen = self,
          dc_transport_peers = Mapping.delete i all, dc_dir = dir,
          dc_index = \<lparr>cf_dimension = dimension, cf_m = 16, cf_ef_construction = 64, cf_ef_search = 64, cf_seed = 1\<rparr>,
          dc_election_tick = 0, dc_heartbeat_tick = 0\<rparr>"
  using assms by (auto simp: startup_config_def split: if_splits sum.splits option.splits)

text \<open>
  Nodes started with the same peers flag and dimension form one group. Whenever \<open>main\<close> accepts its flags and
  the dimension is positive, a node opened on an empty directory starts; and any two such nodes agree on the
  members and on the index configuration, and each knows the address the other listens on.
\<close>
lemma started_nodes_form_a_group:
  assumes "startup_config it i raw dir dimension = Inr c" "startup_config it' j raw dir' dimension = Inr c'"
    and "0 < dimension" "map_order it" "map_order it'"
  shows "(\<exists>d. new_durable_node no_faults True c None = Inr d) \<and>
    dc_group_peers c = dc_group_peers c' \<and> dc_index c = dc_index c' \<and> {i, j} \<subseteq> set (dc_group_peers c) \<and>
    (i \<noteq> j \<longrightarrow> Mapping.lookup (dc_transport_peers c) j = Some (dc_listen c'))"
proof -
  from startup_cases[OF assms(1)] obtain all self where c: "i \<noteq> 0" "dir \<noteq> ''''" "parse_peers raw = Inr all" "Mapping.lookup all i = Some self"
    "c = \<lparr>dc_id = i, dc_group_peers = sort (it (Mapping.keys all)), dc_listen = self,
          dc_transport_peers = Mapping.delete i all, dc_dir = dir,
          dc_index = \<lparr>cf_dimension = dimension, cf_m = 16, cf_ef_construction = 64, cf_ef_search = 64, cf_seed = 1\<rparr>,
          dc_election_tick = 0, dc_heartbeat_tick = 0\<rparr>" .
  from startup_cases[OF assms(2)] obtain self' where c': "Mapping.lookup all j = Some self'"
    "c' = \<lparr>dc_id = j, dc_group_peers = sort (it' (Mapping.keys all)), dc_listen = self',
          dc_transport_peers = Mapping.delete j all, dc_dir = dir',
          dc_index = \<lparr>cf_dimension = dimension, cf_m = 16, cf_ef_construction = 64, cf_ef_search = 64, cf_seed = 1\<rparr>,
          dc_election_tick = 0, dc_heartbeat_tick = 0\<rparr>" using c(3) by auto
  have members: "i \<in> Mapping.keys all" "j \<in> Mapping.keys all"
    using c(4) c'(1) by (auto simp: keys_is_none_rep)
  have same: "sort (it (Mapping.keys all)) = sort (it' (Mapping.keys all))"
    by (rule sorted_distinct_set_unique) (simp_all add: map_orderD[OF assms(4)] map_orderD[OF assms(5)]
        map_order_distinct[OF assms(4)] map_order_distinct[OF assms(5)])
  have "i \<in> set (it (Mapping.keys all))" using members(1) map_orderD[OF assms(4)] by simp
  then have "sort (it (Mapping.keys all)) \<noteq> []" by (metis empty_iff empty_set set_sort)
  then have "\<exists>n. new_node (raft_config c) = Inr n"
    using c(1) members(1) stagger_positive[of 10 i "sort (it (Mapping.keys all))"] map_orderD[OF assms(4)] \<open>i \<in> set _\<close>
    by (auto simp add: new_node_def raft_config_def c(5) Let_def)
  moreover have "\<exists>h. new_hnsw (dc_index c) = Inr h" using assms(3) by (simp add: new_hnsw_def c(5))
  ultimately have "\<exists>d. new_durable_node no_faults True c None = Inr d"
    using new_durable_exists[of c] c(2,5) by auto
  then show ?thesis using c(5) c' same members map_orderD[OF assms(5)] by (simp add: lookup_delete)
qed

lemma started_nodes_form_a_group_witness:
  "\<exists>c c' d. startup_config sorted_range 1 (peers_flag [(1, ''a:1''), (2, ''b:2'')]) ''d1'' 3 = Inr c \<and>
    startup_config sorted_range 2 (peers_flag [(1, ''a:1''), (2, ''b:2'')]) ''d2'' 3 = Inr c' \<and>
    new_durable_node no_faults True c None = Inr d \<and> Mapping.lookup (dc_transport_peers c) 2 = Some (dc_listen c')"
proof -
  have "parse_entries (split_on (CHR '','') (peers_flag [(1, ''a:1''), (2, ''b:2'')])) Mapping.empty =
      Inr (fold (\<lambda>(i, addr). Mapping.update i addr) [(1, ''a:1''), (2, ''b:2'')] Mapping.empty)"
    by (rule parse_peers_flag) auto
  then have "parse_peers (peers_flag [(1, ''a:1''), (2, ''b:2'')]) = Inr (Mapping.update 2 ''b:2'' (Mapping.update 1 ''a:1'' Mapping.empty))"
    by (simp add: parse_peers_def)
  then obtain c c' where c: "startup_config sorted_range 1 (peers_flag [(1, ''a:1''), (2, ''b:2'')]) ''d1'' 3 = Inr c"
    "startup_config sorted_range 2 (peers_flag [(1, ''a:1''), (2, ''b:2'')]) ''d2'' 3 = Inr c'"
    by (simp del: peers_flag.simps add: startup_config_def lookup_update')
  from started_nodes_form_a_group[OF c _ sorted_range_order sorted_range_order] c show ?thesis by auto
qed

end
