(* ===== verification/Bench.thy ===== *)
theory Bench
  imports Startup Server
begin

section \<open>cmd/annbench: answering a dataset's queries\<close>

text \<open>
  The model starts from the decoded dataset and the flags and ends with the output, without its times. The
  \<open>sweep\<close> flag is ASCII text; \<open>trim_space\<close> is \<open>strings.TrimSpace\<close> and \<open>atoi\<close> is \<open>strconv.Atoi\<close> for a 64-bit
  \<open>int\<close>. \<open>ws n\<close> are the orders of map iteration during the \<open>n\<close>-th insert.
\<close>

record labelled_vector =
  lv_id :: bytes
  lv_values :: vec

record dataset =
  ds_dimension :: int
  ds_vectors :: "labelled_vector list"
  ds_queries :: "vec list"

record query_result =
  qr_query_index :: nat
  qr_ids :: "bytes list"

record sweep_result =
  sw_param :: int
  sw_results :: "query_result list"

record bench_output =
  bo_num_vectors :: nat
  bo_sweeps :: "sweep_result list"

datatype bench_error = MalformedSweep | BenchFailed ann_error | BenchPanic

definition blank :: "char \<Rightarrow> bool" where
  "blank c \<longleftrightarrow> of_char c \<in> {9, 10, 11, 12, 13, 32 :: nat}"

definition trim_space :: "string \<Rightarrow> string" where
  "trim_space s = rev (dropWhile blank (rev (dropWhile blank s)))"

definition atoi :: "string \<Rightarrow> int option" where
  "atoi s =
     (let (neg, ds) = split_sign (ascii s); n = int (read_nat ds); x = (if neg then - n else n)
      in if ds \<noteq> [] \<and> list_all is_digit ds \<and> - (2 ^ 63) \<le> x \<and> x < 2 ^ 63 then Some x else None)"

fun parse_ints :: "string list \<Rightarrow> int list option" where
  "parse_ints [] = Some []"
| "parse_ints (p # ps) = (case atoi (trim_space p) of None \<Rightarrow> None | Some n \<Rightarrow> map_option (Cons n) (parse_ints ps))"

definition parse_int_list :: "string \<Rightarrow> int list option" where
  "parse_int_list s = parse_ints (split_on (CHR '','') s)"

fun build_index :: "walks \<Rightarrow> level_source \<Rightarrow> nat \<Rightarrow> labelled_vector list \<Rightarrow> hnsw \<Rightarrow> (ann_error, hnsw) outcome" where
  "build_index ws draw n [] h = Done h"
| "build_index ws draw n (v # vs) h =
     and_then (h_insert (fst (ws n)) (snd (ws n)) draw (lv_id v) (lv_values v) h) (build_index ws draw (Suc n) vs) id"

fun run_queries :: "int \<Rightarrow> int \<Rightarrow> hnsw \<Rightarrow> nat \<Rightarrow> vec list \<Rightarrow> bench_error + query_result list" where
  "run_queries k ef h qi [] = Inr []"
| "run_queries k ef h qi (q # qs) =
     (case h_search q k ef h of
        Panic \<Rightarrow> Inl BenchPanic
      | Failed e hits \<Rightarrow> Inl (BenchFailed e)
      | Done hits \<Rightarrow> map_sum id (Cons \<lparr>qr_query_index = qi, qr_ids = map r_id hits\<rparr>) (run_queries k ef h (Suc qi) qs))"

fun run_sweeps :: "int \<Rightarrow> hnsw \<Rightarrow> vec list \<Rightarrow> int list \<Rightarrow> bench_error + sweep_result list" where
  "run_sweeps k h qs [] = Inr []"
| "run_sweeps k h qs (ef # efs) =
     (case run_queries k ef h 0 qs of
        Inl e \<Rightarrow> Inl e
      | Inr rs \<Rightarrow> map_sum id (Cons \<lparr>sw_param = ef, sw_results = rs\<rparr>) (run_sweeps k h qs efs))"

definition run_annbench :: "walks \<Rightarrow> level_source \<Rightarrow> int \<Rightarrow> int \<Rightarrow> int \<Rightarrow> string \<Rightarrow> u64 \<Rightarrow> dataset \<Rightarrow> bench_error + bench_output" where
  \<comment> \<open>the flags \<open>k\<close>, \<open>m\<close>, \<open>ef-construction\<close>, \<open>sweep\<close> and \<open>seed\<close>\<close>
  "run_annbench ws draw k m efc sweep seed ds =
     (case parse_int_list sweep of
        None \<Rightarrow> Inl MalformedSweep
      | Some [] \<Rightarrow> Inl BenchPanic
      | Some (ef # efs) \<Rightarrow>
          (case new_hnsw \<lparr>cf_dimension = ds_dimension ds, cf_m = m, cf_ef_construction = efc, cf_ef_search = ef, cf_seed = seed\<rparr> of
             Inl e \<Rightarrow> Inl (BenchFailed e)
           | Inr h0 \<Rightarrow>
               (case build_index ws draw 0 (ds_vectors ds) h0 of
                  Panic \<Rightarrow> Inl BenchPanic
                | Failed e h \<Rightarrow> Inl (BenchFailed e)
                | Done h \<Rightarrow>
                    map_sum id (\<lambda>sweeps. \<lparr>bo_num_vectors = length (ds_vectors ds), bo_sweeps = sweeps\<rparr>)
                      (run_sweeps k h (ds_queries ds) (ef # efs)))))"

subsection \<open>Building the index\<close>

definition stored :: "labelled_vector list \<Rightarrow> (bytes, vec) fmap \<Rightarrow> (bytes, vec) fmap" where
  "stored vs = fold (\<lambda>v. fmupd (lv_id v) (lv_values v)) vs"

definition insertable :: "hnsw \<Rightarrow> labelled_vector \<Rightarrow> bool" where
  "insertable h v \<longleftrightarrow> lv_id v \<noteq> [] \<and> h_validate h (lv_values v) = None"

lemma insert_refused: "\<not> insertable h v \<Longrightarrow> \<exists>e. h_insert it lv draw (lv_id v) (lv_values v) h = Failed e h"
  by (auto simp: insertable_def h_insert_def)

lemma build_index_ok:
  "\<lbrakk>index_ready h; fair_levels draw; \<forall>n. fair_walks (ws n)\<rbrakk> \<Longrightarrow>
   case build_index ws draw n vs h of
     Done h' \<Rightarrow> list_all (insertable h) vs \<and> index_ready h' \<and> vectors h' = stored vs (vectors h) \<and> h_cfg h' = h_cfg h
   | Failed e h' \<Rightarrow> \<not> list_all (insertable h) vs
   | Panic \<Rightarrow> False"
proof (induction vs arbitrary: n h)
  case (Cons v vs)
  show ?case
  proof (cases "insertable h v")
    case False
    then obtain e where "h_insert (fst (ws n)) (snd (ws n)) draw (lv_id v) (lv_values v) h = Failed e h"
      using insert_refused by blast
    then show ?thesis using False by simp
  next
    case True
    then have v: "lv_id v \<noteq> []" "h_validate h (lv_values v) = None" by (simp_all add: insertable_def)
    have w: "any_order (fst (ws n))" "any_order (snd (ws n))" using Cons.prems(3) by (simp_all add: fair_walks_def)
    from Cons.prems(1) have h: "hnsw_ok h" "2 \<le> cf_m (h_cfg h)" by (simp_all add: index_ready_def)
    from insert_effect[OF h(1) v Cons.prems(2) h(2) w] obtain h1 where
      h1: "h_insert (fst (ws n)) (snd (ws n)) draw (lv_id v) (lv_values v) h = Done h1" "hnsw_ok h1"
        "vectors h1 = fmupd (lv_id v) (lv_values v) (vectors h)" "h_cfg h1 = h_cfg h" by blast
    then have ready: "index_ready h1" using h(2) by (simp add: index_ready_def)
    have same: "insertable h1 = insertable h" by (rule ext) (simp add: insertable_def h_validate_def h1(4))
    show ?thesis
      using Cons.IH[OF ready Cons.prems(2,3), of "Suc n"] True h1
      by (simp add: same stored_def split: outcome.splits)
  qed
qed (simp add: stored_def)

subsection \<open>Running the queries\<close>

definition answers :: "int \<Rightarrow> int \<Rightarrow> hnsw \<Rightarrow> vec \<Rightarrow> bytes list \<Rightarrow> bool" where
  \<comment> \<open>what a caller can expect of the IDs found for a query\<close>
  "answers k ef h q ids \<longleftrightarrow> (\<exists>hits. h_search q k ef h = Done hits \<and> ids = map r_id hits) \<and> distinct ids \<and>
     length ids \<le> min (nat k) (search_width h ef) \<and> set ids \<subseteq> fset (fmdom (vectors h)) \<and> (ids = [] \<longleftrightarrow> vectors h = fmempty)"

lemma search_answers:
  assumes "hnsw_ok h" "h_validate h q = None" "0 < k"
  obtains hits where "h_search q k ef h = Done hits" "answers k ef h q (map r_id hits)"
proof -
  from search_hits[OF assms, of ef] obtain hits where hits: "h_search q k ef h = Done hits" "length hits \<le> min (nat k) (search_width h ef)"
    "distinct (map r_id hits)" "\<forall>r \<in> set hits. \<exists>v. fmlookup (vectors h) (r_id r) = Some v \<and> r_distance r = l2_squared q v"
    "hits = [] \<longleftrightarrow> fmdom (vectors h) = {||}" by blast
  have "set (map r_id hits) \<subseteq> fset (fmdom (vectors h))" using hits(4) by (auto intro: fmdomI)
  moreover have "fmdom (vectors h) = {||} \<longleftrightarrow> vectors h = fmempty" by (metis fmdom_empty fmrestrict_fset_dom fmrestrict_fset_null)
  ultimately show thesis using that hits by (auto simp: answers_def)
qed

lemma search_refused: "h_validate h q \<noteq> None \<or> k \<le> 0 \<Longrightarrow> \<exists>e. h_search q k ef h = Failed e []"
  by (auto simp: h_search_def Let_def split: option.splits)

definition askable :: "int \<Rightarrow> hnsw \<Rightarrow> vec list \<Rightarrow> bool" where
  "askable k h qs \<longleftrightarrow> list_all (\<lambda>q. h_validate h q = None) qs \<and> (qs = [] \<or> 0 < k)"

definition answered :: "int \<Rightarrow> int \<Rightarrow> hnsw \<Rightarrow> nat \<Rightarrow> vec list \<Rightarrow> query_result list \<Rightarrow> bool" where
  "answered k ef h qi qs rs \<longleftrightarrow> map qr_query_index rs = [qi..<qi + length qs] \<and> list_all2 (answers k ef h) qs (map qr_ids rs)"

lemma run_queries_ok:
  "hnsw_ok h \<Longrightarrow> case run_queries k ef h qi qs of
     Inr rs \<Rightarrow> askable k h qs \<and> answered k ef h qi qs rs
   | Inl e \<Rightarrow> \<not> askable k h qs \<and> e \<noteq> BenchPanic"
proof (induction qs arbitrary: qi)
  case (Cons q qs)
  show ?case
  proof (cases "h_validate h q = None \<and> 0 < k")
    case False
    then obtain e where "h_search q k ef h = Failed e []" using search_refused[of h q k ef] by (auto simp: not_less)
    then show ?thesis using False by (auto simp: askable_def)
  next
    case True
    then obtain hits where "h_search q k ef h = Done hits" "answers k ef h q (map r_id hits)"
      using search_answers[OF Cons.prems, of q k ef] by blast
    then show ?thesis using Cons.IH[OF Cons.prems, of "Suc qi"] True
      by (auto simp: askable_def answered_def upt_conv_Cons simp del: upt_Suc split: sum.splits)
  qed
qed (simp add: askable_def answered_def)

lemma run_sweeps_ok:
  "hnsw_ok h \<Longrightarrow> case run_sweeps k h qs efs of
     Inr out \<Rightarrow> (efs \<noteq> [] \<longrightarrow> askable k h qs) \<and> map sw_param out = efs \<and> list_all (\<lambda>s. answered k (sw_param s) h 0 qs (sw_results s)) out
   | Inl e \<Rightarrow> \<not> askable k h qs \<and> e \<noteq> BenchPanic"
proof (induction efs)
  case (Cons ef efs)
  then show ?case using run_queries_ok[where k=k and ef=ef and qi=0 and qs=qs, OF Cons.prems] by (auto split: sum.splits)
qed simp


subsection \<open>The whole program\<close>

definition usable :: "int \<Rightarrow> int \<Rightarrow> int \<Rightarrow> string \<Rightarrow> dataset \<Rightarrow> bool" where
  \<comment> \<open>the inputs the program accepts\<close>
  "usable k m efc sweep ds \<longleftrightarrow>
     (case parse_int_list sweep of None \<Rightarrow> False | Some efs \<Rightarrow> 0 < hd efs) \<and>
     0 < ds_dimension ds \<and> 0 < m \<and> m \<le> efc \<and>
     (\<forall>v \<in> set (ds_vectors ds). lv_id v \<noteq> [] \<and> validate_dimension (ds_dimension ds) (lv_values v) = None) \<and>
     (\<forall>q \<in> set (ds_queries ds). validate_dimension (ds_dimension ds) q = None) \<and> (ds_queries ds = [] \<or> 0 < k)"

lemma parse_ints_Nil: "parse_ints ps = Some [] \<Longrightarrow> ps = []"
  by (cases ps) (auto split: option.splits)

lemma split_on_nonempty: "split_on c s \<noteq> []"
  by (induction s) (auto split: list.splits)

lemma parse_int_list_nonempty: "parse_int_list s \<noteq> Some []"
  using parse_ints_Nil[of "split_on (CHR '','') s"] split_on_nonempty by (auto simp: parse_int_list_def)

lemma new_index_ready: "new_hnsw c = Inr h \<Longrightarrow> 2 \<le> cf_m c \<Longrightarrow> index_ready h \<and> h_cfg h = c \<and> vectors h = fmempty"
  using new_hnsw_ok[of c h] by (auto simp: index_ready_def new_hnsw_def vectors_def split: if_splits)

lemma bench_ok:
  assumes "parse_int_list sweep = Some (ef # efs)" "\<forall>n. fair_walks (ws n)" "fair_levels draw" "2 \<le> m"
    and c: "c = \<lparr>cf_dimension = ds_dimension ds, cf_m = m, cf_ef_construction = efc, cf_ef_search = ef, cf_seed = seed\<rparr>"
  shows "case run_annbench ws draw k m efc sweep seed ds of
      Inr out \<Rightarrow> usable k m efc sweep ds \<and> bo_num_vectors out = length (ds_vectors ds) \<and> map sw_param (bo_sweeps out) = ef # efs \<and>
        (\<exists>h. hnsw_ok h \<and> h_cfg h = c \<and> vectors h = stored (ds_vectors ds) fmempty \<and>
           list_all (\<lambda>s. answered k (sw_param s) h 0 (ds_queries ds) (sw_results s)) (bo_sweeps out))
    | Inl e \<Rightarrow> \<not> usable k m efc sweep ds \<and> e \<noteq> BenchPanic"
proof (cases "new_hnsw c")
  case (Inl e)
  then show ?thesis using assms(1) by (auto simp: run_annbench_def usable_def c new_hnsw_def split: if_splits)
next
  case (Inr h0)
  then have h0: "index_ready h0" "h_cfg h0 = c" "vectors h0 = fmempty" using new_index_ready[OF Inr] assms(4) by (simp_all add: c)
  have cfg: "0 < ef" "0 < ds_dimension ds" "0 < m" "m \<le> efc" using Inr by (auto simp: c new_hnsw_def split: if_splits)
  have ins: "list_all (insertable h0) (ds_vectors ds) \<longleftrightarrow>
      (\<forall>v \<in> set (ds_vectors ds). lv_id v \<noteq> [] \<and> validate_dimension (ds_dimension ds) (lv_values v) = None)"
    by (simp add: list_all_iff insertable_def h_validate_def h0(2) c)
  note built = build_index_ok[where n=0 and vs="ds_vectors ds", OF h0(1) assms(3,2)]
  show ?thesis
  proof (cases "build_index ws draw 0 (ds_vectors ds) h0")
    case (Done h)
    then have h: "hnsw_ok h" "h_cfg h = c" "vectors h = stored (ds_vectors ds) fmempty" "list_all (insertable h0) (ds_vectors ds)"
      using built h0 by (simp_all add: index_ready_def)
    have "askable k h (ds_queries ds) \<longleftrightarrow>
        (\<forall>q \<in> set (ds_queries ds). validate_dimension (ds_dimension ds) q = None) \<and> (ds_queries ds = [] \<or> 0 < k)"
      by (simp add: askable_def list_all_iff h_validate_def h(2) c)
    then show ?thesis
      using run_sweeps_ok[OF h(1), of k "ds_queries ds" "ef # efs"] h ins cfg assms(1) Inr Done
      by (auto simp: run_annbench_def usable_def c simp del: run_sweeps.simps split: sum.splits)
  next
    case (Failed e h)
    then show ?thesis using built ins assms(1) Inr by (auto simp: run_annbench_def usable_def c)
  next
    case Panic
    then show ?thesis using built by simp
  qed
qed

text \<open>
  C33: The benchmark program answers every query for every width, or says why not. With \<open>m\<close> at least two it never
  panics and it fails only on input it should refuse. Otherwise its output has one sweep per value of the
  flag, in order, each with one result per query, in order, all measured on one index that holds the last
  vector of each ID of the dataset: each result lists what \<open>Search\<close> returns, no ID twice, at most \<open>k\<close> and at
  most the width (a width of zero or less means the first of the flag), and none only if the dataset is empty.
\<close>
theorem annbench_answers_every_query:
  assumes "\<forall>n. fair_walks (ws n)" "fair_levels draw" "2 \<le> m"
  shows "case run_annbench ws draw k m efc sweep seed ds of
      Inl e \<Rightarrow> \<not> usable k m efc sweep ds \<and> e \<noteq> BenchPanic
    | Inr out \<Rightarrow> usable k m efc sweep ds \<and> bo_num_vectors out = length (ds_vectors ds) \<and>
        (\<exists>efs h. parse_int_list sweep = Some efs \<and> map sw_param (bo_sweeps out) = efs \<and>
           hnsw_ok h \<and> vectors h = stored (ds_vectors ds) fmempty \<and> cf_ef_search (h_cfg h) = hd efs \<and>
           list_all (\<lambda>s. answered k (sw_param s) h 0 (ds_queries ds) (sw_results s)) (bo_sweeps out))"
proof (cases "parse_int_list sweep")
  case None
  then show ?thesis by (simp add: run_annbench_def usable_def)
next
  case (Some efs)
  then obtain ef efs' where efs: "efs = ef # efs'" using parse_int_list_nonempty[of sweep] by (cases efs) auto
  from bench_ok[OF Some[unfolded efs] assms refl, where k=k and efc=efc and ds=ds and seed=seed] show ?thesis
    by (auto simp: Some efs split: sum.splits)
qed


definition two_points :: dataset where
  "two_points = \<lparr>ds_dimension = 1, ds_vectors = [\<lparr>lv_id = [1], lv_values = [Fin 0]\<rparr>, \<lparr>lv_id = [2], lv_values = [Fin 2]\<rparr>],
     ds_queries = [[Fin 1]]\<rparr>"

theorem annbench_answers_every_query_witness:
  "\<exists>out. run_annbench (\<lambda>_. sorted_walks) flat_levels 1 2 4 ''4, 2'' 7 two_points = Inr out \<and> map sw_param (bo_sweeps out) = [4, 2] \<and>
     bo_num_vectors out = 2"
proof -
  have walks: "\<forall>n. fair_walks ((\<lambda>_. sorted_walks) n)" using sorted_walks_fair by simp
  have flag: "parse_int_list ''4, 2'' = Some [4, 2]" by code_simp
  have valid: "validate_dimension 1 [Fin 0] = None" "validate_dimension 1 [Fin 2] = None" "validate_dimension 1 [Fin 1] = None"
    by code_simp+
  have "usable 1 2 4 ''4, 2'' two_points" by (simp add: usable_def flag two_points_def valid)
  then show ?thesis
    using annbench_answers_every_query[OF walks flat_levels_fair order.refl, where k=1 and efc=4 and sweep="''4, 2''" and seed=7 and ds=two_points]
    by (auto simp: flag two_points_def split: sum.splits)
qed

end
