(* ===== verification/Client.thy ===== *)
theory Client
  imports Bench
begin

section \<open>cmd/democlient: a client that tries every node\<close>

text \<open>
  The remote side is an argument: what it is to call a node, on a world of any type. A call may fail for any
  reason (a node that is down, a deadline); a dial fails only for an address gRPC refuses. The wall clock is a
  number: how often the deadline is still ahead when the program looks, which for its 15 seconds and its
  pause of 100 ms is at most 150. \<open>parse_float\<close> is \<open>strconv.ParseFloat(s, 32)\<close> for decimal text and the names
  of infinities and NaN; hexadecimal literals, which it also takes, are refused. What \<open>fatal\<close> prints is an error
  value, what the program prints otherwise its result.
\<close>

record 'w remote =
  rm_dial :: "string \<Rightarrow> bool"
  rm_upsert :: "string \<Rightarrow> upsert_request \<Rightarrow> 'w \<Rightarrow> bool \<times> 'w"              \<comment> \<open>whether no step returned an error\<close>
  rm_search :: "string \<Rightarrow> search_request \<Rightarrow> 'w \<Rightarrow> result list \<times> 'w"       \<comment> \<open>what arrived before the end or an error\<close>
  rm_status :: "string \<Rightarrow> 'w \<Rightarrow> status_response option \<times> 'w"

datatype client_error = BadVectorText | DialFailed | NoNodeAccepted | NeverNearest

definition special_float :: "bytes \<Rightarrow> f32 option" where
  "special_float s =
     (let (neg, r) = split_sign s
      in if map fold_case r = ascii ''inf'' \<or> map fold_case r = ascii ''infinity'' then Some (Inf neg)
         else if map fold_case s = ascii ''nan'' then Some Nan else None)"

definition decimal_text :: "bytes \<Rightarrow> bool" where
  "decimal_text s =
     (let r = snd (split_sign s); (fp, r2) = split_fraction (dropWhile is_digit r)
      in (takeWhile is_digit r \<noteq> [] \<or> fp \<noteq> []) \<and>
         (case r2 of [] \<Rightarrow> True
          | c # r3 \<Rightarrow> (c = 69 \<or> c = 101) \<and> snd (split_sign r3) \<noteq> [] \<and> list_all is_digit (snd (split_sign r3))))"

definition parse_float :: "bytes \<Rightarrow> f32 option" where
  "parse_float s = (case special_float s of Some x \<Rightarrow> Some x | None \<Rightarrow> if decimal_text s then parse_float32 s else None)"

fun parse_parts :: "string list \<Rightarrow> vec option" where
  "parse_parts [] = Some []"
| "parse_parts (p # ps) = (case parse_float (ascii (trim_space p)) of None \<Rightarrow> None | Some x \<Rightarrow> map_option (Cons x) (parse_parts ps))"

definition parse_vector :: "string \<Rightarrow> vec option" where
  "parse_vector s = parse_parts (split_on (CHR '','') s)"

subsection \<open>upsert\<close>

fun try_nodes :: "'w remote \<Rightarrow> upsert_request \<Rightarrow> string list \<Rightarrow> 'w \<Rightarrow> (client_error + string option) \<times> 'w" where
  "try_nodes rm r [] w = (Inr None, w)"
| "try_nodes rm r (a # as) w =
     (if \<not> rm_dial rm a then (Inl DialFailed, w)
      else case rm_upsert rm a r w of (ok, w') \<Rightarrow> if ok then (Inr (Some a), w') else try_nodes rm r as w')"

fun upsert_rounds :: "'w remote \<Rightarrow> upsert_request \<Rightarrow> string list \<Rightarrow> nat \<Rightarrow> 'w \<Rightarrow> (client_error + string) \<times> 'w" where
  "upsert_rounds rm r as 0 w = (Inl NoNodeAccepted, w)"
| "upsert_rounds rm r as (Suc n) w =
     (case try_nodes rm r as w of
        (Inl e, w') \<Rightarrow> (Inl e, w')
      | (Inr (Some a), w') \<Rightarrow> (Inr a, w')
      | (Inr None, w') \<Rightarrow> upsert_rounds rm r as n w')"

definition client_upsert :: "'w remote \<Rightarrow> nat \<Rightarrow> string \<Rightarrow> bytes \<Rightarrow> string \<Rightarrow> 'w \<Rightarrow> (client_error + string) \<times> 'w" where
  \<comment> \<open>the flags \<open>addrs\<close>, \<open>id\<close> and \<open>vec\<close>; the result is the address the write went through\<close>
  "client_upsert rm ticks addrs i vec w =
     (case parse_vector vec of
        None \<Rightarrow> (Inl BadVectorText, w)
      | Some v \<Rightarrow> upsert_rounds rm \<lparr>ur_id = i, ur_vector = Some v\<rparr> (split_on (CHR '','') addrs) ticks w)"

subsection \<open>search and status\<close>

definition run_search :: "'w remote \<Rightarrow> string \<Rightarrow> vec \<Rightarrow> int \<Rightarrow> 'w \<Rightarrow> (client_error + result list) \<times> 'w" where
  "run_search rm a q k w =
     (if \<not> rm_dial rm a then (Inl DialFailed, w)
      else case rm_search rm a \<lparr>sr_query = Some q, sr_k = word_of_int k, sr_ef = 20\<rparr> w of (rs, w') \<Rightarrow> (Inr rs, w'))"

definition as_expected :: "bytes \<Rightarrow> result list \<Rightarrow> bool" where
  "as_expected expect rs \<longleftrightarrow> expect = [] \<or> (rs \<noteq> [] \<and> r_id (hd rs) = expect)"

fun search_rounds :: "'w remote \<Rightarrow> string \<Rightarrow> vec \<Rightarrow> int \<Rightarrow> bytes \<Rightarrow> nat \<Rightarrow> 'w \<Rightarrow> (client_error + result list) \<times> 'w" where
  "search_rounds rm a q k expect n w =
     (case run_search rm a q k w of
        (Inl e, w') \<Rightarrow> (Inl e, w')
      | (Inr rs, w') \<Rightarrow>
          if as_expected expect rs then (Inr rs, w')
          else case n of 0 \<Rightarrow> (Inl NeverNearest, w') | Suc m \<Rightarrow> search_rounds rm a q k expect m w')"

definition client_search :: "'w remote \<Rightarrow> nat \<Rightarrow> string \<Rightarrow> string \<Rightarrow> int \<Rightarrow> bytes \<Rightarrow> 'w \<Rightarrow> (client_error + result list) \<times> 'w" where
  \<comment> \<open>the flags \<open>addr\<close>, \<open>vec\<close>, \<open>k\<close> and \<open>expect\<close>\<close>
  "client_search rm ticks a vec k expect w =
     (case parse_vector vec of None \<Rightarrow> (Inl BadVectorText, w) | Some q \<Rightarrow> search_rounds rm a q k expect ticks w)"

fun status_lines :: "'w remote \<Rightarrow> string list \<Rightarrow> 'w \<Rightarrow> (client_error + (string \<times> status_response option) list) \<times> 'w" where
  "status_lines rm [] w = (Inr [], w)"
| "status_lines rm (a # as) w =
     (if \<not> rm_dial rm a then (Inl DialFailed, w)
      else case rm_status rm a w of (st, w') \<Rightarrow>
        (case status_lines rm as w' of (r, w'') \<Rightarrow> (map_sum id (Cons (a, st)) r, w'')))"

definition client_status :: "'w remote \<Rightarrow> string \<Rightarrow> 'w \<Rightarrow> (client_error + (string \<times> status_response option) list) \<times> 'w" where
  "client_status rm addrs = status_lines rm (split_on (CHR '','') addrs)"

subsection \<open>Clients and services together\<close>

definition serving :: "('s, 'e, 'f) index_ops \<Rightarrow> (string \<Rightarrow> bool) \<Rightarrow> (result list \<Rightarrow> result list) \<Rightarrow> (string \<Rightarrow> 's option) remote" where
  \<comment> \<open>the world: which addresses have a service, and its index; \<open>replies a\<close>: responses of \<open>a\<close> arrive\<close>
  "serving ix replies srt = \<lparr>rm_dial = (\<lambda>_. True),
     rm_upsert = (\<lambda>a r w. case w a of None \<Rightarrow> (False, w)
       | Some s \<Rightarrow> (case fst (svc_upsert ix True (replies a) [r] s) of
           Done s' \<Rightarrow> (True, w(a \<mapsto> s')) | Failed e s' \<Rightarrow> (False, w(a \<mapsto> s')) | Panic \<Rightarrow> (False, w(a := None)))),
     rm_search = (\<lambda>a r w. case w a of None \<Rightarrow> ([], w)
       | Some s \<Rightarrow> (case svc_search ix srt None r s of Done rs \<Rightarrow> (rs, w) | Failed e rs \<Rightarrow> (rs, w) | Panic \<Rightarrow> ([], w(a := None)))),
     rm_status = (\<lambda>a w. (map_option (svc_status ix) (w a), w))\<rparr>"

definition stored_at :: "('s \<Rightarrow> bool) \<Rightarrow> ('s \<Rightarrow> (bytes, vec) fmap) \<Rightarrow> bytes \<Rightarrow> vec \<Rightarrow> (string \<Rightarrow> 's option) \<Rightarrow> (string \<Rightarrow> 's option) \<Rightarrow> bool" where
  \<comment> \<open>the indexes are unchanged, or hold one vector more\<close>
  "stored_at ok held i v w w' \<longleftrightarrow> (\<forall>a. case w a of
       None \<Rightarrow> w' a = None
     | Some s \<Rightarrow> (\<exists>s'. w' a = Some s' \<and> ok s' \<and> (held s' = held s \<or> held s' = fmupd i v (held s))))"

definition nobody_takes :: "('s, 'e, 'f) index_ops \<Rightarrow> upsert_request \<Rightarrow> string list \<Rightarrow> (string \<Rightarrow> 's option) \<Rightarrow> bool" where
  "nobody_takes ix r as w \<longleftrightarrow> (\<forall>a \<in> set as. case w a of None \<Rightarrow> True | Some s \<Rightarrow> \<not> acceptable ix s [r])"

lemma stored_at_trans: "stored_at ok held i v w w' \<Longrightarrow> stored_at ok held i v w' w'' \<Longrightarrow> stored_at ok held i v w w''"
  unfolding stored_at_def
proof
  fix a
  assume *: "\<forall>a. case w a of None \<Rightarrow> w' a = None
     | Some s \<Rightarrow> (\<exists>s'. w' a = Some s' \<and> ok s' \<and> (held s' = held s \<or> held s' = fmupd i v (held s)))"
    "\<forall>a. case w' a of None \<Rightarrow> w'' a = None
     | Some s \<Rightarrow> (\<exists>s'. w'' a = Some s' \<and> ok s' \<and> (held s' = held s \<or> held s' = fmupd i v (held s)))"
  from *(1)[THEN spec, of a] *(2)[THEN spec, of a]
  show "case w a of None \<Rightarrow> w'' a = None
     | Some s \<Rightarrow> (\<exists>s'. w'' a = Some s' \<and> ok s' \<and> (held s' = held s \<or> held s' = fmupd i v (held s)))"
    by (auto split: option.splits)
qed

lemma stored_at_ok: "stored_at ok held i v w w' \<Longrightarrow> \<forall>a s. w' a = Some s \<longrightarrow> ok s"
proof (intro allI impI)
  fix a s
  assume "stored_at ok held i v w w'" "w' a = Some s"
  then show "ok s" unfolding stored_at_def by (cases "w a") (auto dest!: spec[where x=a])
qed

lemma stored_at_refl: "\<forall>a s. w a = Some s \<longrightarrow> ok s \<Longrightarrow> stored_at ok held i v w w"
  by (auto simp: stored_at_def split: option.splits)

context vector_index
begin

lemma serves_one:
  assumes "\<forall>a s. w a = Some s \<longrightarrow> ok s" and r: "r = \<lparr>ur_id = i, ur_vector = Some v\<rparr>"
  shows "case rm_upsert (serving ix replies srt) a r w of (success, w') \<Rightarrow> stored_at ok contents i v w w' \<and>
    (if success then \<exists>s. w' a = Some s \<and> fmlookup (contents s) i = Some v else replies a \<longrightarrow> w' = w \<and> nobody_takes ix r [a] w)"
proof (cases "w a")
  case None
  then show ?thesis using stored_at_refl[OF assms(1)] by (simp add: serving_def nobody_takes_def)
next
  case (Some s)
  have ok: "ok s" using assms(1) Some by blast
  have put: "put_batch [r] m = fmupd i v m" for m by (simp add: put_batch_def r)
  have upd: "stored_at ok contents i v w (w(a \<mapsto> s'))" if "ok s'" "contents s' = contents s \<or> contents s' = fmupd i v (contents s)" for s'
    using that assms(1) Some by (auto simp: stored_at_def split: option.splits)
  have same: "w(a \<mapsto> s) = w" using Some by auto
  show ?thesis
    using upsert_served[OF ok, of True "replies a" "[r]"] Some upd[of s] ok
    by (cases "svc_upsert ix True (replies a) [r] s"; cases "fst (svc_upsert ix True (replies a) [r] s)")
      (auto simp: serving_def put same nobody_takes_def intro: upd split: if_splits)
qed

lemma client_tries:
  assumes "r = \<lparr>ur_id = i, ur_vector = Some v\<rparr>"
  shows "\<forall>a s. w a = Some s \<longrightarrow> ok s \<Longrightarrow> case try_nodes (serving ix replies srt) r as w of
      (Inl e, w') \<Rightarrow> False
    | (Inr None, w') \<Rightarrow> stored_at ok contents i v w w' \<and> ((\<forall>a. replies a) \<longrightarrow> w' = w \<and> nobody_takes ix r as w)
    | (Inr (Some a), w') \<Rightarrow> stored_at ok contents i v w w' \<and> a \<in> set as \<and> (\<exists>s. w' a = Some s \<and> fmlookup (contents s) i = Some v)"
proof (induction as arbitrary: w)
  case Nil
  then show ?case using stored_at_refl by (auto simp: nobody_takes_def)
next
  case (Cons a as)
  obtain success w1 where one: "rm_upsert (serving ix replies srt) a r w = (success, w1)" by fastforce
  note step = serves_one[where replies=replies and srt=srt and a=a, OF Cons.prems assms, unfolded one prod.case]
  have dial: "rm_dial (serving ix replies srt) a" by (simp add: serving_def)
  show ?case
  proof (cases success)
    case True
    then show ?thesis using step one dial by simp
  next
    case False
    have ok1: "\<forall>a s. w1 a = Some s \<longrightarrow> ok s" using step stored_at_ok by blast
    show ?thesis
      using Cons.IH[OF ok1] step False one dial stored_at_trans[OF conjunct1[OF step]]
      by (auto simp: nobody_takes_def split: prod.splits sum.splits option.splits)
  qed
qed

lemma rounds_tried:
  assumes "r = \<lparr>ur_id = i, ur_vector = Some v\<rparr>"
  shows "\<forall>a s. w a = Some s \<longrightarrow> ok s \<Longrightarrow> case upsert_rounds (serving ix replies srt) r as n w of
      (Inl e, w') \<Rightarrow> e = NoNodeAccepted \<and> stored_at ok contents i v w w' \<and>
        (0 < n \<longrightarrow> (\<forall>a. replies a) \<longrightarrow> w' = w \<and> nobody_takes ix r as w)
    | (Inr a, w') \<Rightarrow> stored_at ok contents i v w w' \<and> a \<in> set as \<and> (\<exists>s. w' a = Some s \<and> fmlookup (contents s) i = Some v)"
proof (induction n arbitrary: w)
  case 0
  then show ?case using stored_at_refl by auto
next
  case (Suc n)
  obtain res w1 where tried: "try_nodes (serving ix replies srt) r as w = (res, w1)" by fastforce
  note step = client_tries[where replies=replies and srt=srt and as=as, OF assms Suc.prems, unfolded tried prod.case]
  show ?case
  proof (cases res)
    case (Inl e)
    then show ?thesis using step by simp
  next
    case (Inr found)
    show ?thesis
    proof (cases found)
      case (Some a)
      then show ?thesis using step tried Inr by simp
    next
      case None
      then have kept: "stored_at ok contents i v w w1" "(\<forall>a. replies a) \<longrightarrow> w1 = w \<and> nobody_takes ix r as w"
        using step Inr by simp_all
      obtain res2 w2 where rest: "upsert_rounds (serving ix replies srt) r as n w1 = (res2, w2)" by fastforce
      from Suc.IH[OF stored_at_ok[OF kept(1)]] kept tried None Inr rest stored_at_trans[OF kept(1)] show ?thesis
        by (cases res2; cases n) auto
    qed
  qed
qed

end

lemma search_rounds_expected: "search_rounds rm a q k expect n w = (Inr rs, w') \<Longrightarrow> as_expected expect rs"
proof (induction n arbitrary: w)
  case (Suc n)
  then show ?case by (auto split: prod.splits sum.splits if_splits simp del: search_rounds.simps simp: search_rounds.simps[of rm a q k expect "Suc n"])
qed (auto split: prod.splits sum.splits if_splits)



end
