(* ===== verification/Spec2Isabelle.thy ===== *)
theory Spec2Isabelle
  imports Safety_Limits Group_Properties Replica_Properties Storage_Properties Recovery Host_Properties Raft_Tcp Cluster_Properties Hnsw_Properties
    Durable_Properties Accepted_Writes Torture Client
begin

text \<open>
  Consensa: a replicated index of vectors. Each server runs a Raft replica (internal/raft), saves what
  the replica must not forget in a small key-value store over a write-ahead log (internal/storage),
  exchanges messages with its peers over TCP, and applies the committed commands to a graph for
  nearest-neighbour search (internal/ann, internal/vector).

  \<^bold>\<open>How the parts interact.\<close> A replica (\<open>Raft_Node\<close>) is a state machine without input or output: it is
  ticked, given messages and proposals, and queues work. \<open>Host.driveLocked\<close> (\<open>Raft_Host\<close>) takes that work
  and saves it (\<open>Raft_Storage\<close>, \<open>Engine\<close>, \<open>Wal\<close>), sends it (\<open>Raft_Tcp\<close>), applies it to the application
  and calls \<open>Advance\<close>. After a crash \<open>RecoverNode\<close> rebuilds the replica from the store. \<open>Cluster\<close> is the
  same loop for a group in one process. The application is the graph of \<open>Hnsw\<close>: \<open>DurableNode\<close> (\<open>Durable\<close>)
  proposes inserts and deletes as JSON entries (\<open>Mutation\<close>), applies the committed ones to its graph and
  rebuilds the graph from its log after a restart. \<open>Service\<close> (\<open>Server\<close>) puts it behind gRPC, cmd/consensa
  (\<open>Startup\<close>) starts it, cmd/democlient (\<open>Client\<close>) calls it; cmd/torture and cmd/annbench (\<open>Torture\<close>,
  \<open>Bench\<close>) drive a \<open>Cluster\<close> under faults and a graph with a dataset.

  \<^bold>\<open>Theories and code.\<close> Definitions have the names of the Go functions in lower case with underscores;
  a struct is a record whose fields carry a prefix, an error return is \<open>Failed\<close>, a panic \<open>Panic\<close>.
  \<^item> \<open>Prelude\<close>: outcomes of calls, words, maps with a default, iteration orders.
  \<^item> \<open>Raft_Types\<close> (state.go), \<open>Raft_Log\<close> (log.go), \<open>Membership\<close> (membership.go), \<open>Conf_Change\<close> and the
    second half of \<open>Raft_Node\<close> (confchange.go), \<open>Raft_Node\<close> (node.go, election.go).
  \<^item> \<open>Node_Frame\<close>, \<open>Node_Steps\<close>, \<open>Node_Props\<close>: what the helpers of a replica leave alone, every operation as a
    sequence of small steps, invariants of one replica by induction on them. \<open>Commit_Rule\<close>,
    \<open>Reconfiguration\<close>: the rule of \<open>advanceCommit\<close> and the life of a joint configuration.
  \<^item> \<open>Network\<close>: the group as a step relation in which messages can be lost, repeated and reordered;
    \<open>Net_Logs\<close>, \<open>Log_Matching\<close>: invariants of its reachable states; \<open>Executions\<close>: computed schedules.
  \<^item> \<open>Go_Json\<close>, \<open>Base64\<close>, \<open>Raft_Json\<close>: what encoding/json writes and reads for the structs of the program;
    \<open>Byte_Codec\<close>: big-endian integers and CRC-32.
  \<^item> \<open>Wal\<close> (wal.go), \<open>Engine\<close> (engine.go), \<open>Raft_Storage\<close> (storage.go), \<open>Recovery\<close>: files under crashes and
    faults, the store as a map, what recovery finds after any saves.
  \<^item> \<open>Raft_Host\<close> (host.go), \<open>Raft_Tcp\<close> (tcp.go), \<open>Raft_Cluster\<close> (cluster.go).
  \<^item> \<open>Float32\<close>, \<open>Vector\<close> (internal/vector), \<open>Hnsw\<close> (hnsw.go), \<open>Hnsw_Search\<close>, \<open>Hnsw_Graph\<close>, \<open>Hnsw_Index\<close>: the
    graph, what a search returns, the effect of each operation, the invariant.
  \<^item> \<open>Float_Text\<close>: \<open>float32\<close> values in JSON text; \<open>Mutation\<close> (persist.go); \<open>Durable\<close>, \<open>Durable_Runs\<close>,
    \<open>Durable_Properties\<close> (durable.go): a node, groups of nodes and their runs, the graph as a function of
    the log. \<open>Replicated_Machine\<close>, \<open>Host_Network\<close>: applications as replays of the applied entries.
  \<^item> \<open>Server\<close> (internal/server/service.go), \<open>Accepted_Writes\<close>: the service before any index, and what its
    answer does not promise before a group.
  \<^item> \<open>Torture\<close>, \<open>Startup\<close>, \<open>Bench\<close>, \<open>Client\<close>: the programs of cmd/, from decoded input to result.
  \<^item> \<open>Replica_Properties\<close>, \<open>Group_Properties\<close>, \<open>Safety_Limits\<close>, \<open>Storage_Properties\<close>, \<open>Recovery\<close>,
    \<open>Host_Properties\<close>, \<open>Raft_Tcp\<close>, \<open>Cluster_Properties\<close>, \<open>Vector\<close>, \<open>Hnsw_Properties\<close> and the theories of
    the last three items: the numbered claims with the runs that witness them.

  \<^bold>\<open>Interfaces.\<close> \<open>quorum_system\<close> and \<open>quorum_handover\<close> (\<open>Membership\<close>) are what elections and commits need of a
  voter set; \<open>node_operation\<close> (\<open>Node_Steps\<close>) is the contract of an operation of a replica, \<open>run_invariant\<close>
  (\<open>Network\<close>) what an invariant of all runs has to satisfy; \<open>crash_store\<close> (\<open>Engine\<close>) is what saving and
  recovery need of the store, \<open>codec\<close> (\<open>Go_Json\<close>) what callers need of an encoder and decoder;
  \<open>replicated_machine\<close> says when an application is a function of the entries it applied, \<open>logged_application\<close>
  (\<open>Host_Network\<close>) when a host drives it as the network model says, \<open>vector_index\<close> (\<open>Server\<close>) what the service
  and its clients need of an index. Each is interpreted on the definitions of the code.

  \<^bold>\<open>What is shown.\<close> One replica never panics, keeps its log in shape, and commits by the stated rule; a
  group matches logs where terms have one leader. Three computed runs show where that premise fails:
  a replica forgets its vote within a term, pre-votes are counted as votes, and acknowledgements cover
  more than was sent. A host saves before it sends and refines the network model under any disk faults;
  the store keeps what was synced and detects damage; recovery finds exactly what was saved, which
  includes entries a later leader had overwritten. The index implements a map whatever the iteration
  orders, keeps its graph linked and bounded, and its searches return, ranked and locally optimal. Composed,
  every node stays well-formed under any call and fault, the graph of a replica is the replay of the entries
  it applied, in an execution of the network model, and a restart rebuilds it; but a committed delete of an ID
  that is not stored stops every replica for good, and an \<open>Upsert\<close> that was answered can be lost. Before a plain
  index \<open>Upsert\<close> is all or nothing, \<open>Search\<close> streams the hits in order, and a client that reports a write has
  stored it. The torture program writes well-formed histories, the benchmark answers every query.

  \<^bold>\<open>Bounds and fuel.\<close> Terms, indices and IDs are 64-bit words. JSON parsing takes fuel, and the amount passed
  is proved enough for every printed value (\<open>parse_print\<close>). The delivery loop of \<open>Cluster\<close> may not end:
  it is a partial function whose \<open>None\<close> means that, and the claims that use it show a result. All other
  loops end; the search loop does because every step visits a new node or shrinks the frontier.

  \<^bold>\<open>Assumptions.\<close> Tick counters and lengths are Go \<open>int\<close>s and do not overflow. The operating system may
  fail any call and lose what was not synced, but keeps what was. \<open>float32\<close> operations round one by one,
  as on amd64 (no fused multiply-add). The level of a new node is a parameter: a seeded generator and
  a logarithm of the standard library decide it. IDs are valid UTF-8, and the two zeros of \<open>float32\<close> are one.
  What a remote call does is a parameter of the client, and so is the number of times its clock allows.

  \<^bold>\<open>Not modelled.\<close> Generated code; sockets, the gRPC transport, goroutines, tickers and mutexes (methods run one
  at a time); reading flags and files, logging, printing, and the times the benchmark measures.
\<close>

end
